(* ===== verification/Prelude.thy ===== *)
theory Prelude
  imports Main "HOL-Library.Word" "HOL-Library.Multiset" "HOL-Library.Product_Lexorder"
begin

text \<open>
  Shared vocabulary of the development: the outcome of Rust code that may panic, loops over
  such code, and the standard-library containers the program uses.

  \<^item> \<open>'a res\<close> is the outcome of an expression that may panic; \<open>bindR\<close> sequences, \<open>foldR\<close>
    is a \<open>for\<close> loop whose body may panic. Rust's \<open>Option\<close> is HOL's \<open>option\<close>, Rust's \<open>Result\<close>
    a sum.
  \<^item> \<open>'a reverse\<close> is \<open>std::cmp::Reverse\<close>, an instance of \<open>linorder\<close>.
  \<^item> \<open>heap_push\<close>, \<open>heap_pop\<close> are \<open>std::collections::BinaryHeap\<close>, a list kept in descending
    order; the locale \<open>max_heap\<close> states its contract.
  \<^item> \<open>bt_insert\<close>, \<open>bt_remove\<close> are \<open>std::collections::BTreeMap\<close>, an association list in key
    order, read with \<open>map_of\<close>. A \<open>BTreeSet\<close> is a set; where the code iterates over it, the
    iteration is over \<open>sorted_list_of_set\<close>.
\<close>

section \<open>Automation collections\<close>

named_theorems res_simps "unfolding sequencing of panicking code"
named_theorems heap_simps "membership facts of the heap operations"
named_theorems bt_simps "lookup facts of the ordered map operations"

section \<open>Machine integers\<close>

type_synonym u8 = "8 word"
type_synonym u16 = "16 word"
type_synonym u32 = "32 word"
type_synonym u64 = "64 word"
type_synonym bytes = "8 word list"

text \<open>
  Indices and sizes that only count elements held in memory are \<open>nat\<close>. Where a peer chooses
  the number, the arithmetic is checked as a build with overflow checks does it.
\<close>

definition u64_max :: nat where
  "u64_max = 2 ^ 64 - 1"

section \<open>Outcomes of code that may panic\<close>

datatype panic =
    Unreachable
  | ExpectFailed
  | UnwrapNone
  | ArithOverflow
  | IndexOutOfBounds
  | AssertFailed
  | TodoHit
  | ExplicitPanic

datatype 'a res = Ret 'a | Panic panic

fun bindR :: "'a res \<Rightarrow> ('a \<Rightarrow> 'b res) \<Rightarrow> 'b res" where
  "bindR (Ret a) f = f a"
| "bindR (Panic p) f = Panic p"

fun foldR :: "('s \<Rightarrow> 'a \<Rightarrow> 's res) \<Rightarrow> 's \<Rightarrow> 'a list \<Rightarrow> 's res" where
  "foldR f s [] = Ret s"
| "foldR f s (x # xs) = bindR (f s x) (\<lambda>s'. foldR f s' xs)"

fun mapR :: "('a \<Rightarrow> 'b res) \<Rightarrow> 'a list \<Rightarrow> 'b list res" where
  "mapR f [] = Ret []"
| "mapR f (x # xs) = bindR (f x) (\<lambda>y. bindR (mapR f xs) (\<lambda>ys. Ret (y # ys)))"

text \<open>\<open>Option::expect\<close>, \<open>Option::unwrap\<close> and indexing, with their panics.\<close>

definition expect :: "'a option \<Rightarrow> 'a res" where
  "expect x = (case x of None \<Rightarrow> Panic ExpectFailed | Some a \<Rightarrow> Ret a)"

definition unwrap :: "'a option \<Rightarrow> 'a res" where
  "unwrap x = (case x of None \<Rightarrow> Panic UnwrapNone | Some a \<Rightarrow> Ret a)"

definition index :: "'a list \<Rightarrow> nat \<Rightarrow> 'a res" where
  "index xs i = (if i < length xs then Ret (xs ! i) else Panic IndexOutOfBounds)"

definition store_at :: "'a list \<Rightarrow> nat \<Rightarrow> 'a \<Rightarrow> 'a list res" where
  "store_at xs i x = (if i < length xs then Ret (xs[i := x]) else Panic IndexOutOfBounds)"

definition add_u64 :: "nat \<Rightarrow> nat \<Rightarrow> nat res" where
  "add_u64 a b = (if a + b \<le> u64_max then Ret (a + b) else Panic ArithOverflow)"

definition sub_u64 :: "nat \<Rightarrow> nat \<Rightarrow> nat res" where
  "sub_u64 a b = (if b \<le> a then Ret (a - b) else Panic ArithOverflow)"

definition mul_u64 :: "nat \<Rightarrow> nat \<Rightarrow> nat res" where
  "mul_u64 a b = (if a * b \<le> u64_max then Ret (a * b) else Panic ArithOverflow)"

lemma bindR_eq_Ret [simp]: "bindR m f = Ret b \<longleftrightarrow> (\<exists>a. m = Ret a \<and> f a = Ret b)"
  by (cases m) auto

lemma bindR_assoc [res_simps]: "bindR (bindR m f) g = bindR m (\<lambda>x. bindR (f x) g)"
  by (cases m) auto

lemma bindR_Ret [simp]: "bindR m Ret = m"
  by (cases m) auto

lemma bindR_cong [fundef_cong]:
  "m = n \<Longrightarrow> (\<And>a. n = Ret a \<Longrightarrow> f a = g a) \<Longrightarrow> bindR m f = bindR n g"
  by (cases n) auto

lemma expect_Some [simp]: "expect (Some a) = Ret a" "expect None = Panic ExpectFailed"
  by (simp_all add: expect_def)

lemma unwrap_Some [simp]: "unwrap (Some a) = Ret a" "unwrap None = Panic UnwrapNone"
  by (simp_all add: unwrap_def)

lemma index_in [simp]: "i < length xs \<Longrightarrow> index xs i = Ret (xs ! i)"
  by (simp add: index_def)

lemma store_at_in [simp]: "i < length xs \<Longrightarrow> store_at xs i x = Ret (xs[i := x])"
  by (simp add: store_at_def)

lemma foldR_append: "foldR f s (xs @ ys) = bindR (foldR f s xs) (\<lambda>s'. foldR f s' ys)"
  by (induction xs arbitrary: s) (auto simp: res_simps)

text \<open>The loop rule: a body that returns and keeps an invariant gives a loop that does.\<close>

lemma foldR_invariant:
  assumes "I s" and "\<And>s x. x \<in> set xs \<Longrightarrow> I s \<Longrightarrow> \<exists>s'. f s x = Ret s' \<and> I s'"
  shows "\<exists>s'. foldR f s xs = Ret s' \<and> I s'"
  using assms
proof (induction xs arbitrary: s)
  case Nil
  then show ?case by simp
next
  case (Cons x xs)
  from Cons.prems obtain t where t: "f s x = Ret t" "I t" by force
  from Cons.prems have "\<And>s x. x \<in> set xs \<Longrightarrow> I s \<Longrightarrow> \<exists>s'. f s x = Ret s' \<and> I s'" by simp
  from Cons.IH [OF t(2) this] t(1) show ?case by auto
qed

lemma foldR_Ret: "foldR (\<lambda>s x. Ret (f s x)) s xs = Ret (foldl f s xs)"
  by (induction xs arbitrary: s) auto

text \<open>The same for a loop that is known to have returned.\<close>

lemma foldR_returned:
  assumes "foldR f s xs = Ret s'" and "I s"
    and "\<And>s x s'. x \<in> set xs \<Longrightarrow> I s \<Longrightarrow> f s x = Ret s' \<Longrightarrow> I s'"
  shows "I s'"
  using assms
proof (induction xs arbitrary: s)
  case (Cons x xs)
  from Cons.prems(1) obtain t where t: "f s x = Ret t" "foldR f t xs = Ret s'" by auto
  have "I t" by (rule Cons.prems(3) [OF _ Cons.prems(2) t(1)]) simp
  with t(2) show ?case by (rule Cons.IH) (metis Cons.prems(3) list.set_intros(2))
qed simp

lemma mapR_Ret: "(\<And>x. x \<in> set xs \<Longrightarrow> f x = Ret (g x)) \<Longrightarrow> mapR f xs = Ret (map g xs)"
  by (induction xs) auto

lemma mapR_length: "mapR f xs = Ret ys \<Longrightarrow> length ys = length xs"
  by (induction xs arbitrary: ys) auto

lemma foldR_concat:
  "foldR (\<lambda>st l. foldR f st (g l)) st ls = foldR f st (concat (map g ls))"
  by (induction ls arbitrary: st) (auto simp: foldR_append intro: bindR_cong)

section \<open>Loops that may not end\<close>

text \<open>
  A loop with no structural bound is a \<open>partial_function (option)\<close> into \<open>'a res option\<close>:
  \<open>None\<close> is a loop that does not return, \<open>Some (Panic p)\<close> one that panics, \<open>Some (Ret a)\<close>
  one that returns \<open>a\<close>. Each comes with a lemma that it returns.
\<close>

definition bindL :: "'a res option \<Rightarrow> ('a \<Rightarrow> 'b res option) \<Rightarrow> 'b res option" where
  "bindL m f = Option.bind m (\<lambda>r. case r of Ret a \<Rightarrow> f a | Panic p \<Rightarrow> Some (Panic p))"

lemma bindL_simps [simp]:
  "bindL (Some (Ret a)) f = f a" "bindL (Some (Panic p)) f = Some (Panic p)" "bindL None f = None"
  by (simp_all add: bindL_def)

lemma bindL_eq_Ret [simp]:
  "bindL m f = Some (Ret b) \<longleftrightarrow> (\<exists>a. m = Some (Ret a) \<and> f a = Some (Ret b))"
  by (cases m) (auto simp: bindL_def split: res.splits)

lemma bindL_mono [partial_function_mono]:
  assumes "mono_option B" and "\<And>y. mono_option (C y)"
  shows "mono_option (\<lambda>f. bindL (B f) (\<lambda>y. C y f))"
  unfolding bindL_def
proof (rule bind_mono [OF assms(1)])
  show "mono_option (\<lambda>f. case r of Ret a \<Rightarrow> C a f | Panic p \<Rightarrow> Some (Panic p))" for r
    using assms(2) by (cases r) (simp_all add: option.const_mono)
qed

text \<open>A \<open>for\<close> loop over such code.\<close>

fun foldL :: "('s \<Rightarrow> 'a \<Rightarrow> 's res option) \<Rightarrow> 's \<Rightarrow> 'a list \<Rightarrow> 's res option" where
  "foldL f s [] = Some (Ret s)"
| "foldL f s (x # xs) = bindL (f s x) (\<lambda>s'. foldL f s' xs)"

lemma foldL_invariant:
  assumes "I s" and "\<And>s x. x \<in> set xs \<Longrightarrow> I s \<Longrightarrow> \<exists>s'. f s x = Some (Ret s') \<and> I s'"
  shows "\<exists>s'. foldL f s xs = Some (Ret s') \<and> I s'"
  using assms
proof (induction xs arbitrary: s)
  case Nil
  then show ?case by simp
next
  case (Cons x xs)
  from Cons.prems obtain t where t: "f s x = Some (Ret t)" "I t" by force
  from Cons.prems have "\<And>s x. x \<in> set xs \<Longrightarrow> I s \<Longrightarrow> \<exists>s'. f s x = Some (Ret s') \<and> I s'" by simp
  from Cons.IH [OF t(2) this] t(1) show ?case by auto
qed

section \<open>Optional collection\<close>

text \<open>\<open>Iterator::try_collect\<close> into an \<open>Option\<close> is the library's \<open>those\<close>.\<close>

lemma those_eq_Some: "those xs = Some ys \<longleftrightarrow> xs = map Some ys"
  by (induction xs arbitrary: ys) (auto split: option.splits simp: Cons_eq_map_conv)

lemma those_map_Some: "those (map (\<lambda>x. Some (f x)) xs) = Some (map f xs)"
  by (induction xs) auto

lemma those_None: "those xs = None \<longleftrightarrow> None \<in> set xs"
  by (induction xs) (auto split: option.splits)

section \<open>Reversed order\<close>

datatype 'a reverse = Reverse (unreverse: 'a)

instantiation reverse :: (linorder) linorder
begin

definition less_eq_reverse :: "'a reverse \<Rightarrow> 'a reverse \<Rightarrow> bool" where
  "x \<le> y \<longleftrightarrow> unreverse y \<le> unreverse x"

definition less_reverse :: "'a reverse \<Rightarrow> 'a reverse \<Rightarrow> bool" where
  "x < y \<longleftrightarrow> unreverse y < unreverse x"

instance
  by standard (auto simp: less_eq_reverse_def less_reverse_def intro: reverse.expand)

end

lemma Reverse_le [simp]: "Reverse a \<le> Reverse b \<longleftrightarrow> b \<le> a"
  by (simp add: less_eq_reverse_def)

lemma Reverse_less [simp]: "Reverse a < Reverse b \<longleftrightarrow> b < a"
  by (simp add: less_reverse_def)

section \<open>Binary heap\<close>

locale max_heap =
  fixes empty :: "'q"
    and push :: "'a :: linorder \<Rightarrow> 'q \<Rightarrow> 'q"
    and pop :: "'q \<Rightarrow> ('a \<times> 'q) option"
    and elems :: "'q \<Rightarrow> 'a multiset"
    and invar :: "'q \<Rightarrow> bool"
  assumes elems_empty: "elems empty = {#}"
    and elems_push: "elems (push x q) = add_mset x (elems q)"
    and pop_None: "pop q = None \<longleftrightarrow> elems q = {#}"
    and pop_elems: "pop q = Some (x, q') \<Longrightarrow> elems q = add_mset x (elems q')"
    and pop_max: "invar q \<Longrightarrow> pop q = Some (x, q') \<Longrightarrow> y \<in># elems q \<Longrightarrow> y \<le> x"
    and invar_empty: "invar empty"
    and invar_push: "invar q \<Longrightarrow> invar (push x q)"
    and invar_pop: "invar q \<Longrightarrow> pop q = Some (x, q') \<Longrightarrow> invar q'"
begin

lemma elems_extend: "elems (fold push xs q) = mset xs + elems q"
  by (induction xs arbitrary: q) (auto simp: elems_push)

lemma invar_extend: "invar q \<Longrightarrow> invar (fold push xs q)"
  by (induction xs arbitrary: q) (auto intro: invar_push)

lemma pop_size: "pop q = Some (x, q') \<Longrightarrow> size (elems q') < size (elems q)"
  by (drule pop_elems) simp

lemma pop_least_loss: "invar q \<Longrightarrow> pop q = Some (x, q') \<Longrightarrow> y \<in># elems q' \<Longrightarrow> y \<le> x"
  by (rule pop_max [of q x q']) (auto dest: pop_elems)

end

fun heap_push :: "'a :: linorder \<Rightarrow> 'a list \<Rightarrow> 'a list" where
  "heap_push x [] = [x]"
| "heap_push x (y # ys) = (if y \<le> x then x # y # ys else y # heap_push x ys)"

fun heap_pop :: "'a list \<Rightarrow> ('a \<times> 'a list) option" where
  "heap_pop [] = None"
| "heap_pop (x # xs) = Some (x, xs)"

definition heap_extend :: "'a :: linorder list \<Rightarrow> 'a list \<Rightarrow> 'a list" where
  "heap_extend xs q = fold heap_push xs q"

definition heap_ok :: "'a :: linorder list \<Rightarrow> bool" where
  "heap_ok q = sorted_wrt (\<ge>) q"

lemma heap_ok_Nil: "heap_ok []"
  by (simp add: heap_ok_def)

lemma mset_heap_push [heap_simps]: "mset (heap_push x q) = add_mset x (mset q)"
  by (induction q) auto

lemma heap_ok_push: "heap_ok q \<Longrightarrow> heap_ok (heap_push x q)"
proof (induction q)
  case (Cons y ys)
  have "set (heap_push x ys) = insert x (set ys)"
    by (metis mset_heap_push set_mset_add_mset_insert set_mset_mset)
  with Cons show ?case by (auto simp: heap_ok_def)
qed (simp add: heap_ok_def)

interpretation heap: max_heap "[]" heap_push heap_pop mset heap_ok
proof (unfold_locales, goal_cases)
  case (4 q x q')
  then show ?case by (cases q) auto
next
  case (5 q x q' y)
  then show ?case by (cases q) (auto simp: heap_ok_def)
next
  case (8 q x q')
  then show ?case by (cases q) (auto simp: heap_ok_def)
qed (auto simp: heap_simps heap_ok_push heap_ok_Nil elim: heap_pop.elims)

lemma mset_heap_extend [heap_simps]: "mset (heap_extend xs q) = mset xs + mset q"
  by (simp add: heap_extend_def heap.elems_extend)

lemma set_heap_extend [heap_simps]: "set (heap_extend xs q) = set xs \<union> set q"
  by (metis mset_heap_extend set_mset_mset set_mset_union)

lemma set_heap_push [heap_simps]: "set (heap_push x q) = insert x (set q)"
  by (metis mset_heap_push set_mset_add_mset_insert set_mset_mset)

lemma heap_ok_extend: "heap_ok q \<Longrightarrow> heap_ok (heap_extend xs q)"
  by (simp add: heap_extend_def heap.invar_extend)

section \<open>Ordered map\<close>

type_synonym ('k, 'v) btree = "('k \<times> 'v) list"

fun bt_insert :: "'k :: linorder \<Rightarrow> 'v \<Rightarrow> ('k, 'v) btree \<Rightarrow> ('k, 'v) btree" where
  "bt_insert k v [] = [(k, v)]"
| "bt_insert k v ((k', v') # m) =
     (if k < k' then (k, v) # (k', v') # m
      else if k = k' then (k, v) # m
      else (k', v') # bt_insert k v m)"

definition bt_remove :: "'k \<Rightarrow> ('k, 'v) btree \<Rightarrow> ('k, 'v) btree" where
  "bt_remove k m = filter (\<lambda>p. fst p \<noteq> k) m"

text \<open>\<open>BTreeMap::entry(k).or_insert(v)\<close> and \<open>BTreeMap::try_insert\<close>.\<close>

definition bt_or_insert :: "'k :: linorder \<Rightarrow> 'v \<Rightarrow> ('k, 'v) btree \<Rightarrow> ('k, 'v) btree" where
  "bt_or_insert k v m = (case map_of m k of None \<Rightarrow> bt_insert k v m | Some _ \<Rightarrow> m)"

definition bt_try_insert ::
    "'k :: linorder \<Rightarrow> 'v \<Rightarrow> ('k, 'v) btree \<Rightarrow> bool \<times> ('k, 'v) btree" where
  "bt_try_insert k v m =
     (case map_of m k of None \<Rightarrow> (True, bt_insert k v m) | Some _ \<Rightarrow> (False, m))"

definition bt_ok :: "('k :: linorder, 'v) btree \<Rightarrow> bool" where
  "bt_ok m = sorted_wrt (<) (map fst m)"

lemma map_of_bt_insert [bt_simps]: "map_of (bt_insert k v m) = (map_of m)(k \<mapsto> v)"
  by (induction m) (auto simp: fun_eq_iff)

lemma map_of_bt_remove [bt_simps]: "map_of (bt_remove k m) = (map_of m)(k := None)"
  by (induction m) (auto simp: fun_eq_iff bt_remove_def)

lemma map_of_bt_or_insert [bt_simps]:
  "map_of (bt_or_insert k v m) j = (if j = k \<and> map_of m k = None then Some v else map_of m j)"
  by (auto simp: bt_or_insert_def bt_simps split: option.split)

lemma keys_bt_insert [bt_simps]: "fst ` set (bt_insert k v m) = insert k (fst ` set m)"
  by (simp add: dom_map_of_conv_image_fst [symmetric] bt_simps)

lemma bt_ok_insert: "bt_ok m \<Longrightarrow> bt_ok (bt_insert k v m)"
proof (induction m)
  case (Cons p m)
  obtain k' v' where p: "p = (k', v')" by force
  have keys: "set (map fst (bt_insert k v m)) = insert k (set (map fst m))"
    by (simp add: keys_bt_insert)
  with Cons p show ?case by (auto simp: bt_ok_def)
qed (simp add: bt_ok_def)

lemma bt_ok_remove: "bt_ok m \<Longrightarrow> bt_ok (bt_remove k m)"
proof (induction m)
  case (Cons p m)
  then show ?case by (auto simp: bt_ok_def bt_remove_def)
qed (simp add: bt_ok_def bt_remove_def)

end
