(* ===== verification/Util.thy ===== *)
theory Util
  imports Prelude
begin

text \<open>
  \<open>ossa-core/src/util.rs\<close>: the power-of-two test that spaces the proposed headers of a sync
  round, and the iterator that compresses the indices a peer is asked for into ranges.

  A \<open>Range<u64>\<close> is its pair of bounds; \<open>expand_ranges\<close> is the \<open>into_iter().flatten()\<close> with
  which both ends turn ranges back into indices.
\<close>

unbundle bit_operations_syntax

section \<open>Powers of two\<close>

definition is_power_of_two :: "u64 \<Rightarrow> bool" where
  "is_power_of_two x \<longleftrightarrow> 0 = (x AND (x - 1))"

section \<open>Compressing consecutive indices\<close>

type_synonym range = "nat \<times> nat"

text \<open>
  One call of \<open>next\<close>: the loop consumes the inner iterator until a run ends. \<open>current\<close> is the
  run being built; the result is the item returned, the new \<open>current\<close> and the rest.
\<close>

fun compress_next ::
    "range option \<Rightarrow> nat list \<Rightarrow> range option \<times> range option \<times> nat list" where
  "compress_next current [] = (current, None, [])"
| "compress_next (Some r) (x # xs) =
     (if snd r = x then compress_next (Some (fst r, x + 1)) xs
      else (Some r, Some (x, x + 1), xs))"
| "compress_next None (x # xs) = compress_next (Some (x, x + 1)) xs"

lemma compress_next_shorter:
  "compress_next c xs = (Some r, c', ys) \<Longrightarrow> (if c' = None then 0 else 1) + length ys \<le> length xs"
  by (induction c xs rule: compress_next.induct) (auto split: if_splits)

lemma compress_next_None: "compress_next c xs = (Some r, None, ys) \<Longrightarrow> ys = []"
  by (induction c xs rule: compress_next.induct) (auto split: if_splits)

text \<open>Collecting the iterator calls \<open>next\<close> until it returns \<open>None\<close>.\<close>

function compress_collect :: "range option \<Rightarrow> nat list \<Rightarrow> range list" where
  "compress_collect c xs =
     (case compress_next c xs of
        (None, _, _) \<Rightarrow> []
      | (Some r, c', ys) \<Rightarrow> r # compress_collect c' ys)"
  by pat_completeness auto
termination
proof (relation "measure (\<lambda>(c, xs). (if c = None then 0 else 1) + 2 * length xs)", goal_cases)
  case (2 c xs p1 p2 r c' ys)
  then have nxt: "compress_next c xs = (Some r, c', ys)" by simp
  show ?case
  proof (cases xs)
    case Nil
    with nxt show ?thesis by auto
  next
    case (Cons a list)
    with compress_next_shorter [OF nxt] nxt show ?thesis
      by (auto dest: compress_next_None)
  qed
qed simp

definition compress_consecutive_into_ranges :: "nat list \<Rightarrow> range list" where
  "compress_consecutive_into_ranges xs = compress_collect None xs"

definition expand_ranges :: "range list \<Rightarrow> nat list" where
  "expand_ranges rs = concat (map (\<lambda>(a, b). [a ..< b]) rs)"

lemmas compress_collect_simps = compress_collect.simps
declare compress_collect.simps [simp del]

section \<open>Correctness\<close>

definition run_of :: "range option \<Rightarrow> nat list" where
  "run_of c = (case c of None \<Rightarrow> [] | Some (a, b) \<Rightarrow> [a ..< b])"

definition run_ok :: "range option \<Rightarrow> bool" where
  "run_ok c = (case c of None \<Rightarrow> True | Some (a, b) \<Rightarrow> a < b)"

lemma compress_next_Some:
  "compress_next c xs = (Some r, c', ys) \<Longrightarrow> run_ok c \<Longrightarrow>
     run_of c @ xs = [fst r ..< snd r] @ run_of c' @ ys \<and> run_ok c' \<and> fst r < snd r"
  by (induction c xs rule: compress_next.induct)
    (auto simp: run_of_def run_ok_def split: if_splits option.splits)

lemma compress_next_done:
  "compress_next c xs = (None, c', ys) \<Longrightarrow> c = None \<and> xs = []"
  by (induction c xs rule: compress_next.induct) (auto split: if_splits)

lemma expand_ranges_Nil [simp]: "expand_ranges [] = []"
  by (simp add: expand_ranges_def)

lemma expand_ranges_Cons [simp]: "expand_ranges (r # rs) = [fst r ..< snd r] @ expand_ranges rs"
  by (simp add: expand_ranges_def split: prod.split)

lemma compress_collect_expand:
  "run_ok c \<Longrightarrow> expand_ranges (compress_collect c xs) = run_of c @ xs"
proof (induction c xs rule: compress_collect.induct)
  case (1 c xs)
  obtain o1 c' ys where nxt: "compress_next c xs = (o1, c', ys)" by (cases "compress_next c xs") auto
  show ?case
  proof (cases o1)
    case None
    with nxt compress_next_done [of c xs c' ys] show ?thesis
      by (simp add: compress_collect_simps [of None "[]"] run_of_def)
  next
    case (Some r)
    with nxt have step: "compress_next c xs = (Some r, c', ys)" by simp
    from compress_next_Some [OF step "1.prems"] "1.IH" [OF step [symmetric] refl refl] step
    show ?thesis by (simp add: compress_collect_simps [of c xs])
  qed
qed

lemma expand_compressed: "expand_ranges (compress_consecutive_into_ranges xs) = xs"
  by (simp add: compress_consecutive_into_ranges_def compress_collect_expand run_ok_def run_of_def)

text \<open>Compressing the indices a peer is asked for and expanding the ranges again gives back
  the same indices in the same order, so the answers that come back are matched with the
  indices they answer.\<close>

theorem expand_compress: "expand_ranges (compress_consecutive_into_ranges xs) = xs"
  by (rule expand_compressed)

end
