(* ===== verification/Merkle.thy ===== *)
theory Merkle
  imports Util
begin

text \<open>
  \<open>ossa-core/src/util/merkle_tree.rs\<close>: the binary Merkle tree over the blocks of a store's
  initial state, flattened in breadth-first order with the root at index 0, and the partial
  tree that a downloading store fills from its peers.

  A hash function is the trait \<open>util::Hash\<close>, a record of its functions; SHA-256 itself is
  third-party code, so every definition takes that record as an argument. Panics are outcomes
  of \<open>res\<close>.
\<close>

section \<open>The hash trait\<close>

record ('s, 'h) hash_ops =
  hash_new :: "'s"
  hash_update :: "'s \<Rightarrow> bytes \<Rightarrow> 's"
  hash_finalize :: "'s \<Rightarrow> 'h"
  hash_bytes :: "'h \<Rightarrow> bytes"

definition hash_chunk :: "('s, 'h) hash_ops \<Rightarrow> bytes \<Rightarrow> 'h" where
  "hash_chunk K c = (let h = hash_new K; h = hash_update K h c in hash_finalize K h)"

definition hash_pair :: "('s, 'h) hash_ops \<Rightarrow> 'h \<Rightarrow> 'h \<Rightarrow> 'h" where
  "hash_pair K left right =
     (let h = hash_new K;
          h = hash_update K h (hash_bytes K left);
          h = hash_update K h (hash_bytes K right)
      in hash_finalize K h)"

section \<open>Shape\<close>

record 'n merkle_tree =
  nodes :: "'n list"

definition node_count_for_leaf_count :: "nat \<Rightarrow> nat res" where
  "node_count_for_leaf_count leaf_count = bindR (mul_u64 2 leaf_count) (\<lambda>d. sub_u64 d 1)"

definition is_leaf :: "nat \<Rightarrow> nat \<Rightarrow> bool res" where
  "is_leaf leaf_count i = bindR (sub_u64 leaf_count 1) (\<lambda>m. Ret (m \<le> i))"

text \<open>\<open>n.next_power_of_two().ilog2()\<close>: the least \<open>k\<close> with \<open>n \<le> 2 ^ k\<close>.\<close>

fun log2_ceil :: "nat \<Rightarrow> nat" where
  "log2_ceil n = (if n \<le> 1 then 0 else Suc (log2_ceil ((n + 1) div 2)))"

declare log2_ceil.simps [simp del]

section \<open>Building a tree from its leaves\<close>

text \<open>
  The state of the two nested loops is the node array under construction and the iterator
  over the leaves. One iteration fills index \<open>i\<close>.
\<close>

definition fill_node ::
    "('s, 'h) hash_ops \<Rightarrow> nat \<Rightarrow> 'h option list \<times> 'h list \<Rightarrow> nat \<Rightarrow> ('h option list \<times> 'h list) res" where
  "fill_node K leaf_count st i =
     (case st of (ns, leaves) \<Rightarrow>
        bindR (is_leaf leaf_count i) (\<lambda>leaf.
        if leaf then
          (case leaves of
             [] \<Rightarrow> Panic UnwrapNone
           | h # rest \<Rightarrow> bindR (store_at ns i (Some h)) (\<lambda>ns'. Ret (ns', rest)))
        else
          bindR (index ns (2 * i + 1)) (\<lambda>l. bindR (unwrap l) (\<lambda>left.
          bindR (index ns (2 * i + 2)) (\<lambda>r. bindR (unwrap r) (\<lambda>right.
          bindR (store_at ns i (Some (hash_pair K left right))) (\<lambda>ns'. Ret (ns', leaves))))))))"

definition fill_layer ::
    "('s, 'h) hash_ops \<Rightarrow> nat \<Rightarrow> nat \<Rightarrow> 'h option list \<times> 'h list \<Rightarrow> nat \<Rightarrow> ('h option list \<times> 'h list) res" where
  "fill_layer K leaf_count capacity st layer =
     foldR (fill_node K leaf_count) st [2 ^ layer - 1 ..< min (2 ^ (layer + 1) - 1) capacity]"

definition from_leaves :: "('s, 'h) hash_ops \<Rightarrow> 'h list \<Rightarrow> 'h merkle_tree res" where
  "from_leaves K leaves =
     (if leaves = [] then Panic ExplicitPanic
      else
        let leaf_count = length leaves in
        bindR (node_count_for_leaf_count leaf_count) (\<lambda>capacity.
        let bottom_layer = log2_ceil leaf_count + 1 in
        bindR (foldR (fill_layer K leaf_count capacity) (replicate capacity None, leaves)
                 (rev [0 ..< bottom_layer])) (\<lambda>st.
        case those (fst st) of
          None \<Rightarrow> Panic Unreachable
        | Some ns \<Rightarrow> Ret \<lparr>nodes = ns\<rparr>)))"

definition from_chunks :: "('s, 'h) hash_ops \<Rightarrow> bytes list \<Rightarrow> 'h merkle_tree res" where
  "from_chunks K chunks =
     (let leaves = map (hash_chunk K) chunks in
      if leaves = [] then from_leaves K (map (hash_chunk K) [[]]) else from_leaves K leaves)"

section \<open>Reading a tree\<close>

definition merkle_root :: "'h merkle_tree \<Rightarrow> 'h res" where
  "merkle_root t = index (nodes t) 0"

definition merkle_get :: "'h merkle_tree \<Rightarrow> nat \<Rightarrow> 'h option" where
  "merkle_get t i = (if i < length (nodes t) then Some (nodes t ! i) else None)"

definition leaf_count :: "'n merkle_tree \<Rightarrow> nat" where
  "leaf_count t = (length (nodes t) + 1) div 2"

definition index_for_leaf :: "'n merkle_tree \<Rightarrow> nat \<Rightarrow> nat res" where
  "index_for_leaf t leaf_index =
     (let n = leaf_count t in
      if \<not> leaf_index < n then Panic AssertFailed
      else
        let start = 2 ^ log2_ceil n - 1; i = start + leaf_index in
        if length (nodes t) \<le> i then sub_u64 i n else Ret i)"

definition validate_chunk :: "('s, 'h) hash_ops \<Rightarrow> 'h merkle_tree \<Rightarrow> nat \<Rightarrow> bytes \<Rightarrow> bool res" where
  "validate_chunk K t leaf_index chunk =
     bindR (index_for_leaf t leaf_index) (\<lambda>i.
     bindR (index (nodes t) i) (\<lambda>expected_hash.
     Ret (expected_hash = hash_chunk K chunk)))"

section \<open>The partial tree of a download\<close>

datatype 'h potential = PNone | Unverified 'h | Verified 'h

fun is_none :: "'h potential \<Rightarrow> bool" where
  "is_none PNone = True"
| "is_none _ = False"

definition new_with_capacity :: "'h \<Rightarrow> nat \<Rightarrow> 'h potential merkle_tree res" where
  "new_with_capacity root n =
     bindR (node_count_for_leaf_count n) (\<lambda>m.
     bindR (store_at (replicate m PNone) 0 (Verified root)) (\<lambda>ns. Ret \<lparr>nodes = ns\<rparr>))"

definition missing_indices :: "'h potential merkle_tree \<Rightarrow> nat list" where
  "missing_indices t = [i \<leftarrow> [0 ..< length (nodes t)]. is_none (nodes t ! i)]"

text \<open>
  \<open>validate_children\<close>: compare two unverified siblings with their verified parent, then go
  down into both. The recursion threads the node array through both calls.
\<close>

partial_function (option) validate_children ::
    "('s, 'h) hash_ops \<Rightarrow> 'h potential list \<Rightarrow> nat \<Rightarrow> (bool option \<times> 'h potential list) res option" where
  "validate_children K ns i =
     bindL (Some (is_leaf ((length ns + 1) div 2) i)) (\<lambda>leaf.
     if leaf then Some (Ret (None, ns))
     else
       bindL (Some (index ns i)) (\<lambda>node.
       case node of
         Verified expected_hash \<Rightarrow>
           bindL (Some (index ns (2 * i + 1))) (\<lambda>l.
           bindL (Some (index ns (2 * i + 2))) (\<lambda>r.
           case (l, r) of
             (PNone, _) \<Rightarrow> Some (Ret (None, ns))
           | (_, PNone) \<Rightarrow> Some (Ret (None, ns))
           | (Unverified left, Unverified right) \<Rightarrow>
               (if expected_hash = hash_pair K left right then
                  bindL (validate_children K
                           (ns[2 * i + 1 := Verified left, 2 * i + 2 := Verified right]) (2 * i + 1)) (\<lambda>p1.
                  bindL (validate_children K (snd p1) (2 * i + 2)) (\<lambda>p2.
                  Some (Ret (Some True, snd p2))))
                else Some (Ret (Some False, ns[2 * i + 1 := PNone, 2 * i + 2 := PNone])))
           | _ \<Rightarrow> Some (Panic Unreachable)))
       | _ \<Rightarrow> Some (Ret (None, ns))))"

declare validate_children.simps [code]

definition set_node ::
    "('s, 'h) hash_ops \<Rightarrow> 'h potential merkle_tree \<Rightarrow> nat \<Rightarrow> 'h
     \<Rightarrow> (bool \<times> 'h potential merkle_tree) res option" where
  "set_node K t i v =
     (if \<not> i < length (nodes t) then Some (Ret (False, t))
      else case nodes t ! i of
        PNone \<Rightarrow>
          (let ns = (nodes t)[i := Unverified v] in
           if i = 0 then Some (Panic Unreachable)
           else
             bindL (validate_children K ns ((i - 1) div 2)) (\<lambda>p.
             Some (Ret ((case fst p of Some b \<Rightarrow> b | None \<Rightarrow> True), \<lparr>nodes = snd p\<rparr>))))
      | Unverified _ \<Rightarrow> Some (Ret (True, t))
      | Verified prev \<Rightarrow> Some (Ret (prev = v, t)))"

definition try_complete :: "'h potential merkle_tree \<Rightarrow> 'h merkle_tree option" where
  "try_complete t =
     map_option (\<lambda>ns. \<lparr>nodes = ns\<rparr>)
       (those (map (\<lambda>n. case n of Verified v \<Rightarrow> Some v | _ \<Rightarrow> None) (nodes t)))"

section \<open>Shape arithmetic\<close>

lemma log2_ceil_upper: "n \<le> 2 ^ log2_ceil n"
proof (induction n rule: log2_ceil.induct)
  case (1 n)
  show ?case
  proof (cases "n \<le> 1")
    case True
    then show ?thesis by (simp add: log2_ceil.simps [of n])
  next
    case False
    with 1 have "(n + 1) div 2 \<le> 2 ^ log2_ceil ((n + 1) div 2)" by simp
    with False show ?thesis by (simp add: log2_ceil.simps [of n])
  qed
qed

lemma log2_ceil_pos: "1 < n \<Longrightarrow> 0 < log2_ceil n"
  by (simp add: log2_ceil.simps [of n])

lemma log2_ceil_lower: "1 < n \<Longrightarrow> 2 ^ (log2_ceil n - 1) < n"
proof (induction n rule: log2_ceil.induct)
  case (1 n)
  show ?case
  proof (cases "n = 2")
    case True
    then show ?thesis by (simp add: log2_ceil.simps)
  next
    case False
    with "1.prems" have "1 < (n + 1) div 2" by simp
    with 1 have "2 ^ (log2_ceil ((n + 1) div 2) - 1) < (n + 1) div 2" by simp
    moreover from log2_ceil_pos [OF \<open>1 < (n + 1) div 2\<close>] have "(2::nat) ^ log2_ceil ((n + 1) div 2) = 2 * 2 ^ (log2_ceil ((n + 1) div 2) - 1)"
      by (simp flip: power_Suc)
    ultimately have "2 ^ log2_ceil ((n + 1) div 2) < n" by simp
    with "1.prems" show ?thesis by (simp add: log2_ceil.simps [of n])
  qed
qed

text \<open>The order in which the two loops visit the indices: layers from the bottom up.\<close>

definition layer :: "nat \<Rightarrow> nat \<Rightarrow> nat list" where
  "layer cap l = [2 ^ l - 1 ..< min (2 ^ (l + 1) - 1) cap]"

definition visit_order :: "nat \<Rightarrow> nat \<Rightarrow> nat list" where
  "visit_order cap m = concat (map (layer cap) (rev [0 ..< m]))"

lemma visit_order_0 [simp]: "visit_order cap 0 = []"
  by (simp add: visit_order_def)

lemma visit_order_Suc [simp]: "visit_order cap (Suc m) = layer cap m @ visit_order cap m"
  by (simp add: visit_order_def)

lemma set_layer: "set (layer cap l) = {2 ^ l - 1 ..< min (2 ^ (l + 1) - 1) cap}"
  by (simp add: layer_def)

lemma set_visit_order: "set (visit_order cap m) = {..< min (2 ^ m - 1) cap}"
proof (induction m)
  case (Suc m)
  have join: "{p - 1 ..< min (2 * p - 1) cap} \<union> {..< min (p - 1) cap} = {..< min (2 * p - 1) cap}"
    if "0 < p" for p :: nat
    using that by (auto simp: min_def)
  from join [of "2 ^ m"] Suc show ?case by (simp add: set_layer)
qed simp

lemma distinct_visit_order: "distinct (visit_order cap m)"
  by (induction m) (auto simp: set_visit_order set_layer layer_def)

text \<open>Every visited index is followed by smaller indices than its children.\<close>

lemma visit_order_children: "sorted_wrt (\<lambda>a b. b < 2 * a + 1) (visit_order cap m)"
proof (induction m)
  case (Suc m)
  have below: "b < 2 * a + 1" if "a \<in> set (layer cap m)" "b < 2 ^ Suc m - 1" for a b
    using that by (auto simp: set_layer)
  then have "sorted_wrt (\<lambda>a b. b < 2 * a + 1) (layer cap m)"
    by (intro sorted_wrt_mono_rel [OF _ sorted_wrt_upt [of "2 ^ m - 1" "min (2 ^ (m + 1) - 1) cap",
          folded layer_def]]) (auto simp: set_layer)
  moreover have "b < 2 ^ Suc m - 1" if "b \<in> set (visit_order cap m)" for b
  proof -
    from that have "b < 2 ^ m - 1" by (simp add: set_visit_order)
    also have "\<dots> \<le> (2::nat) ^ Suc m - 1" by (simp add: diff_le_mono)
    finally show ?thesis .
  qed
  ultimately show ?case using Suc below by (auto simp: sorted_wrt_append)
qed simp

text \<open>The leaves, in the order the iterator hands them out.\<close>

definition leaf_positions :: "nat \<Rightarrow> nat list" where
  "leaf_positions n = [2 ^ log2_ceil n - 1 ..< 2 * n - 1] @ [n - 1 ..< 2 ^ log2_ceil n - 1]"

lemma filter_upt_ge: "filter (\<lambda>i. a \<le> i) [b ..< c] = [max a b ..< c]"
  by (induction c) (auto simp: max_def)

lemma visit_order_leaves:
  assumes "0 < n"
  shows "filter (\<lambda>i. n - 1 \<le> i) (visit_order (2 * n - 1) (Suc (log2_ceil n))) = leaf_positions n"
proof -
  let ?L = "log2_ceil n"
  have up: "n \<le> 2 ^ ?L" by (rule log2_ceil_upper)
  then have "n - 1 \<le> 2 ^ ?L - 1" "2 * n - 1 \<le> 2 ^ (?L + 1) - 1" by simp_all
  then have bottom: "filter (\<lambda>i. n - 1 \<le> i) (layer (2 * n - 1) ?L) = [2 ^ ?L - 1 ..< 2 * n - 1]"
    by (simp add: layer_def filter_upt_ge max_def min_def)
  have rest: "filter (\<lambda>i. n - 1 \<le> i) (visit_order (2 * n - 1) ?L) = [n - 1 ..< 2 ^ ?L - 1]"
  proof (cases ?L)
    case 0
    with up show ?thesis by simp
  next
    case (Suc l)
    then have "1 < n" by (cases "n \<le> 1") (auto simp: log2_ceil.simps)
    from log2_ceil_lower [OF this] Suc have low: "2 ^ l < n" by simp
    have "filter (\<lambda>i. n - 1 \<le> i) (visit_order (2 * n - 1) l) = []"
      using low by (auto simp: filter_empty_conv set_visit_order)
    moreover from low have "filter (\<lambda>i. n - 1 \<le> i) (layer (2 * n - 1) l) = [n - 1 ..< 2 ^ Suc l - 1]"
      by (auto simp: layer_def filter_upt_ge max_def min_def)
    ultimately show ?thesis using Suc by simp
  qed
  from bottom rest show ?thesis by (simp add: leaf_positions_def)
qed

lemma length_leaf_positions:
  assumes "0 < n"
  shows "length (leaf_positions n) = n"
proof (cases "n = 1")
  case True
  then show ?thesis by (simp add: leaf_positions_def log2_ceil.simps)
next
  case False
  with assms have n: "1 < n" by simp
  define p where "p = (2::nat) ^ (log2_ceil n - 1)"
  from log2_ceil_pos [OF n] have "(2::nat) ^ log2_ceil n = 2 * p"
    by (simp add: p_def flip: power_Suc)
  moreover from log2_ceil_lower [OF n] have "p < n" by (simp only: p_def)
  moreover from log2_ceil_upper [of n] calculation have "n \<le> 2 * p" by simp
  ultimately show ?thesis by (simp add: leaf_positions_def)
qed


lemma leaf_positions_range:
  assumes n: "0 < n" and k: "k < n"
  shows "n - 1 \<le> leaf_positions n ! k \<and> leaf_positions n ! k < 2 * n - 1"
proof -
  have "leaf_positions n ! k \<in> set (leaf_positions n)"
    using k by (simp add: length_leaf_positions [OF n])
  then show ?thesis
    unfolding visit_order_leaves [OF n, symmetric]
    by (auto simp: set_visit_order simp del: visit_order_Suc)
qed

section \<open>The loops fill the array\<close>

text \<open>
  What holds after the indices \<open>done\<close> were visited: exactly they are filled, the leaves went
  in order to the leaf indices among them, and a branch holds the hash of its children.
\<close>

definition filled_by ::
    "('s, 'h) hash_ops \<Rightarrow> 'h list \<Rightarrow> nat list \<Rightarrow> 'h option list \<times> 'h list \<Rightarrow> bool" where
  "filled_by K leaves done st \<longleftrightarrow>
     (let n = length leaves; ls = filter (\<lambda>i. n - 1 \<le> i) done; ns = fst st in
      length ns = 2 * n - 1 \<and> snd st = drop (length ls) leaves \<and>
      (\<forall>i < 2 * n - 1. ns ! i \<noteq> None \<longleftrightarrow> i \<in> set done) \<and>
      (\<forall>j < length ls. ns ! (ls ! j) = Some (leaves ! j)) \<and>
      (\<forall>i \<in> set done. i < n - 1 \<longrightarrow>
         (\<exists>a b. ns ! (2 * i + 1) = Some a \<and> ns ! (2 * i + 2) = Some b \<and>
                ns ! i = Some (hash_pair K a b))))"

lemma is_leaf_Ret [simp]: "0 < n \<Longrightarrow> is_leaf n i = Ret (n - 1 \<le> i)"
  by (simp add: is_leaf_def sub_u64_def)

lemma filled_byD:
  assumes "filled_by K leaves done (ns, rest)"
  defines "ls \<equiv> filter (\<lambda>i. length leaves - 1 \<le> i) done"
  shows "length ns = 2 * length leaves - 1" and "rest = drop (length ls) leaves"
    and "i < 2 * length leaves - 1 \<Longrightarrow> ns ! i \<noteq> None \<longleftrightarrow> i \<in> set done"
    and "j < length ls \<Longrightarrow> ns ! (ls ! j) = Some (leaves ! j)"
    and "i \<in> set done \<Longrightarrow> i < length leaves - 1 \<Longrightarrow>
      \<exists>a b. ns ! (2 * i + 1) = Some a \<and> ns ! (2 * i + 2) = Some b \<and> ns ! i = Some (hash_pair K a b)"
  using assms(1) unfolding filled_by_def ls_def by (auto simp: Let_def)

text \<open>The array after one more index\<close>

lemma filled_by_snoc:
  assumes inv: "filled_by K leaves done (ns, rest)" and x: "x < 2 * length leaves - 1" "x \<notin> set done"
    and rest': "rest' = drop (length (filter (\<lambda>i. length leaves - 1 \<le> i) (done @ [x]))) leaves"
    and leaf: "length leaves - 1 \<le> x \<Longrightarrow> y = leaves ! length (filter (\<lambda>i. length leaves - 1 \<le> i) done)"
    and branch: "x < length leaves - 1 \<Longrightarrow> 2 * x + 1 \<in> set done \<and> 2 * x + 2 \<in> set done \<and>
      (\<exists>a b. ns ! (2 * x + 1) = Some a \<and> ns ! (2 * x + 2) = Some b \<and> y = hash_pair K a b)"
  shows "filled_by K leaves (done @ [x]) (ns[x := Some y], rest')"
proof -
  let ?ls = "filter (\<lambda>i. length leaves - 1 \<le> i) done"
  note D = filled_byD [OF inv]
  have old: "ns[x := y] ! i = ns ! i" if "i \<in> set done" for i y
    using that x by (metis nth_list_update_neq)
  have lsin: "?ls ! j \<in> set done" if "j < length ?ls" for j
    using nth_mem [OF that] by auto
  have inside: "2 * i + 1 \<in> set done \<and> 2 * i + 2 \<in> set done" if "i \<in> set done" "i < length leaves - 1" for i
    using D(5) [OF that] D(3) [of "2 * i + 1"] D(3) [of "2 * i + 2"] that(2) by auto
  show ?thesis
    unfolding filled_by_def Let_def fst_conv snd_conv
  proof (intro conjI allI impI ballI)
    show "length (ns[x := Some y]) = 2 * length leaves - 1" using D(1) by simp
    show "rest' = drop (length (filter (\<lambda>i. length leaves - 1 \<le> i) (done @ [x]))) leaves" by (rule rest')
  next
    fix i assume "i < 2 * length leaves - 1"
    then show "(ns[x := Some y] ! i \<noteq> None) = (i \<in> set (done @ [x]))"
      using D(3) [of i] D(1) by (cases "i = x") auto
  next
    fix j assume j: "j < length (filter (\<lambda>i. length leaves - 1 \<le> i) (done @ [x]))"
    show "ns[x := Some y] ! (filter (\<lambda>i. length leaves - 1 \<le> i) (done @ [x]) ! j) = Some (leaves ! j)"
      using j leaf D(4) lsin old D(1) x
      by (cases "j < length ?ls") (auto simp: nth_append less_Suc_eq split: if_splits)
  next
    fix i assume i: "i \<in> set (done @ [x])" "i < length leaves - 1"
    show "\<exists>a b. ns[x := Some y] ! (2 * i + 1) = Some a \<and> ns[x := Some y] ! (2 * i + 2) = Some b \<and>
           ns[x := Some y] ! i = Some (hash_pair K a b)"
    proof (cases "i = x")
      case True
      with i branch old D(1) x show ?thesis by auto
    next
      case False
      with i have "i \<in> set done" by simp
      from D(5) [OF this i(2)] inside [OF this i(2)] old this show ?thesis by auto
    qed
  qed
qed

lemma fill_node_step:
  assumes inv: "filled_by K leaves done st"
    and new: "x < cap" "x \<notin> set done" "distinct done" "set done \<subseteq> {..< cap}"
    and cap: "cap = 2 * length leaves - 1"
    and room: "length (filter (\<lambda>i. length leaves - 1 \<le> i) (done @ [x])) \<le> length leaves"
    and children: "x < length leaves - 1 \<Longrightarrow> {2 * x + 1, 2 * x + 2} \<subseteq> set done"
    and ne: "leaves \<noteq> []"
  shows "\<exists>st'. fill_node K (length leaves) st x = Ret st' \<and> filled_by K leaves (done @ [x]) st'"
proof -
  obtain ns rest where st: "st = (ns, rest)" by force
  let ?ls = "filter (\<lambda>i. length leaves - 1 \<le> i) done"
  note D = filled_byD [OF inv [unfolded st]]
  note keep = filled_by_snoc [OF inv [unfolded st], of x, OF new(1) [unfolded cap] new(2)]
  show ?thesis
  proof (cases "length leaves - 1 \<le> x")
    case True
    with room have less: "length ?ls < length leaves" by simp
    then have "rest = leaves ! length ?ls # drop (Suc (length ?ls)) leaves"
      by (simp add: D(2) Cons_nth_drop_Suc)
    then have step: "fill_node K (length leaves) st x =
        Ret (ns[x := Some (leaves ! length ?ls)], drop (Suc (length ?ls)) leaves)"
      using True ne new D(1) cap by (simp add: fill_node_def st)
    have "filled_by K leaves (done @ [x])
        (ns[x := Some (leaves ! length ?ls)], drop (Suc (length ?ls)) leaves)"
      by (rule keep) (use True in auto)
    with step show ?thesis by blast
  next
    case False
    then have c: "{2 * x + 1, 2 * x + 2} \<subseteq> set done" using children by simp
    then have lt: "2 * x + 1 < length ns" "2 * x + 2 < length ns" using new(4) D(1) cap by auto
    then obtain a b where ab: "ns ! (2 * x + 1) = Some a" "ns ! (2 * x + 2) = Some b"
      using D(3) [of "2 * x + 1"] D(3) [of "2 * x + 2"] c D(1) by auto
    have step: "fill_node K (length leaves) st x = Ret (ns[x := Some (hash_pair K a b)], rest)"
      using False ne new lt ab D(1) cap by (simp add: fill_node_def st)
    have "filled_by K leaves (done @ [x]) (ns[x := Some (hash_pair K a b)], rest)"
      by (rule keep) (use False c ab D(2) in auto)
    with step show ?thesis by blast
  qed
qed

lemma fill_all:
  assumes ne: "leaves \<noteq> []" and cap: "cap = 2 * length leaves - 1"
    and order: "distinct order" "set order \<subseteq> {..< cap}"
    and leaves: "length (filter (\<lambda>i. length leaves - 1 \<le> i) order) = length leaves"
    and children: "\<And>p x s. order = p @ x # s \<Longrightarrow> x < length leaves - 1 \<Longrightarrow>
                      {2 * x + 1, 2 * x + 2} \<subseteq> set p"
  shows "order = done @ todo \<Longrightarrow>
    \<exists>st. foldR (fill_node K (length leaves)) (replicate cap None, leaves) done = Ret st \<and>
         filled_by K leaves done st"
proof (induction "done" arbitrary: todo rule: rev_induct)
  case Nil
  show ?case by (auto simp: filled_by_def cap)
next
  case (snoc x xs)
  from snoc.IH [of "x # todo"] snoc.prems obtain st where
    st: "foldR (fill_node K (length leaves)) (replicate cap None, leaves) xs = Ret st"
      "filled_by K leaves xs st" by auto
  have "length (filter (\<lambda>i. length leaves - 1 \<le> i) (xs @ [x])) \<le> length leaves"
    using leaves snoc.prems by (simp split: if_splits)
  with fill_node_step [OF st(2), of x cap] snoc.prems order ne cap children [of xs x todo]
  obtain st' where "fill_node K (length leaves) st x = Ret st'" "filled_by K leaves (xs @ [x]) st'"
    by auto
  with st show ?case by (auto simp: foldR_append)
qed

section \<open>The tree that is built\<close>

text \<open>
  A tree over \<open>leaves\<close>: the leaves at their positions, every branch the hash of its children.
\<close>

definition branches_ok :: "('s, 'h) hash_ops \<Rightarrow> 'h list \<Rightarrow> bool" where
  "branches_ok K ns \<longleftrightarrow>
     (\<forall>i < (length ns + 1) div 2 - 1. ns ! i = hash_pair K (ns ! (2 * i + 1)) (ns ! (2 * i + 2)))"

definition tree_over :: "('s, 'h) hash_ops \<Rightarrow> 'h list \<Rightarrow> 'h merkle_tree \<Rightarrow> bool" where
  "tree_over K leaves t \<longleftrightarrow>
     length (nodes t) = 2 * length leaves - 1 \<and> branches_ok K (nodes t) \<and>
     (\<forall>k < length leaves. nodes t ! (leaf_positions (length leaves) ! k) = leaves ! k)"

lemma visit_order_children_first:
  assumes "visit_order cap m = p @ x # s" "2 * x + 2 < cap" "2 * x + 2 < 2 ^ m - 1"
  shows "{2 * x + 1, 2 * x + 2} \<subseteq> set p"
proof -
  have sorted: "sorted_wrt (\<lambda>a b. b < 2 * a + 1) (p @ x # s)"
    using visit_order_children [of cap m] assms(1) by simp
  have "{2 * x + 1, 2 * x + 2} \<subseteq> set (visit_order cap m)"
    using assms(2,3) by (simp add: set_visit_order)
  moreover have "y \<notin> set (x # s)" if "y = 2 * x + 1 \<or> y = 2 * x + 2" for y
    using sorted that by (auto simp: sorted_wrt_append)
  ultimately show ?thesis using assms(1) by auto
qed

text \<open>An array filled in the order of the loops is a tree.\<close>

lemma filled_tree:
  assumes inv: "filled_by K leaves order (map Some vs, rest)" and n: "0 < length leaves"
    and set: "set order = {..< 2 * length leaves - 1}"
    and leaf: "filter (\<lambda>i. length leaves - 1 \<le> i) order = leaf_positions (length leaves)"
  shows "tree_over K leaves \<lparr>nodes = vs\<rparr>"
  unfolding tree_over_def branches_ok_def merkle_tree.select_convs
proof (intro conjI allI impI)
  note D = filled_byD [OF inv, unfolded leaf length_leaf_positions [OF n]]
  show len: "length vs = 2 * length leaves - 1" using D(1) by simp
  fix i assume "i < (length vs + 1) div 2 - 1"
  then have i: "i < length leaves - 1" using len by simp
  then have "i \<in> set order" unfolding set by simp
  from D(5) [OF this i] i len show "vs ! i = hash_pair K (vs ! (2 * i + 1)) (vs ! (2 * i + 2))" by auto
next
  note D = filled_byD [OF inv, unfolded leaf length_leaf_positions [OF n]]
  fix k assume k: "k < length leaves"
  then have "leaf_positions (length leaves) ! k < length vs" using leaf_positions_range [OF n k] D(1) by simp
  with D(4) [OF k] show "vs ! (leaf_positions (length leaves) ! k) = leaves ! k" by simp
qed

lemma from_leaves_tree:
  assumes ne: "leaves \<noteq> []" and small: "2 * length leaves \<le> u64_max"
  shows "\<exists>t. from_leaves K leaves = Ret t \<and> tree_over K leaves t"
proof -
  let ?n = "length leaves" let ?cap = "2 * ?n - 1" let ?m = "Suc (log2_ceil ?n)"
  let ?order = "visit_order ?cap ?m"
  have n: "0 < ?n" using ne by simp
  have up: "?n \<le> 2 ^ log2_ceil ?n" by (rule log2_ceil_upper)
  have set: "set ?order = {..< ?cap}" using up by (subst set_visit_order) (simp add: min_def, linarith)
  have "\<exists>st. foldR (fill_node K ?n) (replicate ?cap None, leaves) ?order = Ret st \<and>
         filled_by K leaves ?order st"
  proof (rule fill_all [OF ne refl distinct_visit_order])
    show "set ?order \<subseteq> {..< ?cap}" by (simp only: set)
    show "length (filter (\<lambda>i. ?n - 1 \<le> i) ?order) = ?n"
      using n by (simp only: visit_order_leaves length_leaf_positions)
  next
    fix p x s assume "?order = p @ x # s" "x < ?n - 1"
    with up show "{2 * x + 1, 2 * x + 2} \<subseteq> set p"
      by (intro visit_order_children_first [of ?cap ?m]) auto
  qed simp
  then obtain ns rest where
    fold: "foldR (fill_node K ?n) (replicate ?cap None, leaves) ?order = Ret (ns, rest)"
    and inv: "filled_by K leaves ?order (ns, rest)" by force
  have "None \<notin> set ns" using filled_byD(1,3) [OF inv] set by (metis in_set_conv_nth lessThan_iff)
  then obtain vs where vs: "ns = map Some vs"
    by (metis those_eq_Some those_None not_None_eq)
  have "from_leaves K leaves = Ret \<lparr>nodes = vs\<rparr>"
    using fold ne small n Suc_leI [OF n]
    by (simp add: from_leaves_def node_count_for_leaf_count_def mul_u64_def sub_u64_def
        fill_layer_def [abs_def] foldR_concat visit_order_def layer_def [abs_def] Let_def vs
        those_eq_Some [THEN iffD2] del: upt_Suc)
  with filled_tree [OF inv [unfolded vs] n set visit_order_leaves [OF n]] show ?thesis by blast
qed

section \<open>Checking chunks\<close>


text \<open>\<open>index_for_leaf\<close> finds the position the iterator gave the leaf.\<close>

lemma index_for_leaf_position:
  assumes len: "length (nodes t) = 2 * n - 1" and n: "0 < n" and k: "k < n"
  shows "index_for_leaf t k = Ret (leaf_positions n ! k)"
proof -
  have lc: "leaf_count t = n" using len n by (simp add: leaf_count_def)
  define q where "q = (2::nat) ^ log2_ceil n - 1"
  have up: "n \<le> q + 1" using log2_ceil_upper [of n] by (simp add: q_def)
  have low: "q < 2 * n - 1"
  proof (cases "n = 1")
    case True
    then show ?thesis by (simp add: q_def log2_ceil.simps)
  next
    case False
    with n have n1: "1 < n" by simp
    from log2_ceil_pos [OF n1] have "(2::nat) ^ log2_ceil n = 2 * 2 ^ (log2_ceil n - 1)"
      by (simp flip: power_Suc)
    with log2_ceil_lower [OF n1] show ?thesis by (simp add: q_def)
  qed
  have pos: "leaf_positions n = [q ..< 2 * n - 1] @ [n - 1 ..< q]"
    by (simp add: leaf_positions_def q_def)
  have idx: "index_for_leaf t k = (if 2 * n - 1 \<le> q + k then sub_u64 (q + k) n else Ret (q + k))"
    using k by (simp add: index_for_leaf_def lc Let_def len q_def)
  show ?thesis
  proof (cases "2 * n - 1 \<le> q + k")
    case True
    then have "n \<le> q + k" using n by simp
    moreover have "[n - 1 ..< q] ! (k - (2 * n - 1 - q)) = q + k - n"
      using True low up k by (subst nth_upt) linarith+
    moreover have "\<not> k < 2 * n - 1 - q" using True by linarith
    ultimately show ?thesis using True
      by (simp only: idx pos nth_append sub_u64_def length_upt if_True if_False)
  next
    case False
    moreover have "[q ..< 2 * n - 1] ! k = q + k" "k < 2 * n - 1 - q" using False by auto
    ultimately show ?thesis
      by (simp only: idx pos nth_append length_upt if_True if_False)
  qed
qed

lemma tree_over_nonempty: "tree_over K leaves t \<Longrightarrow> leaves \<noteq> [] \<Longrightarrow> merkle_root t = Ret (nodes t ! 0)"
  by (cases leaves) (simp_all add: tree_over_def merkle_root_def)

lemma from_chunks_tree:
  assumes "chunks \<noteq> []" and "2 * length chunks \<le> u64_max"
  shows "\<exists>t. from_chunks K chunks = Ret t \<and> tree_over K (map (hash_chunk K) chunks) t"
  using assms from_leaves_tree [of "map (hash_chunk K) chunks" K]
  by (simp add: from_chunks_def Let_def)

lemma validate_chunk_tree:
  assumes t: "tree_over K leaves t" and k: "k < length leaves"
  shows "validate_chunk K t k c = Ret (hash_chunk K c = leaves ! k)"
proof -
  let ?n = "length leaves"
  have n: "0 < ?n" and len: "length (nodes t) = 2 * ?n - 1" using t k by (auto simp: tree_over_def)
  from index_for_leaf_position [OF len n k] leaf_positions_range [OF n k] t k show ?thesis
    by (auto simp: validate_chunk_def tree_over_def)
qed

lemma validate_chunk_exact:
  assumes "from_chunks K chunks = Ret t" and "k < length chunks" and "2 * length chunks \<le> u64_max"
  shows "validate_chunk K t k c = Ret (hash_chunk K c = hash_chunk K (chunks ! k))"
proof -
  from assms(2) have ne: "chunks \<noteq> []" by auto
  from from_chunks_tree [OF ne assms(3), of K] assms(1)
  have "tree_over K (map (hash_chunk K) chunks) t" by simp
  from validate_chunk_tree [OF this, of k c] assms(2) show ?thesis by simp
qed

text \<open>C33. The tree built from the blocks of an initial state has one leaf per block and the hash of
  its children at every branch, and \<open>validate_chunk\<close> accepts a received block at an index
  exactly when it hashes like the published block at that index.\<close>

theorem merkle_accepts_published_chunks:
  assumes "chunks \<noteq> []" and "2 * length chunks \<le> u64_max"
  shows "\<exists>t. from_chunks K chunks = Ret t \<and> length (nodes t) = 2 * length chunks - 1 \<and>
    branches_ok K (nodes t) \<and>
    (\<forall>k < length chunks. \<forall>c. validate_chunk K t k c = Ret (hash_chunk K c = hash_chunk K (chunks ! k)))"
proof -
  from from_chunks_tree [OF assms, of K] obtain t where
    t: "from_chunks K chunks = Ret t" "tree_over K (map (hash_chunk K) chunks) t" by blast
  then show ?thesis using validate_chunk_tree [OF t(2)] by (auto simp: tree_over_def)
qed

text \<open>A hash for the witnesses: the concatenation of what it was fed, each node self-delimiting.\<close>

definition enc_node :: "bytes \<Rightarrow> bytes" where
  "enc_node h = concat (map (\<lambda>b. [1, b]) h) @ [0]"

definition plain_hash :: "(bytes, bytes) hash_ops" where
  "plain_hash = \<lparr>hash_new = [], hash_update = (\<lambda>s b. s @ b), hash_finalize = (\<lambda>s. s),
     hash_bytes = enc_node\<rparr>"

lemma enc_node_prefix: "enc_node a @ x = enc_node b @ y \<Longrightarrow> a = b \<and> x = y"
proof (induction a arbitrary: b)
  case Nil
  then show ?case by (cases b) (auto simp: enc_node_def)
next
  case (Cons c a)
  then show ?case by (cases b) (auto simp: enc_node_def)
qed

lemma hash_pair_plain: "hash_pair plain_hash a b = enc_node a @ enc_node b"
  by (simp add: hash_pair_def plain_hash_def Let_def)

lemma hash_pair_plain_inj: "hash_pair plain_hash a b = hash_pair plain_hash c d \<Longrightarrow> a = c \<and> b = d"
  using enc_node_prefix [of a "enc_node b" c "enc_node d"] enc_node_prefix [of b "[]" d "[]"]
  by (simp add: hash_pair_plain)

lemma hash_chunk_plain: "hash_chunk plain_hash c = c"
  by (simp add: hash_chunk_def plain_hash_def Let_def)

lemma merkle_accepts_published_chunks_witness:
  "\<exists>t. from_chunks plain_hash [[1], [2], [3]] = Ret t \<and> length (nodes t) = 5 \<and>
     validate_chunk plain_hash t 2 [3] = Ret True \<and> validate_chunk plain_hash t 2 [2] = Ret False"
proof -
  have "([[1], [2], [3]] :: bytes list) \<noteq> []" "2 * length ([[1], [2], [3]] :: bytes list) \<le> u64_max"
    by (simp_all add: u64_max_def)
  from merkle_accepts_published_chunks [OF this, of plain_hash] obtain t where
    t: "from_chunks plain_hash [[1], [2], [3]] = Ret t" "length (nodes t) = 5"
    "\<forall>k < 3. \<forall>c. validate_chunk plain_hash t k c =
        Ret (hash_chunk plain_hash c = hash_chunk plain_hash ([[1], [2], [3]] ! k))" by auto
  from t(3) have "\<forall>c. validate_chunk plain_hash t 2 c =
        Ret (hash_chunk plain_hash c = hash_chunk plain_hash ([[1], [2], [3]] ! 2))" by simp
  with t(1,2) show ?thesis by (auto simp: hash_chunk_plain)
qed

end
