(* ===== verification/MerklePartial.thy ===== *)
theory MerklePartial
  imports Merkle
begin

text \<open>
  Correctness of the partial Merkle tree of a downloading store (\<open>MerkleTree<Potential<_>>\<close> in
  \<open>ossa-core/src/util/merkle_tree.rs\<close>): its invariant, which \<open>set_node\<close> keeps whatever a peer
  sends, and what a completed tree is. \<open>set_hashes\<close> is the loop in
  \<open>store/mod.rs: handle_received_merkle_hashes\<close>.
\<close>

fun set_hashes ::
    "('s, 'h) hash_ops \<Rightarrow> 'h potential merkle_tree \<Rightarrow> (nat \<times> 'h) list \<Rightarrow> 'h potential merkle_tree res option" where
  "set_hashes K t [] = Some (Ret t)"
| "set_hashes K t ((i, hash) # ps) = bindL (set_node K t i hash) (\<lambda>p. set_hashes K (snd p) ps)"

section \<open>Partial trees\<close>

text \<open>
  The invariant of a downloading tree: odd length, a verified root; outside \<open>X\<close> (nodes whose
  children are still to be compared) a verified branch and its two children are consistent:
  both children verified, with the right hash, or at least one missing and none verified.
  A node is verified only if its parent is.
\<close>

definition is_verified :: "'h potential \<Rightarrow> bool" where
  "is_verified p = (case p of Verified _ \<Rightarrow> True | _ \<Rightarrow> False)"

definition children_ok :: "('s, 'h) hash_ops \<Rightarrow> 'h potential list \<Rightarrow> nat \<Rightarrow> bool" where
  "children_ok K ns i \<longleftrightarrow>
     (case ns ! i of
        Verified h \<Rightarrow>
          (case (ns ! (2 * i + 1), ns ! (2 * i + 2)) of
             (Verified a, Verified b) \<Rightarrow> h = hash_pair K a b
           | (PNone, q) \<Rightarrow> \<not> is_verified q
           | (p, PNone) \<Rightarrow> \<not> is_verified p
           | _ \<Rightarrow> False)
      | _ \<Rightarrow> \<not> is_verified (ns ! (2 * i + 1)) \<and> \<not> is_verified (ns ! (2 * i + 2)))"

definition unseen_children :: "'h potential list \<Rightarrow> nat \<Rightarrow> bool" where
  "unseen_children ns i \<longleftrightarrow> \<not> is_verified (ns ! (2 * i + 1)) \<and> \<not> is_verified (ns ! (2 * i + 2))"

definition partial_ok :: "('s, 'h) hash_ops \<Rightarrow> nat set \<Rightarrow> 'h \<Rightarrow> 'h potential list \<Rightarrow> bool" where
  "partial_ok K X root ns \<longleftrightarrow>
     odd (length ns) \<and> ns ! 0 = Verified root \<and>
     (\<forall>i < length ns div 2. if i \<in> X then unseen_children ns i else children_ok K ns i)"


lemma odd_halves:
  assumes "odd l" "(i::nat) < l div 2"
  shows "2 * i + 1 < l" "2 * i + 2 < l"
  using assms by presburger+

lemma children_cong:
  assumes "ns' ! j = ns ! j" "ns' ! (2 * j + 1) = ns ! (2 * j + 1)" "ns' ! (2 * j + 2) = ns ! (2 * j + 2)"
  shows "children_ok K ns' j = children_ok K ns j" "unseen_children ns' j = unseen_children ns j"
  using assms by (simp_all only: children_ok_def unseen_children_def)

lemma partial_new:
  assumes "0 < n" "2 * n \<le> u64_max"
  shows "\<exists>t. new_with_capacity root n = Ret t \<and> length (nodes t) = 2 * n - 1 \<and>
    partial_ok K {} root (nodes t)"
proof -
  let ?ns = "(replicate (2 * n - 1) PNone)[0 := Verified root]"
  have "partial_ok K {} root ?ns"
    unfolding partial_ok_def
  proof (intro conjI allI impI)
    fix i assume i: "i < length ?ns div 2"
    have "odd (length ?ns)" using assms(1) by simp
    from odd_halves [OF this i] have "?ns ! (2 * i + 1) = PNone" "?ns ! (2 * i + 2) = PNone" by auto
    then show "if i \<in> {} then unseen_children ?ns i else children_ok K ?ns i"
      by (auto simp: children_ok_def is_verified_def split: potential.split)
  qed (use assms(1) in auto)
  moreover have "new_with_capacity root n = Ret \<lparr>nodes = ?ns\<rparr>"
    using assms by (simp add: new_with_capacity_def node_count_for_leaf_count_def mul_u64_def sub_u64_def)
  ultimately show ?thesis by simp
qed

lemma siblings_verified:
  assumes ok: "partial_ok K (insert i X) root ns" and i: "i < length ns div 2" "i \<notin> X"
    and X: "X \<subseteq> {..< 2 * i + 1}"
    and ns: "ns ! i = Verified (hash_pair K a b)" "ns ! (2 * i + 1) = Unverified a"
      "ns ! (2 * i + 2) = Unverified b"
  shows "partial_ok K (insert (2 * i + 1) (insert (2 * i + 2) X)) root
           (ns[2 * i + 1 := Verified a, 2 * i + 2 := Verified b])"
    (is "partial_ok K ?X root ?ns")
proof -
  have odd: "odd (length ns)" and root: "ns ! 0 = Verified root"
    and old: "\<And>j. j < length ns div 2 \<Longrightarrow>
        if j \<in> insert i X then unseen_children ns j else children_ok K ns j"
    using ok by (auto simp: partial_ok_def)
  note lt = odd_halves [OF odd i(1)]
  have "if j \<in> ?X then unseen_children ?ns j else children_ok K ?ns j" if j: "j < length ns div 2" for j
  proof -
    consider "j = i" | "j = 2 * i + 1 \<or> j = 2 * i + 2" | "j \<noteq> i" "j \<noteq> 2 * i + 1" "j \<noteq> 2 * i + 2" by blast
    then show ?thesis
    proof cases
      case 1
      with i ns lt show ?thesis by (simp add: children_ok_def)
    next
      case 2
      with X have "j \<notin> insert i X" by auto
      with old [OF j] have "children_ok K ns j" by simp
      with 2 ns have "unseen_children ns j" by (auto simp: children_ok_def unseen_children_def)
      with 2 show ?thesis by (auto simp: unseen_children_def)
    next
      case 3
      then have "?ns ! (2 * j + 1) = ns ! (2 * j + 1)" "?ns ! (2 * j + 2) = ns ! (2 * j + 2)"
        "?ns ! j = ns ! j" by (auto simp: nth_list_update)
      from children_cong(1) [OF this(3,1,2), of K] children_cong(2) [OF this(3,1,2)] old [OF j] 3 show ?thesis by simp
    qed
  qed
  moreover have "odd (length ?ns)" "?ns ! 0 = Verified root" using odd root by simp_all
  ultimately show ?thesis unfolding partial_ok_def
    by (intro conjI allI impI) (simp_all only: length_list_update not_False_eq_True)
qed

lemma siblings_dropped:
  assumes ok: "partial_ok K (insert i X) root ns" and i: "i < length ns div 2" "i \<notin> X"
    and X: "X \<subseteq> {..< 2 * i + 1}"
    and ns: "ns ! i = Verified h" "ns ! (2 * i + 1) = Unverified a" "ns ! (2 * i + 2) = Unverified b"
  shows "partial_ok K X root (ns[2 * i + 1 := PNone, 2 * i + 2 := PNone])"
    (is "partial_ok K X root ?ns")
proof -
  have odd: "odd (length ns)" and root: "ns ! 0 = Verified root"
    and old: "\<And>j. j < length ns div 2 \<Longrightarrow>
        if j \<in> insert i X then unseen_children ns j else children_ok K ns j"
    using ok by (auto simp: partial_ok_def)
  note lt = odd_halves [OF odd i(1)]
  have "if j \<in> X then unseen_children ?ns j else children_ok K ?ns j" if j: "j < length ns div 2" for j
  proof -
    consider "j = i" | "j = 2 * i + 1 \<or> j = 2 * i + 2" | "j \<noteq> i" "j \<noteq> 2 * i + 1" "j \<noteq> 2 * i + 2" by blast
    then show ?thesis
    proof cases
      case 1
      with i ns lt show ?thesis by (simp add: children_ok_def is_verified_def)
    next
      case 2
      with X have "j \<notin> insert i X" by auto
      with old [OF j] have "children_ok K ns j" by simp
      with 2 ns lt X show ?thesis by (auto simp: children_ok_def)
    next
      case 3
      then have "?ns ! (2 * j + 1) = ns ! (2 * j + 1)" "?ns ! (2 * j + 2) = ns ! (2 * j + 2)"
        "?ns ! j = ns ! j" by (auto simp: nth_list_update)
      from children_cong(1) [OF this(3,1,2), of K] children_cong(2) [OF this(3,1,2)] old [OF j] 3 show ?thesis by simp
    qed
  qed
  moreover have "odd (length ?ns)" "?ns ! 0 = Verified root" using odd root by simp_all
  ultimately show ?thesis unfolding partial_ok_def
    by (intro conjI allI impI) (simp_all only: length_list_update not_False_eq_True)
qed

lemma nothing_to_compare:
  assumes "unseen_children ns i"
    and "\<nexists>e a b. ns ! i = Verified e \<and> ns ! (2 * i + 1) = Unverified a \<and> ns ! (2 * i + 2) = Unverified b"
  shows "ns ! i = PNone \<or> (\<exists>h. ns ! i = Unverified h) \<or> ns ! (2 * i + 1) = PNone \<or> ns ! (2 * i + 2) = PNone"
proof (rule ccontr)
  assume "\<not> ?thesis"
  then obtain e where "ns ! i = Verified e" "ns ! (2 * i + 1) \<noteq> PNone" "ns ! (2 * i + 2) \<noteq> PNone"
    by (cases "ns ! i") auto
  moreover obtain a b where "ns ! (2 * i + 1) = Unverified a" "ns ! (2 * i + 2) = Unverified b"
    using assms(1) calculation(2,3)
    by (cases "ns ! (2 * i + 1)"; cases "ns ! (2 * i + 2)") (auto simp: unseen_children_def is_verified_def)
  ultimately show False using assms(2) by blast
qed

text \<open>One call on a branch\<close>

lemma validate_children_branch:
  assumes odd: "odd (length ns)" and i: "i < length ns div 2"
  shows "validate_children K ns i =
     (case ns ! i of Verified e \<Rightarrow>
        (case (ns ! (2 * i + 1), ns ! (2 * i + 2)) of
           (PNone, _) \<Rightarrow> Some (Ret (None, ns))
         | (_, PNone) \<Rightarrow> Some (Ret (None, ns))
         | (Unverified left, Unverified right) \<Rightarrow>
             (if e = hash_pair K left right then
                bindL (validate_children K
                         (ns[2 * i + 1 := Verified left, 2 * i + 2 := Verified right]) (2 * i + 1)) (\<lambda>p1.
                bindL (validate_children K (snd p1) (2 * i + 2)) (\<lambda>p2.
                Some (Ret (Some True, snd p2))))
              else Some (Ret (Some False, ns[2 * i + 1 := PNone, 2 * i + 2 := PNone])))
         | _ \<Rightarrow> Some (Panic Unreachable))
      | _ \<Rightarrow> Some (Ret (None, ns)))"
proof -
  from odd i have "is_leaf ((length ns + 1) div 2) i = Ret False" by (simp add: is_leaf_def sub_u64_def)
  then show ?thesis
    using odd_halves [OF odd i] i by (subst validate_children.simps) (simp split: potential.split)
qed

lemma validate_children_nothing:
  assumes "odd (length ns)" "i < length ns div 2" and un: "unseen_children ns i"
    and "\<nexists>e a b. ns ! i = Verified e \<and> ns ! (2 * i + 1) = Unverified a \<and> ns ! (2 * i + 2) = Unverified b"
  shows "validate_children K ns i = Some (Ret (None, ns))" and "children_ok K ns i"
proof -
  note alt = nothing_to_compare [OF un assms(4)]
  show "validate_children K ns i = Some (Ret (None, ns))"
    using alt un unfolding validate_children_branch [OF assms(1,2)] unseen_children_def is_verified_def
    by (elim disjE exE) (simp_all split: potential.splits)
  show "children_ok K ns i"
    using alt un by (auto simp: children_ok_def unseen_children_def is_verified_def split: potential.splits)
qed

lemma validate_children_ok:
  assumes "partial_ok K (insert i X) root ns" and "X \<subseteq> {..< 2 * i + 1}" and "i \<notin> X"
    and "i < length ns"
  shows "\<exists>b ns'. validate_children K ns i = Some (Ret (b, ns')) \<and> partial_ok K X root ns' \<and>
    length ns' = length ns"
  using assms
proof (induction "length ns - i" arbitrary: ns i X rule: less_induct)
  case less
  have odd: "odd (length ns)" using less.prems by (auto simp: partial_ok_def)
  show ?case
  proof (cases "i < length ns div 2")
    case False
    then have "partial_ok K X root ns" using less.prems by (auto simp: partial_ok_def split: if_splits)
    moreover have "(length ns + 1) div 2 - 1 \<le> i" "0 < (length ns + 1) div 2" using False odd by presburger+
    then have "validate_children K ns i = Some (Ret (None, ns))" by (subst validate_children.simps) simp
    ultimately show ?thesis by blast
  next
    case i: True
    note lt = odd_halves [OF odd i] and step = validate_children_branch [OF odd i]
    have un: "unseen_children ns i" using less.prems i by (auto simp: partial_ok_def)
    show ?thesis
    proof (cases "\<exists>e a b. ns ! i = Verified e \<and> ns ! (2 * i + 1) = Unverified a \<and>
             ns ! (2 * i + 2) = Unverified b")
      case False
      note no_pair = validate_children_nothing [OF odd i un False]
      have "partial_ok K X root ns" using less.prems no_pair(2) by (auto simp: partial_ok_def split: if_splits)
      with no_pair(1) show ?thesis by blast
    next
      case True
      then obtain e a b where ns: "ns ! i = Verified e" "ns ! (2 * i + 1) = Unverified a"
        "ns ! (2 * i + 2) = Unverified b" by blast
      show ?thesis
      proof (cases "e = hash_pair K a b")
        case bad: False
        with siblings_dropped [OF less.prems(1) i less.prems(3,2) ns] show ?thesis
          unfolding step ns by simp
      next
        case good: True
        let ?ns = "ns[2 * i + 1 := Verified a, 2 * i + 2 := Verified b]"
        have ok: "partial_ok K (insert (2 * i + 1) (insert (2 * i + 2) X)) root ?ns"
          using siblings_verified [OF less.prems(1) i less.prems(3,2)] ns good by simp
        have sub: "insert (2 * i + 2) X \<subseteq> {..< 2 * (2 * i + 1) + 1}" "X \<subseteq> {..< 2 * (2 * i + 2) + 1}"
          and out: "2 * i + 1 \<notin> insert (2 * i + 2) X" "2 * i + 2 \<notin> X"
          and dec: "length ns - (2 * i + 1) < length ns - i" "length ns - (2 * i + 2) < length ns - i"
          using less.prems(2) lt by auto
        from less.hyps [of ?ns "2 * i + 1" "insert (2 * i + 2) X", OF _ ok sub(1) out(1)] dec lt
        obtain r1 ns1 where v1: "validate_children K ?ns (2 * i + 1) = Some (Ret (r1, ns1))"
          "partial_ok K (insert (2 * i + 2) X) root ns1" "length ns1 = length ns" by auto
        from less.hyps [of ns1 "2 * i + 2" X, OF _ v1(2) sub(2) out(2)] dec lt v1(3)
        obtain r2 ns2 where v2: "validate_children K ns1 (2 * i + 2) = Some (Ret (r2, ns2))"
          "partial_ok K X root ns2" "length ns2 = length ns" by auto
        show ?thesis using v1 v2 good unfolding step ns by simp
      qed
    qed
  qed
qed

text \<open>What holds of every call, by the cases it can take\<close>

lemma validate_step_cases:
  assumes "bindL (Some L) (\<lambda>leaf. if leaf then Some (Ret (None, ns)) else
      bindL (Some A) (\<lambda>node. case node of
        Verified e \<Rightarrow> bindL (Some B) (\<lambda>l. bindL (Some C) (\<lambda>r.
          case (l, r) of
            (PNone, _) \<Rightarrow> Some (Ret (None, ns))
          | (_, PNone) \<Rightarrow> Some (Ret (None, ns))
          | (Unverified left, Unverified right) \<Rightarrow> F e left right
          | _ \<Rightarrow> Some (Panic Unreachable)))
      | _ \<Rightarrow> Some (Ret (None, ns)))) = Some (Ret (b, ns'))"
  obtains "ns' = ns"
    | e x y where "L = Ret False" "A = Ret (Verified e)" "B = Ret (Unverified x)" "C = Ret (Unverified y)"
        "F e x y = Some (Ret (b, ns'))"
proof -
  from assms obtain leaf where L: "L = Ret leaf" by auto
  show thesis
  proof (cases leaf)
    case True
    with assms L that(1) show thesis by simp
  next
    case False
    from assms L False obtain node where A: "A = Ret node" by auto
    show thesis
    proof (cases node)
      case (Verified e)
      from assms L A False Verified obtain l where B: "B = Ret l" by auto
      from assms L A B False Verified obtain r where C: "C = Ret r" by auto
      from assms that L A B C False Verified show thesis by (cases l; cases r) simp_all
    qed (use assms L A False that(1) in simp_all)
  qed
qed

lemma validate_children_induct [consumes 1, case_names same dropped verified]:
  fixes K :: "('s, 'h) hash_ops"
  assumes run: "validate_children K ns i = Some (Ret (b, ns'))"
    and same: "\<And>ns i. P ns i ns"
    and dropped: "\<And>ns i e x y. i < (length ns + 1) div 2 - 1 \<Longrightarrow> 2 * i + 2 < length ns \<Longrightarrow> ns ! i = Verified e \<Longrightarrow>
      ns ! (2 * i + 1) = Unverified x \<Longrightarrow> ns ! (2 * i + 2) = Unverified y \<Longrightarrow> e \<noteq> hash_pair K x y \<Longrightarrow>
      P ns i (ns[2 * i + 1 := PNone, 2 * i + 2 := PNone])"
    and verified: "\<And>ns i x y n1 n2. ns ! (2 * i + 1) = Unverified x \<Longrightarrow> ns ! (2 * i + 2) = Unverified y \<Longrightarrow>
      P (ns[2 * i + 1 := Verified x, 2 * i + 2 := Verified y]) (2 * i + 1) n1 \<Longrightarrow> P n1 (2 * i + 2) n2 \<Longrightarrow> P ns i n2"
  shows "P ns i ns'"
proof -
  let ?P = "\<lambda>(K' :: ('s, 'h) hash_ops) ns i r. \<forall>b ns'. K' = K \<longrightarrow> r = Ret (b, ns') \<longrightarrow> P ns i ns'"
  have "?P K ns i (Ret (b, ns'))"
  proof (rule validate_children.raw_induct [where P = ?P, OF _ run], intro allI impI, goal_cases)
    case (1 vc K' ns i r b ns')
    note ih = 1(1) [rule_format] and body = 1(2) [unfolded 1(3,4)]
    from body show ?case
    proof (rule validate_step_cases)
      assume "ns' = ns"
      then show "P ns i ns'" by (simp add: same)
    next
      fix e x y
      assume leaf: "is_leaf ((length ns + 1) div 2) i = Ret False"
        and "index ns i = Ret (Verified e)" "index ns (2 * i + 1) = Ret (Unverified x)" "index ns (2 * i + 2) = Ret (Unverified y)"
        and step: "(if e = hash_pair K x y then
            bindL (vc K (ns[2 * i + 1 := Verified x, 2 * i + 2 := Verified y]) (2 * i + 1)) (\<lambda>p1.
            bindL (vc K (snd p1) (2 * i + 2)) (\<lambda>p2. Some (Ret (Some True, snd p2))))
          else Some (Ret (Some False, ns[2 * i + 1 := PNone, 2 * i + 2 := PNone]))) = Some (Ret (b, ns'))"
      then have ns: "2 * i + 2 < length ns" "ns ! i = Verified e" "ns ! (2 * i + 1) = Unverified x" "ns ! (2 * i + 2) = Unverified y"
        by (simp_all add: index_def split: if_splits)
      show "P ns i ns'"
      proof (cases "e = hash_pair K x y")
        case True
        with step obtain p1 p2 where v: "vc K (ns[2 * i + 1 := Verified x, 2 * i + 2 := Verified y]) (2 * i + 1) = Some (Ret p1)"
          "vc K (snd p1) (2 * i + 2) = Some (Ret p2)" "ns' = snd p2" by auto
        have "P (ns[2 * i + 1 := Verified x, 2 * i + 2 := Verified y]) (2 * i + 1) (snd p1)"
          by (rule ih [OF v(1), of "fst p1"]) simp_all
        moreover have "P (snd p1) (2 * i + 2) ns'" by (rule ih [OF v(2), of "fst p2"]) (simp_all add: v(3))
        ultimately show ?thesis by (rule verified [OF ns(3,4)])
      next
        case False
        from leaf have "i < (length ns + 1) div 2 - 1" by (auto simp: is_leaf_def sub_u64_def split: if_splits)
        from dropped [OF this ns False] step False show ?thesis by simp
      qed
    qed
  qed
  then show ?thesis by simp
qed

lemma set_node_ok:
  assumes ok: "partial_ok K {} root (nodes t)"
  shows "\<exists>b t'. set_node K t i v = Some (Ret (b, t')) \<and> partial_ok K {} root (nodes t') \<and>
    length (nodes t') = length (nodes t)"
proof (cases "i < length (nodes t) \<and> nodes t ! i = PNone")
  case False
  with ok show ?thesis by (auto simp: set_node_def split: potential.split)
next
  case True
  let ?ns = "nodes t" let ?p = "(i - 1) div 2"
  have odd: "odd (length ?ns)" and root: "?ns ! 0 = Verified root"
    and old: "\<And>j. j < length ?ns div 2 \<Longrightarrow> children_ok K ?ns j"
    using ok by (auto simp: partial_ok_def)
  have i0: "i \<noteq> 0" using True root by (cases "i = 0") simp_all
  have ip: "i = 2 * ?p + 1 \<or> i = 2 * ?p + 2" using i0 by presburger
  have p: "?p < length ?ns div 2" using conjunct1 [OF True] odd i0 by presburger
  have "partial_ok K {?p} root (?ns[i := Unverified v])" (is "partial_ok K _ root ?ns'")
    unfolding partial_ok_def
  proof (intro conjI allI impI)
    fix j assume "j < length ?ns' div 2"
    then have j: "j < length ?ns div 2" by simp
    consider "j = ?p" | "j \<noteq> ?p" "j = i" | "j \<noteq> ?p" "j \<noteq> i" by blast
    then show "if j \<in> {?p} then unseen_children ?ns' j else children_ok K ?ns' j"
    proof cases
      case 1
      have "unseen_children ?ns ?p"
        using old [OF p] ip True
        by (auto simp: children_ok_def unseen_children_def is_verified_def split: potential.splits)
      with 1 ip True show ?thesis
        by (auto simp: unseen_children_def nth_list_update is_verified_def)
    next
      case 2
      with ip i0 have "2 * j + 1 \<noteq> i" "2 * j + 2 \<noteq> i" by auto
      with old [OF j] 2 True show ?thesis by (simp add: children_ok_def)
    next
      case 3
      then have "2 * j + 1 \<noteq> i" "2 * j + 2 \<noteq> i" by auto
      then have "?ns' ! j = ?ns ! j" "?ns' ! (2 * j + 1) = ?ns ! (2 * j + 1)"
        "?ns' ! (2 * j + 2) = ?ns ! (2 * j + 2)" using 3 by auto
      from children_cong(1) [OF this, of K] old [OF j] 3 show ?thesis by simp
    qed
  qed (use odd root i0 in auto)
  from validate_children_ok [of K ?p "{}", OF this] less_le_trans [OF p div_le_dividend]
  obtain b ns' where "validate_children K ?ns' ?p = Some (Ret (b, ns'))"
    "partial_ok K {} root ns'" "length ns' = length ?ns" by auto
  with True i0 show ?thesis by (auto simp: set_node_def Let_def)
qed

text \<open>A tree with nothing missing is complete.\<close>

lemma none_missing_verified:
  assumes ok: "partial_ok K {} root ns" and full: "\<And>i. i < length ns \<Longrightarrow> ns ! i \<noteq> PNone"
  shows "i < length ns \<Longrightarrow> \<exists>h. ns ! i = Verified h"
proof (induction i rule: less_induct)
  case (less i)
  show ?case
  proof (cases "i = 0")
    case True
    with ok show ?thesis by (simp add: partial_ok_def)
  next
    case False
    let ?p = "(i - 1) div 2"
    have odd: "odd (length ns)" using ok by (simp add: partial_ok_def)
    have p: "?p < i" "?p < length ns div 2" using False less.prems odd by presburger+
    have ip: "i = 2 * ?p + 1 \<or> i = 2 * ?p + 2" using False by presburger
    from less.IH [OF p(1)] p(1) less.prems obtain h where h: "ns ! ?p = Verified h" by auto
    have "children_ok K ns ?p" using ok p by (simp add: partial_ok_def)
    moreover have "ns ! (2 * ?p + 1) \<noteq> PNone" "ns ! (2 * ?p + 2) \<noteq> PNone"
      using full odd_halves [OF odd p(2)] by blast+
    ultimately have "(\<exists>a. ns ! (2 * ?p + 1) = Verified a) \<and> (\<exists>b. ns ! (2 * ?p + 2) = Verified b)"
      using h unfolding children_ok_def by (auto split: potential.splits)
    with ip show ?thesis by metis
  qed
qed

lemma try_complete_Some:
  "try_complete t = Some u \<longleftrightarrow> nodes t = map Verified (nodes u)"
proof -
  have "map (\<lambda>n. case n of Verified v \<Rightarrow> Some v | _ \<Rightarrow> None) ns = map Some vs \<longleftrightarrow> ns = map Verified vs" for ns and vs :: "'a list"
  proof (induction ns arbitrary: vs)
    case (Cons n ns)
    then show ?case by (cases n; cases vs) auto
  qed simp
  then show ?thesis
    by (cases u) (auto simp: try_complete_def those_eq_Some)
qed

lemma try_complete_iff:
  assumes ok: "partial_ok K {} root (nodes t)"
  shows "(\<exists>u. try_complete t = Some u) \<longleftrightarrow> missing_indices t = []"
proof
  assume "\<exists>u. try_complete t = Some u"
  then show "missing_indices t = []"
    by (auto simp: try_complete_Some missing_indices_def filter_empty_conv)
next
  assume "missing_indices t = []"
  then have full: "nodes t ! i \<noteq> PNone" if "i < length (nodes t)" for i
    using that by (force simp: missing_indices_def filter_empty_conv)
  from none_missing_verified [OF ok full]
  have "\<exists>us. nodes t = map Verified us"
    by (metis ex_map_conv in_set_conv_nth)
  then show "\<exists>u. try_complete t = Some u" by (metis merkle_tree.select_convs(1) try_complete_Some)
qed

lemma try_complete_tree:
  assumes ok: "partial_ok K {} root (nodes t)" and u: "try_complete t = Some u"
  shows "branches_ok K (nodes u) \<and> nodes u ! 0 = root \<and> length (nodes u) = length (nodes t)"
proof -
  have t: "nodes t = map Verified (nodes u)" using u by (simp add: try_complete_Some)
  have odd: "odd (length (nodes u))" using ok t by (simp add: partial_ok_def)
  then have "0 < length (nodes u)" by (cases "nodes u") auto
  then have root: "nodes u ! 0 = root" using ok t by (simp add: partial_ok_def)
  have "nodes u ! i = hash_pair K (nodes u ! (2 * i + 1)) (nodes u ! (2 * i + 2))"
    if "i < (length (nodes u) + 1) div 2 - 1" for i
  proof -
    have i: "i < length (nodes u) div 2" using that odd by presburger
    then have "children_ok K (nodes t) i" using ok t by (simp add: partial_ok_def)
    with i odd_halves [OF odd i] show ?thesis by (simp add: children_ok_def t)
  qed
  with root t show ?thesis by (simp add: branches_ok_def)
qed

text \<open>Two trees with the same root are equal when no pair collides with a branch of the first.\<close>

lemma branches_unique:
  assumes "branches_ok K ns" "branches_ok K ms" "length ns = length ms" "ns ! 0 = ms ! 0" "odd (length ns)"
    and inj: "\<And>i a b. i < length ns div 2 \<Longrightarrow> hash_pair K a b = ns ! i \<Longrightarrow>
                a = ns ! (2 * i + 1) \<and> b = ns ! (2 * i + 2)"
  shows "ns = ms"
proof (rule nth_equalityI)
  fix i assume "i < length ns"
  then show "ns ! i = ms ! i"
  proof (induction i rule: less_induct)
    case (less i)
    show ?case
    proof (cases "i = 0")
      case False
      let ?p = "(i - 1) div 2"
      have p: "?p < i" "?p < length ns div 2" "?p < (length ns + 1) div 2 - 1"
        using False less.prems assms(5) by presburger+
      from less.IH [OF p(1)] p(1) less.prems have "ns ! ?p = ms ! ?p" by simp
      moreover have "ms ! ?p = hash_pair K (ms ! (2 * ?p + 1)) (ms ! (2 * ?p + 2))"
        using assms(2,3) p(3) by (simp add: branches_ok_def)
      ultimately have "ms ! (2 * ?p + 1) = ns ! (2 * ?p + 1) \<and> ms ! (2 * ?p + 2) = ns ! (2 * ?p + 2)"
        using inj [OF p(2)] by metis
      moreover have "i = 2 * ?p + 1 \<or> i = 2 * ?p + 2" using False by presburger
      ultimately show ?thesis by metis
    qed (use assms in simp)
  qed
qed (use assms in simp)

section \<open>Downloads\<close>

lemma set_hashes_ok:
  assumes "partial_ok K {} root (nodes t)"
  shows "\<exists>t'. set_hashes K t ps = Some (Ret t') \<and> partial_ok K {} root (nodes t') \<and>
    length (nodes t') = length (nodes t)"
  using assms
proof (induction ps arbitrary: t)
  case (Cons p ps)
  obtain i h where p: "p = (i, h)" by force
  from set_node_ok [OF Cons.prems, of i h] obtain b t1 where
    "set_node K t i h = Some (Ret (b, t1))" "partial_ok K {} root (nodes t1)"
    "length (nodes t1) = length (nodes t)" by blast
  with Cons.IH [of t1] show ?case by (auto simp: p)
qed simp

text \<open>C11. Whatever hashes peers send and in whatever order, a store that downloads a tree of \<open>n\<close>
  leaves never panics or loops in the Merkle tree; it leaves the download exactly when no
  index is missing, and the tree it then holds has the agreed root and the hash of its
  children at every branch.\<close>

theorem merkle_download_safe:
  assumes "0 < n" and "2 * n \<le> u64_max"
  shows "\<exists>t t'. new_with_capacity root n = Ret t \<and> set_hashes K t ps = Some (Ret t') \<and>
    ((\<exists>u. try_complete t' = Some u) \<longleftrightarrow> missing_indices t' = []) \<and>
    (\<forall>u. try_complete t' = Some u \<longrightarrow>
       branches_ok K (nodes u) \<and> nodes u ! 0 = root \<and> length (nodes u) = 2 * n - 1)"
proof -
  from partial_new [OF assms, of root K] obtain t where
    t: "new_with_capacity root n = Ret t" "length (nodes t) = 2 * n - 1" "partial_ok K {} root (nodes t)"
    by blast
  from set_hashes_ok [OF t(3), of ps] obtain t' where
    t': "set_hashes K t ps = Some (Ret t')" "partial_ok K {} root (nodes t')"
    "length (nodes t') = 2 * n - 1" using t(2) by auto
  with t try_complete_iff [OF t'(2)] try_complete_tree [OF t'(2)] show ?thesis by auto
qed

lemma merkle_download_safe_witness:
  "\<exists>t t'. new_with_capacity (hash_pair plain_hash [1] [2]) 2 = Ret t \<and>
     set_hashes plain_hash t [(2, [7]), (1, [1]), (2, [2]), (1, [1])] = Some (Ret t') \<and>
     ((\<exists>u. try_complete t' = Some u) \<longleftrightarrow> missing_indices t' = [])"
  using merkle_download_safe [of 2 "hash_pair plain_hash [1] [2]" plain_hash
      "[(2, [7]), (1, [1]), (2, [2]), (1, [1])]"]
  by (auto simp: u64_max_def)

lemma merkle_download_facts:
  assumes "0 < n" "2 * n \<le> u64_max" "new_with_capacity root n = Ret t"
    and "set_hashes K t ps = Some (Ret t')" "try_complete t' = Some u"
  shows "branches_ok K (nodes u) \<and> nodes u ! 0 = root \<and> length (nodes u) = 2 * n - 1"
proof -
  from partial_new [OF assms(1,2), of root K] assms(3) have
    t: "length (nodes t) = 2 * n - 1" "partial_ok K {} root (nodes t)" by auto
  from set_hashes_ok [OF t(2), of ps] assms(4) t(1) have
    t': "partial_ok K {} root (nodes t')" "length (nodes t') = 2 * n - 1" by auto
  from try_complete_tree [OF t'(1) assms(5)] t'(2) show ?thesis by simp
qed

text \<open>C5. Downloads are authentic: when no other pair of nodes hashes to a branch of the
  publisher's tree, a tree completed against the publisher's root, from any peers, is the
  publisher's tree, so a block is accepted exactly when it hashes like the published one.\<close>

theorem merkle_download_authentic:
  assumes pub: "from_chunks K chunks = Ret p" "chunks \<noteq> []" "2 * length chunks \<le> u64_max"
    and free: "\<And>i a b. i < length (nodes p) div 2 \<Longrightarrow> hash_pair K a b = nodes p ! i \<Longrightarrow>
                 a = nodes p ! (2 * i + 1) \<and> b = nodes p ! (2 * i + 2)"
    and new: "merkle_root p = Ret root" "new_with_capacity root (length chunks) = Ret t"
    and got: "set_hashes K t ps = Some (Ret t')" "try_complete t' = Some u"
  shows "u = p"
proof -
  from pub(2) have n: "0 < length chunks" by simp
  from from_chunks_tree [OF pub(2,3), of K] pub(1) have
    p: "branches_ok K (nodes p)" "length (nodes p) = 2 * length chunks - 1" by (auto simp: tree_over_def)
  with new(1) n have root: "nodes p ! 0 = root" by (simp add: merkle_root_def)
  from merkle_download_facts [OF n pub(3) new(2) got] root p free n
  have "nodes p = nodes u" by (intro branches_unique [of K]) auto
  then show ?thesis by simp
qed

lemma merkle_download_authentic_witness:
  "\<exists>u. set_hashes plain_hash \<lparr>nodes = [Verified [1, 1, 0, 1, 2, 0], PNone, PNone]\<rparr> [(2, [2]), (1, [1])]
     = Some (Ret \<lparr>nodes = map Verified (nodes u)\<rparr>) \<and> from_chunks plain_hash [[1], [2]] = Ret u"
proof -
  let ?p = "\<lparr>nodes = [[1, 1, 0, 1, 2, 0], [1], [2]]\<rparr> :: bytes merkle_tree"
  let ?t = "\<lparr>nodes = [Verified [1, 1, 0, 1, 2, 0], PNone, PNone]\<rparr> :: bytes potential merkle_tree"
  have three: "replicate 3 x = [x, x, x]" for x :: 'a by (simp add: numeral_3_eq_3)
  have p: "from_chunks plain_hash [[1], [2]] = Ret ?p"
    by (simp add: from_chunks_def from_leaves_def node_count_for_leaf_count_def mul_u64_def sub_u64_def
        u64_max_def log2_ceil.simps fill_layer_def fill_node_def upt_rec hash_pair_plain
        hash_chunk_plain enc_node_def Let_def index_def store_at_def is_leaf_def nth_Cons' three)
  have free: "a = nodes ?p ! (2 * i + 1) \<and> b = nodes ?p ! (2 * i + 2)"
    if "i < length (nodes ?p) div 2" "hash_pair plain_hash a b = nodes ?p ! i" for i a b
    using that hash_pair_plain_inj [of a b "[1]" "[2]"] by (simp add: hash_pair_plain enc_node_def)
  have t: "new_with_capacity [1, 1, 0, 1, 2, 0 :: 8 word] 2 = Ret ?t"
    by (simp add: new_with_capacity_def node_count_for_leaf_count_def mul_u64_def sub_u64_def
        u64_max_def store_at_def three)
  have leafs: "validate_children plain_hash [x, y, z] (Suc n) = Some (Ret (None, [x, y, z]))" for x y z n
    by (subst validate_children.simps) (simp add: is_leaf_def sub_u64_def)
  have leafs2: "validate_children plain_hash [x, y, z] 2 = Some (Ret (None, [x, y, z]))" for x y z
    by (subst validate_children.simps) (simp add: is_leaf_def sub_u64_def)
  have v: "validate_children plain_hash [Verified [1, 1, 0, 1, 2, 0], Unverified [1], Unverified [2]] 0
      = Some (Ret (Some True, map Verified (nodes ?p)))"
    by (subst validate_children.simps) (simp add: leafs hash_pair_plain enc_node_def is_leaf_def
        sub_u64_def leafs2)
  have v0: "validate_children plain_hash [Verified [1, 1, 0, 1, 2, 0], PNone, Unverified [2]] 0
      = Some (Ret (None, [Verified [1, 1, 0, 1, 2, 0], PNone, Unverified [2]]))"
    by (subst validate_children.simps) (simp add: is_leaf_def sub_u64_def)
  have g: "set_hashes plain_hash ?t [(2, [2]), (1, [1])] = Some (Ret \<lparr>nodes = map Verified (nodes ?p)\<rparr>)"
    using v v0 by (simp add: set_node_def Let_def)
  have c: "try_complete \<lparr>nodes = map Verified (nodes ?p)\<rparr> = Some ?p"
    by (simp add: try_complete_Some)
  have r: "merkle_root ?p = Ret [1, 1, 0, 1, 2, 0]" by (simp add: merkle_root_def)
  have "?p = ?p"
    by (rule merkle_download_authentic [OF p _ _ free r _ g c]) (use t in \<open>simp_all add: u64_max_def flip: numeral_2_eq_2\<close>)
  with g p show ?thesis by blast
qed

end
