(* ===== verification/NetProtocol.thy ===== *)
theory NetProtocol
  imports Prelude
begin

text \<open>
  \<open>ossa-core/src/network/protocol/mod.rs\<close> and the versions of \<open>protocol/mod.rs\<close>: sending and receiving typed messages over a stream,
  and the handshake. A stream is what is still to arrive on it, in order, what was sent on it,
  and whether the other end is still there; an arriving item is a message or the error its
  decoding gave.
\<close>

datatype protocol_error =
    SerializationError
  | DeserializationError
  | ReceivedNoData
  | StreamSendError
  | StreamReceiveError
  | ProtocolDeviation
  | ChannelSendError

record 'm stream =
  incoming :: "(protocol_error + 'm) list"
  outgoing :: "'m list"
  is_open :: bool

definition send :: "('t \<Rightarrow> 'm) \<Rightarrow> 'm stream \<Rightarrow> 't \<Rightarrow> (protocol_error + unit) \<times> 'm stream" where
  "send into s message =
     (if is_open s then (Inr (), s\<lparr>outgoing := outgoing s @ [into message]\<rparr>)
      else (Inl StreamSendError, s))"

definition receive :: "('m \<Rightarrow> 'u option) \<Rightarrow> 'm stream \<Rightarrow> (protocol_error + 'u) \<times> 'm stream" where
  "receive try_into s =
     (case incoming s of
        [] \<Rightarrow> (Inl ReceivedNoData, s)
      | Inl err # rest \<Rightarrow> (Inl err, s\<lparr>incoming := rest\<rparr>)
      | Inr msg # rest \<Rightarrow>
          (case try_into msg of
             None \<Rightarrow> (Inl ProtocolDeviation, s\<lparr>incoming := rest\<rparr>)
           | Some u \<Rightarrow> (Inr u, s\<lparr>incoming := rest\<rparr>)))"

text \<open>\<open>.await.expect(..)\<close> on either.\<close>

definition send_expect :: "('t \<Rightarrow> 'm) \<Rightarrow> 'm stream \<Rightarrow> 't \<Rightarrow> 'm stream res" where
  "send_expect into s message =
     (case send into s message of (Inr _, s') \<Rightarrow> Ret s' | (Inl _, s') \<Rightarrow> Panic ExpectFailed)"

definition receive_expect :: "('m \<Rightarrow> 'u option) \<Rightarrow> 'm stream \<Rightarrow> ('u \<times> 'm stream) res" where
  "receive_expect try_into s =
     (case receive try_into s of (Inr u, s') \<Rightarrow> Ret (u, s') | (Inl _, s') \<Rightarrow> Panic ExpectFailed)"

section \<open>Versions\<close>

datatype version = V0

fun as_byte :: "version \<Rightarrow> u8" where
  "as_byte V0 = 0"

definition latest_version :: version where "latest_version = V0"

section \<open>Handshake\<close>

record 'd handshake_info =
  hs_version :: version
  hs_peer_id :: 'd

datatype handshake_error = ConnectingToSelf

definition handshake_check :: "'d \<Rightarrow> 'd \<Rightarrow> handshake_error + 'd handshake_info" where
  "handshake_check device_id peer_id =
     (if device_id = peer_id then Inl ConnectingToSelf
      else Inr \<lparr>hs_version = V0, hs_peer_id = peer_id\<rparr>)"

definition run_handshake_server ::
    "'d stream \<Rightarrow> 'd \<Rightarrow> ((handshake_error + 'd handshake_info) \<times> 'd stream) res" where
  "run_handshake_server s device_id =
     bindR (receive_expect Some s) (\<lambda>(peer_id, s).
     bindR (send_expect (\<lambda>x. x) s device_id) (\<lambda>s.
     Ret (handshake_check device_id peer_id, s)))"

definition run_handshake_client ::
    "'d stream \<Rightarrow> 'd \<Rightarrow> ((handshake_error + 'd handshake_info) \<times> 'd stream) res" where
  "run_handshake_client s device_id =
     bindR (send_expect (\<lambda>x. x) s device_id) (\<lambda>s.
     bindR (receive_expect Some s) (\<lambda>(peer_id, s).
     Ret (handshake_check device_id peer_id, s)))"

lemma send_expect_open:
  "is_open s \<Longrightarrow> send_expect into s x = Ret (s\<lparr>outgoing := outgoing s @ [into x]\<rparr>)"
  by (simp add: send_expect_def send_def)

lemma receive_expect_Inr:
  "incoming s = Inr m # rest \<Longrightarrow> try_into m = Some u \<Longrightarrow>
   receive_expect try_into s = Ret (u, s\<lparr>incoming := rest\<rparr>)"
  by (simp add: receive_expect_def receive_def)

text \<open>A handshake agrees: when a server and a client talk to each other over one connection,
  what each sends is what the other receives, both return, each learns the other's id under
  the same version, and both refuse the connection exactly when a device connects to itself.\<close>

theorem handshake_agrees:
  "\<exists>s' c'. run_handshake_server \<lparr>incoming = [Inr client_id], outgoing = [], is_open = True\<rparr> server_id
      = Ret (handshake_check server_id client_id, s') \<and>
    run_handshake_client \<lparr>incoming = map Inr (outgoing s'), outgoing = [], is_open = True\<rparr> client_id
      = Ret (handshake_check client_id server_id, c') \<and>
    outgoing c' = [client_id] \<and>
    ((\<exists>i j. handshake_check server_id client_id = Inr i \<and> handshake_check client_id server_id = Inr j \<and>
        hs_version i = hs_version j \<and> hs_peer_id i = client_id \<and> hs_peer_id j = server_id)
       \<longleftrightarrow> server_id \<noteq> client_id)"
  by (auto simp: run_handshake_server_def run_handshake_client_def send_expect_def send_def
      receive_expect_def receive_def handshake_check_def)

end
