(* ===== verification/Metadata.thy ===== *)
theory Metadata
  imports MerklePartial NetProtocol
begin

text \<open>
  \<open>ossa-core/src/store/v0.rs\<close>: a store's metadata header, its store id, and the body whose
  Merkle tree the header commits to. The nonce, the
  serializer of the state and its type id are arguments.
\<close>

section \<open>Constants\<close>

definition block_size :: nat where "block_size = 2 ^ 14"
definition merkle_request_limit :: nat where "merkle_request_limit = 16"
definition block_request_limit :: nat where "block_request_limit = 16"

section \<open>Metadata\<close>

record 'h metadata_header =
  md_nonce :: bytes
  md_protocol_version :: version
  md_store_type :: bytes
  md_initial_state_size :: u64
  md_merkle_root :: 'h

record 'h metadata_body =
  mb_initial_state :: bytes
  mb_merkle_tree :: "'h merkle_tree"

text \<open>\<open>slice::chunks\<close>: consecutive pieces of the given length, the last may be shorter.\<close>

fun chunks :: "nat \<Rightarrow> 'a list \<Rightarrow> 'a list list" where
  "chunks n [] = []"
| "chunks n (x # xs) = (x # take (n - 1) xs) # chunks n (drop (n - 1) xs)"

definition metadata_body_new :: "('s, 'h) hash_ops \<Rightarrow> ('t \<Rightarrow> bytes) \<Rightarrow> 't \<Rightarrow> 'h metadata_body res" where
  "metadata_body_new K to_vec initial_state =
     (let bs = to_vec initial_state in
      bindR (from_chunks K (chunks block_size bs)) (\<lambda>tree.
      Ret \<lparr>mb_initial_state = bs, mb_merkle_tree = tree\<rparr>))"

definition metadata_generate :: "bytes \<Rightarrow> bytes \<Rightarrow> 'h metadata_body \<Rightarrow> 'h metadata_header res" where
  "metadata_generate rnd type_ident b =
     bindR (merkle_root (mb_merkle_tree b)) (\<lambda>root.
     Ret \<lparr>md_nonce = rnd, md_protocol_version = latest_version, md_store_type = type_ident,
          md_initial_state_size = of_nat (length (mb_initial_state b)), md_merkle_root = root\<rparr>)"

definition metadata_build :: "'h metadata_body \<Rightarrow> 'h merkle_tree \<times> bytes" where
  "metadata_build b = (mb_merkle_tree b, mb_initial_state b)"

text \<open>\<open>u64::to_be_bytes\<close>\<close>

definition to_be_bytes :: "u64 \<Rightarrow> bytes" where
  "to_be_bytes x = map (\<lambda>i. ucast (drop_bit (8 * i) x)) [7, 6, 5, 4, 3, 2, 1, 0]"

definition store_id :: "('s, 'h) hash_ops \<Rightarrow> 'h metadata_header \<Rightarrow> 'h" where
  "store_id K md =
     (let h = hash_new K;
          h = hash_update K h (md_nonce md);
          h = hash_update K h [as_byte (md_protocol_version md)];
          h = hash_update K h (md_store_type md);
          h = hash_update K h (to_be_bytes (md_initial_state_size md));
          h = hash_update K h (hash_bytes K (md_merkle_root md))
      in hash_finalize K h)"

definition validate_store_id :: "('s, 'h) hash_ops \<Rightarrow> 'h metadata_header \<Rightarrow> 'h \<Rightarrow> bool" where
  "validate_store_id K md sid = (sid = store_id K md)"

text \<open>\<open>initial_state_size.div_ceil(BLOCK_SIZE)\<close>\<close>

definition block_count :: "'h metadata_header \<Rightarrow> nat" where
  "block_count md = (unat (md_initial_state_size md) + block_size - 1) div block_size"

section \<open>Chunks\<close>

lemma concat_chunks: "0 < n \<Longrightarrow> concat (chunks n xs) = xs"
  by (induction n xs rule: chunks.induct) auto

lemma length_chunks: "0 < n \<Longrightarrow> length (chunks n xs) = (length xs + n - 1) div n"
proof (induction n xs rule: chunks.induct)
  case (2 n x xs)
  show ?case
  proof (cases "length xs < n - 1")
    case True
    moreover from this "2.prems" have "(length xs + n) div n = 1"
      by (subst div_add_self2) auto
    ultimately show ?thesis using 2 by simp
  next
    case False
    have "(length xs + n) div n = Suc ((length xs - (n - 1) + n - 1) div n)"
      using False "2.prems" by (simp add: div_add_self2)
    with 2 show ?thesis by simp
  qed
qed simp

lemma chunks_bounded: "0 < n \<Longrightarrow> c \<in> set (chunks n xs) \<Longrightarrow> 0 < length c \<and> length c \<le> n"
  by (induction n xs rule: chunks.induct) auto

lemma to_be_bytes_inj: "to_be_bytes x = to_be_bytes y \<longleftrightarrow> x = y"
proof
  assume eq: "to_be_bytes x = to_be_bytes y"
  have "bit x n = bit y n" if "n < 64" for n
  proof -
    have all: "\<forall>k \<in> set [7, 6, 5, 4, 3, 2, 1, 0]. ucast (drop_bit (8 * k) x) = (ucast (drop_bit (8 * k) y) :: u8)"
      using eq unfolding to_be_bytes_def map_eq_conv .
    have "n div 8 < 8" using that by simp
    then have "n div 8 \<in> set [7, 6, 5, 4, 3, 2, 1, 0]" by (simp, linarith)
    with all have "ucast (drop_bit (8 * (n div 8)) x) = (ucast (drop_bit (8 * (n div 8)) y) :: u8)" by blast
    then have "bit (ucast (drop_bit (8 * (n div 8)) x) :: u8) (n mod 8) =
        bit (ucast (drop_bit (8 * (n div 8)) y) :: u8) (n mod 8)" by simp
    then show ?thesis by (simp add: bit_ucast_iff bit_drop_bit_eq)
  qed
  then show "x = y" by (intro bit_eqI) simp
qed simp

section \<open>Properties\<close>

lemma store_id_stream:
  "store_id K md = hash_finalize K (foldl (hash_update K) (hash_new K)
     [md_nonce md, [as_byte (md_protocol_version md)], md_store_type md,
      to_be_bytes (md_initial_state_size md), hash_bytes K (md_merkle_root md)])"
  by (simp add: store_id_def Let_def)

text \<open>A store id commits to its metadata: when the hash has no collisions between input streams,
  two headers that a peer can pass off under one store id are equal, field by field.\<close>

theorem store_id_binding:
  assumes free: "\<And>xs ys. hash_finalize K (foldl (hash_update K) (hash_new K) xs) =
      hash_finalize K (foldl (hash_update K) (hash_new K) ys) \<Longrightarrow> concat xs = concat ys"
    and bytes: "\<And>a b. hash_bytes K a = hash_bytes K b \<Longrightarrow> a = b"
    and wf: "length (md_nonce md) = 32" "length (md_nonce md') = 32"
      "length (md_store_type md) = 32" "length (md_store_type md') = 32"
    and valid: "validate_store_id K md sid" "validate_store_id K md' sid"
  shows "md = (md' :: 'h metadata_header)"
proof -
  let ?ss = "\<lambda>m :: 'h metadata_header. [md_nonce m, [as_byte (md_protocol_version m)], md_store_type m,
      to_be_bytes (md_initial_state_size m), hash_bytes K (md_merkle_root m)]"
  have len: "length (to_be_bytes w) = 8" for w by (simp add: to_be_bytes_def)
  have "concat (?ss md) = concat (?ss md')"
    using valid unfolding validate_store_id_def store_id_stream by (intro free) simp
  then have "md_nonce md = md_nonce md' \<and> md_store_type md = md_store_type md' \<and>
      to_be_bytes (md_initial_state_size md) = to_be_bytes (md_initial_state_size md') \<and>
      hash_bytes K (md_merkle_root md) = hash_bytes K (md_merkle_root md')"
    using wf len by (simp add: append_eq_append_conv)
  then have "md_nonce md = md_nonce md'" "md_store_type md = md_store_type md'"
    "md_initial_state_size md = md_initial_state_size md'" "md_merkle_root md = md_merkle_root md'"
    using bytes by (simp_all add: to_be_bytes_inj)
  moreover have "md_protocol_version md = md_protocol_version md'"
    by (cases "md_protocol_version md"; cases "md_protocol_version md'") simp
  ultimately show ?thesis by simp
qed

definition demo_metadata :: "bytes metadata_header" where
  "demo_metadata = \<lparr>md_nonce = replicate 32 1, md_protocol_version = V0, md_store_type = replicate 32 2,
     md_initial_state_size = 3, md_merkle_root = [1, 2, 3]\<rparr>"

lemma foldl_plain_hash: "foldl (hash_update plain_hash) s xs = s @ concat xs"
  by (induction xs arbitrary: s) (simp_all add: plain_hash_def)

lemma store_id_binding_witness:
  "demo_metadata = demo_metadata\<lparr>md_nonce := replicate 32 1\<rparr> \<and>
   validate_store_id plain_hash demo_metadata (store_id plain_hash demo_metadata)"
proof -
  have fin: "hash_finalize plain_hash s = s" "hash_new plain_hash = []" for s
    by (simp_all add: plain_hash_def)
  have "demo_metadata = demo_metadata\<lparr>md_nonce := replicate 32 1\<rparr>"
  proof (rule store_id_binding [of plain_hash _ _ "store_id plain_hash demo_metadata"])
    show "concat xs = concat ys" if "hash_finalize plain_hash (foldl (hash_update plain_hash) (hash_new plain_hash) xs) =
        hash_finalize plain_hash (foldl (hash_update plain_hash) (hash_new plain_hash) ys)" for xs ys
      using that by (simp add: fin foldl_plain_hash)
    show "a = b" if "hash_bytes plain_hash a = hash_bytes plain_hash b" for a b
      using that enc_node_prefix [of a "[]" b "[]"] by (simp add: plain_hash_def)
  qed (simp_all add: demo_metadata_def validate_store_id_def)
  then show ?thesis by (simp add: validate_store_id_def)
qed

text \<open>A new store's metadata describes its blocks: the announced block count is the number of
  leaves of the Merkle tree whose root is in the metadata, the blocks put together are the
  serialized state, and none is longer than \<open>BLOCK_SIZE\<close>.\<close>

theorem metadata_describes_blocks:
  assumes "to_vec x \<noteq> []" and "length (to_vec x) \<le> u64_max"
  shows "\<exists>b md. metadata_body_new K to_vec x = Ret b \<and> metadata_generate rnd ty b = Ret md \<and>
    block_count md = leaf_count (mb_merkle_tree b) \<and>
    merkle_root (mb_merkle_tree b) = Ret (md_merkle_root md) \<and>
    block_count md = length (chunks block_size (mb_initial_state b)) \<and>
    concat (chunks block_size (mb_initial_state b)) = to_vec x \<and>
    (\<forall>c \<in> set (chunks block_size (mb_initial_state b)). length c \<le> block_size)"
proof -
  let ?cs = "chunks block_size (to_vec x)"
  have pos: "0 < block_size" by (simp add: block_size_def)
  have n: "length ?cs = (length (to_vec x) + block_size - 1) div block_size" by (rule length_chunks [OF pos])
  have ne: "?cs \<noteq> []" using assms(1) by (cases "to_vec x") auto
  have small: "2 * length ?cs \<le> u64_max"
    using assms(2) unfolding n by (simp add: block_size_def u64_max_def)
  obtain t where t: "from_chunks K ?cs = Ret t" "length (nodes t) = 2 * length ?cs - 1"
    using from_chunks_tree [OF ne small, of K] by (auto simp: tree_over_def)
  have pos_n: "0 < length ?cs" using ne by simp
  then have "0 < length (nodes t)" using t(2) by linarith
  then have root: "merkle_root t = Ret (nodes t ! 0)" by (simp add: merkle_root_def)
  have size: "unat (of_nat (length (to_vec x)) :: u64) = length (to_vec x)"
    using assms(2) by (simp add: unat_of_nat take_bit_eq_mod u64_max_def)
  have "leaf_count t = length ?cs" using t(2) pos_n by (simp add: leaf_count_def)
  then show ?thesis
    using t root size n concat_chunks [OF pos] chunks_bounded [OF pos]
    by (auto simp: metadata_body_new_def metadata_generate_def block_count_def Let_def)
qed

lemma metadata_describes_blocks_witness:
  "\<exists>b md. metadata_body_new plain_hash (\<lambda>x. x) [1, 2, 3] = Ret b \<and>
     metadata_generate (replicate 32 1) (replicate 32 2) b = Ret md \<and> block_count md = leaf_count (mb_merkle_tree b)"
  using metadata_describes_blocks [of "\<lambda>x. x" "[1, 2, 3]" plain_hash "replicate 32 1" "replicate 32 2"]
  by (auto simp: u64_max_def)

end
