(* ===== verification/StoreMessages.thy ===== *)
theory StoreMessages
  imports Metadata
begin

text \<open>
  The messages of \<open>ossa-core/src/protocol/store_peer/v0.rs\<close>: requests, responses, and the
  conversions between a message of one kind and the type that goes over the stream. A
  \<open>BitArr!\<close> is a list of its bits, a header travels with its serialized body.
\<close>

definition max_have_headers :: nat where "max_have_headers = 32"
definition max_deliver_headers :: nat where "max_deliver_headers = 32"

type_synonym header_bitmap = "bool list"

datatype 'id store_sync_request =
    MetadataHeader
  | MerkleHashes "range list"
  | InitialStateBlocks "range list"
  | ECGInitialSync "'id list"
  | ECGSync "'id list" header_bitmap

datatype 'a store_sync_response = Response 'a | Wait | Reject

datatype ('id, 'hd) ecg_sync_response =
    EcgResponse "'id list" "('hd \<times> bytes) list"
  | EcgWait

datatype ('h, 'id, 'hd) store_sync_msg =
    Request "'id store_sync_request"
  | MetadataHeaderResponse "'h metadata_header store_sync_response"
  | MerkleResponse "'h list store_sync_response"
  | BlocksResponse "bytes option list store_sync_response"
  | ECGResponse "('id, 'hd) ecg_sync_response"

text \<open>The \<open>TryInto\<close> instances: \<open>None\<close> is their \<open>Err(())\<close>.\<close>

fun try_into_request :: "('h, 'id, 'hd) store_sync_msg \<Rightarrow> 'id store_sync_request option" where
  "try_into_request (Request r) = Some r"
| "try_into_request _ = None"

fun try_into_metadata_response ::
    "('h, 'id, 'hd) store_sync_msg \<Rightarrow> 'h metadata_header store_sync_response option" where
  "try_into_metadata_response (MetadataHeaderResponse r) = Some r"
| "try_into_metadata_response _ = None"

fun try_into_merkle_response ::
    "('h, 'id, 'hd) store_sync_msg \<Rightarrow> 'h list store_sync_response option" where
  "try_into_merkle_response (MerkleResponse r) = Some r"
| "try_into_merkle_response _ = None"

fun try_into_block_response ::
    "('h, 'id, 'hd) store_sync_msg \<Rightarrow> bytes option list store_sync_response option" where
  "try_into_block_response (BlocksResponse r) = Some r"
| "try_into_block_response _ = None"

fun try_into_ecg_response :: "('h, 'id, 'hd) store_sync_msg \<Rightarrow> ('id, 'hd) ecg_sync_response option" where
  "try_into_ecg_response (ECGResponse r) = Some r"
| "try_into_ecg_response _ = None"

end
