(* ===== verification/Ecg.thy ===== *)
theory Ecg
  imports Prelude
begin

text \<open>
  \<open>ossa-core/src/store/ecg.rs\<close>: the encrypted causal graph of a store. A state holds the
  dependency graph (\<open>daggy::StableDag\<close>, third-party code), the nodes without parents, a map
  from header ids to what is stored for them, and the tips.

  The graph library is an argument, the record \<open>dag_ops\<close>; the locale \<open>stable_dag\<close> states what
  the code relies on, and it is interpreted on a reference graph of node and edge lists. The
  trait \<open>ECGHeader\<close> is the record \<open>header_ops\<close>. \<open>BTreeMap\<close> and \<open>BTreeSet\<close> are a map and sets;
  iteration over a \<open>BTreeSet\<close> is in increasing order.
\<close>

section \<open>Interfaces\<close>

record ('h, 'hd) header_ops =
  get_parent_ids :: "'hd \<Rightarrow> 'h list"
  get_header_id :: "'hd \<Rightarrow> 'h"
  validate_header :: "'hd \<Rightarrow> 'h \<Rightarrow> bool"

record ('g, 'h) dag_ops =
  dag_new :: 'g
  dag_add_node :: "'g \<Rightarrow> 'h \<Rightarrow> 'g \<times> nat"
  dag_add_edges :: "'g \<Rightarrow> (nat \<times> nat) list \<Rightarrow> 'g \<times> bool"
  dag_parents :: "'g \<Rightarrow> nat \<Rightarrow> nat list"
  dag_children :: "'g \<Rightarrow> nat \<Rightarrow> nat list"
  dag_node_weight :: "'g \<Rightarrow> nat \<Rightarrow> 'h option"

section \<open>State\<close>

record 'hd node_info =
  graph_index :: nat
  depth :: nat
  header :: 'hd
  operations :: bytes

record ('g, 'h, 'hd) ecg =
  dependency_graph :: 'g
  root_nodes :: "'h set"
  node_info_map :: "'h \<rightharpoonup> 'hd node_info"
  tips :: "'h set"

definition ecg_new :: "('g, 'h) dag_ops \<Rightarrow> ('g, 'h, 'hd) ecg" where
  "ecg_new D = \<lparr>dependency_graph = dag_new D, root_nodes = {}, node_info_map = Map.empty, tips = {}\<rparr>"

section \<open>Reading\<close>

definition contains :: "('g, 'h, 'hd) ecg \<Rightarrow> 'h \<Rightarrow> bool" where
  "contains st h = (case node_info_map st h of Some _ \<Rightarrow> True | None \<Rightarrow> False)"

definition get_parents :: "('g, 'h) dag_ops \<Rightarrow> ('g, 'h, 'hd) ecg \<Rightarrow> 'h \<Rightarrow> 'h list option" where
  "get_parents D st h =
     (case node_info_map st h of
        None \<Rightarrow> None
      | Some ni \<Rightarrow>
          those (map (dag_node_weight D (dependency_graph st))
                   (dag_parents D (dependency_graph st) (graph_index ni))))"

definition get_parents_with_depth ::
    "('g, 'h) dag_ops \<Rightarrow> ('g, 'h, 'hd) ecg \<Rightarrow> 'h \<Rightarrow> (nat \<times> 'h) list option" where
  "get_parents_with_depth D st h =
     (case node_info_map st h of
        None \<Rightarrow> None
      | Some ni \<Rightarrow>
          those (map (\<lambda>parent_idx.
                   case dag_node_weight D (dependency_graph st) parent_idx of
                     None \<Rightarrow> None
                   | Some parent_id \<Rightarrow> map_option (\<lambda>i. (depth i, parent_id)) (node_info_map st parent_id))
                 (dag_parents D (dependency_graph st) (graph_index ni))))"

definition get_children_with_depth ::
    "('g, 'h) dag_ops \<Rightarrow> ('g, 'h, 'hd) ecg \<Rightarrow> 'h \<Rightarrow> (nat reverse \<times> 'h) list option" where
  "get_children_with_depth D st h =
     (case node_info_map st h of
        None \<Rightarrow> None
      | Some ni \<Rightarrow>
          those (map (\<lambda>child_idx.
                   case dag_node_weight D (dependency_graph st) child_idx of
                     None \<Rightarrow> None
                   | Some child_id \<Rightarrow>
                       map_option (\<lambda>i. (Reverse (depth i), child_id)) (node_info_map st child_id))
                 (dag_children D (dependency_graph st) (graph_index ni))))"

definition get_header_depth :: "('g, 'h, 'hd) ecg \<Rightarrow> 'h \<Rightarrow> nat option" where
  "get_header_depth st n = map_option depth (node_info_map st n)"

definition get_header :: "('g, 'h, 'hd) ecg \<Rightarrow> 'h \<Rightarrow> 'hd option" where
  "get_header st n = map_option header (node_info_map st n)"

definition get_node :: "('g, 'h, 'hd) ecg \<Rightarrow> 'h \<Rightarrow> 'hd node_info option" where
  "get_node st n = node_info_map st n"

definition is_root_node :: "('g, 'h, 'hd) ecg \<Rightarrow> 'h \<Rightarrow> bool" where
  "is_root_node st h = (h \<in> root_nodes st)"

definition get_root_nodes_with_depth ::
    "('g, 'h :: linorder, 'hd) ecg \<Rightarrow> (nat reverse \<times> 'h) list" where
  "get_root_nodes_with_depth st = map (\<lambda>h. (Reverse 1, h)) (sorted_list_of_set (root_nodes st))"

section \<open>Inserting a header\<close>

text \<open>
  The branch on \<open>parents.is_empty()\<close>: the graph indices of the parents, the depth of the new
  node and the state with its roots and tips updated, or nothing where the code returns
  \<open>false\<close>. Nothing is written before the parents are known. \<open>depth + 1\<close> is checked.
\<close>

definition place_header ::
    "('h, 'hd) header_ops \<Rightarrow> ('g, 'h, 'hd) ecg \<Rightarrow> 'hd \<Rightarrow> (nat list \<times> nat \<times> ('g, 'h, 'hd) ecg) option res" where
  "place_header H st hdr =
     (let header_id = get_header_id H hdr; parents = get_parent_ids H hdr in
      if parents = [] then
        (if header_id \<in> root_nodes st then Ret None
         else Ret (Some ([], 1, st\<lparr>root_nodes := insert header_id (root_nodes st),
                                   tips := insert header_id (tips st)\<rparr>)))
      else
        case those (map (node_info_map st) parents) of
          None \<Rightarrow> Ret None
        | Some infos \<Rightarrow>
            let parent_idxs = map graph_index infos;
                d = foldl min u64_max (map depth infos);
                t = foldl (\<lambda>t parent_id. t - {parent_id}) (tips st) parents
            in bindR (add_u64 d 1) (\<lambda>d'.
               Ret (Some (parent_idxs, d', st\<lparr>tips := insert header_id t\<rparr>))))"

definition insert_header ::
    "('g, 'h) dag_ops \<Rightarrow> ('h, 'hd) header_ops \<Rightarrow> ('g, 'h, 'hd) ecg \<Rightarrow> 'hd \<Rightarrow> bytes
     \<Rightarrow> (bool \<times> ('g, 'h, 'hd) ecg) res" where
  "insert_header D H st hdr ops =
     (let header_id = get_header_id H hdr in
      if \<not> validate_header H hdr header_id then Ret (False, st)
      else if node_info_map st header_id \<noteq> None then Ret (False, st)
      else
        bindR (place_header H st hdr) (\<lambda>r.
        case r of
          None \<Rightarrow> Ret (False, st)
        | Some (parent_idxs, d, st1) \<Rightarrow>
            let (g1, graph_idx) = dag_add_node D (dependency_graph st1) header_id;
                ni = \<lparr>graph_index = graph_idx, depth = d, header = hdr, operations = ops\<rparr>;
                st2 = st1\<lparr>dependency_graph := g1, node_info_map := (node_info_map st1)(header_id \<mapsto> ni)\<rparr>;
                (g2, ok) = dag_add_edges D g1 (map (\<lambda>parent_idx. (parent_idx, graph_idx)) parent_idxs);
                st3 = st2\<lparr>dependency_graph := g2\<rparr>
            in Ret (ok, st3)))"

section \<open>Ancestry\<close>

definition visit_parent :: "nat list \<times> nat set \<Rightarrow> nat \<Rightarrow> nat list \<times> nat set" where
  "visit_parent qv pid =
     (case qv of (queue, visited) \<Rightarrow>
        if pid \<in> visited then (queue, visited) else (queue @ [pid], insert pid visited))"

partial_function (option) ancestor_bfs ::
    "('g, 'h) dag_ops \<Rightarrow> 'g \<Rightarrow> nat \<Rightarrow> nat list \<Rightarrow> nat set \<Rightarrow> bool option" where
  "ancestor_bfs D g anid queue visited =
     (case queue of
        [] \<Rightarrow> Some False
      | nid # rest \<Rightarrow>
          if nid = anid then Some True
          else
            let qv = foldl visit_parent (rest, visited) (dag_parents D g nid)
            in ancestor_bfs D g anid (fst qv) (snd qv))"

declare ancestor_bfs.simps [code]

text \<open>The outer \<open>option\<close> is \<open>None\<close> when the search does not return; the inner one is the code's.\<close>

definition is_ancestor_of ::
    "('g, 'h) dag_ops \<Rightarrow> ('g, 'h, 'hd) ecg \<Rightarrow> 'h \<Rightarrow> 'h \<Rightarrow> bool option option" where
  "is_ancestor_of D st ancestor descendent =
     (case node_info_map st ancestor of
        None \<Rightarrow> Some None
      | Some ani \<Rightarrow>
          (case node_info_map st descendent of
             None \<Rightarrow> Some None
           | Some dni \<Rightarrow>
               map_option Some
                 (ancestor_bfs D (dependency_graph st) (graph_index ani) [graph_index dni] {graph_index dni})))"

section \<open>The contract of the graph library\<close>

locale stable_dag =
  fixes D :: "('g, 'h) dag_ops" and dag_ok :: "'g \<Rightarrow> bool"
  assumes new_ok: "dag_ok (dag_new D)"
    and new_weight: "dag_node_weight D (dag_new D) i = None"
    and parents_in: "dag_ok g \<Longrightarrow> p \<in> set (dag_parents D g c) \<Longrightarrow>
          dag_node_weight D g p \<noteq> None \<and> dag_node_weight D g c \<noteq> None"
    and children_in: "dag_ok g \<Longrightarrow> c \<in> set (dag_children D g p) \<Longrightarrow>
          dag_node_weight D g p \<noteq> None \<and> dag_node_weight D g c \<noteq> None"
    and add_node: "dag_ok g \<Longrightarrow> dag_add_node D g x = (g', i) \<Longrightarrow>
          dag_ok g' \<and> dag_node_weight D g i = None \<and> dag_node_weight D g' = (dag_node_weight D g)(i \<mapsto> x) \<and>
          dag_parents D g' = dag_parents D g \<and> dag_children D g' = dag_children D g"
    and add_edges: "dag_ok g \<Longrightarrow> dag_node_weight D g i \<noteq> None \<Longrightarrow> dag_children D g i = [] \<Longrightarrow>
          (\<And>p. p \<in> set ps \<Longrightarrow> dag_node_weight D g p \<noteq> None \<and> p \<noteq> i) \<Longrightarrow>
          \<exists>g'. dag_add_edges D g (map (\<lambda>p. (p, i)) ps) = (g', True) \<and> dag_ok g' \<and>
            dag_node_weight D g' = dag_node_weight D g \<and>
            (\<forall>j. mset (dag_parents D g' j) = mset (dag_parents D g j) + (if j = i then mset ps else {#})) \<and>
            (\<forall>j. mset (dag_children D g' j) = mset (dag_children D g j) + replicate_mset (count (mset ps) j) i)"

section \<open>A reference graph\<close>

text \<open>
  Nodes by index and edges, most recent first, as daggy iterates them. Adding edges that would
  close a cycle is refused and leaves the graph as it was.
\<close>

type_synonym 'h list_graph = "'h list \<times> (nat \<times> nat) list"

fun reaches :: "(nat \<times> nat) list \<Rightarrow> nat \<Rightarrow> nat \<Rightarrow> nat \<Rightarrow> bool" where
  "reaches es 0 a b = (a = b)"
| "reaches es (Suc n) a b = (a = b \<or> list_ex (\<lambda>e. fst e = a \<and> reaches es n (snd e) b) es)"

definition list_add_edges :: "'h list_graph \<Rightarrow> (nat \<times> nat) list \<Rightarrow> 'h list_graph \<times> bool" where
  "list_add_edges g new =
     (case g of (ns, es) \<Rightarrow>
        let es' = rev new @ es in
        if list_ex (\<lambda>e. reaches es' (length ns) (snd e) (fst e)) new then ((ns, es), False)
        else ((ns, es'), True))"

definition list_dag :: "('h list_graph, 'h) dag_ops" where
  "list_dag =
     \<lparr>dag_new = ([], []),
      dag_add_node = (\<lambda>g x. ((fst g @ [x], snd g), length (fst g))),
      dag_add_edges = list_add_edges,
      dag_parents = (\<lambda>g c. map fst (filter (\<lambda>e. snd e = c) (snd g))),
      dag_children = (\<lambda>g p. map snd (filter (\<lambda>e. fst e = p) (snd g))),
      dag_node_weight = (\<lambda>g i. if i < length (fst g) then Some (fst g ! i) else None)\<rparr>"

definition list_dag_ok :: "'h list_graph \<Rightarrow> bool" where
  "list_dag_ok g \<longleftrightarrow> (\<forall>(a, b) \<in> set (snd g). a < length (fst g) \<and> b < length (fst g))"

lemma reaches_stuck: "(\<And>e. e \<in> set es \<Longrightarrow> fst e \<noteq> a) \<Longrightarrow> reaches es n a b \<longleftrightarrow> a = b"
  by (cases n) (auto simp: list_ex_iff)

lemma list_add_edges_leaf:
  assumes "filter (\<lambda>e. fst e = i) es = []" and "\<And>p. p \<in> set ps \<Longrightarrow> p \<noteq> i"
  shows "list_add_edges (ns, es) (map (\<lambda>p. (p, i)) ps) = ((ns, rev (map (\<lambda>p. (p, i)) ps) @ es), True)"
proof -
  have stuck: "fst e \<noteq> i" if "e \<in> set (rev (map (\<lambda>p. (p, i)) ps) @ es)" for e
  proof -
    from that consider p where "p \<in> set ps" "e = (p, i)" | "e \<in> set es" by auto
    then show ?thesis using assms by cases (auto simp: filter_empty_conv)
  qed
  have "\<not> reaches (rev (map (\<lambda>p. (p, i)) ps) @ es) (length ns) i p" if "p \<in> set ps" for p
    using assms(2) [OF that] by (subst reaches_stuck) (use stuck in auto)
  then have "\<not> list_ex (\<lambda>e. reaches (rev (map (\<lambda>p. (p, i)) ps) @ es) (length ns) (snd e) (fst e))
      (map (\<lambda>p. (p, i)) ps)"
    by (auto simp only: list_ex_iff set_map image_iff fst_conv snd_conv)
  then show ?thesis by (simp only: list_add_edges_def prod.case Let_def if_False)
qed

interpretation list_dag: stable_dag list_dag list_dag_ok
proof (unfold_locales, goal_cases)
  case (6 g i ps)
  obtain ns es where g: "g = (ns, es)" by force
  have "filter (\<lambda>e. fst e = i) es = []" using 6(3) by (simp add: list_dag_def g)
  from list_add_edges_leaf [OF this, of ps ns] 6(4) have
    add: "list_add_edges g (map (\<lambda>p. (p, i)) ps) = ((ns, rev (map (\<lambda>p. (p, i)) ps) @ es), True)"
    by (simp add: g)
  have into: "mset (map fst (filter (\<lambda>e. snd e = j) (map (\<lambda>p. (p, i)) qs))) =
      (if j = i then mset qs else {#})" for j qs
    by (induction qs) (auto simp del: mset_map mset_filter)
  have out: "mset (map snd (filter (\<lambda>e. fst e = j) (map (\<lambda>p. (p, i)) qs))) =
      replicate_mset (count (mset qs) j) i" for j qs
    by (induction qs) (auto simp del: mset_map mset_filter)
  let ?g = "(ns, rev (map (\<lambda>p. (p, i)) ps) @ es)"
  have "mset (dag_parents list_dag ?g j) = mset (dag_parents list_dag g j) + (if j = i then mset ps else {#})" for j
    using into [of j "rev ps"] by (simp only: list_dag_def dag_ops.select_convs g snd_conv filter_append
        map_append mset_append rev_map mset_rev add.commute)
  moreover have "mset (dag_children list_dag ?g j) =
      mset (dag_children list_dag g j) + replicate_mset (count (mset ps) j) i" for j
    using out [of j "rev ps"] by (simp only: list_dag_def dag_ops.select_convs g snd_conv filter_append
        map_append mset_append rev_map mset_rev add.commute)
  moreover have "p < length ns" if "p \<in> set ps" for p
    using 6(4) [OF that] by (simp add: list_dag_def g split: if_splits)
  then have "list_dag_ok ?g" using 6(1,2) by (auto simp: list_dag_def list_dag_ok_def g split: if_splits)
  ultimately show ?case using add by (intro exI [of _ ?g]) (simp add: list_dag_def g fun_eq_iff)
qed (auto simp: list_dag_def list_dag_ok_def fun_eq_iff nth_append less_Suc_eq)

end
