(* ===== verification/EcgInvariant.thy ===== *)
theory EcgInvariant
  imports Ecg
begin

text \<open>
  What an encrypted causal graph is, and that \<open>insert_header\<close> of \<open>store/ecg.rs\<close> keeps it: the
  abstract state is the map from header ids to headers and operations; the dependency graph,
  the roots, the tips and the depths are determined by it. The lemmas about reading hold for
  every graph library that meets \<open>stable_dag\<close>.
\<close>

section \<open>The abstract graph\<close>

definition parent_rel :: "('h, 'hd) header_ops \<Rightarrow> ('h \<rightharpoonup> 'hd node_info) \<Rightarrow> ('h \<times> 'h) set" where
  "parent_rel H m = {(p, c). \<exists>ni. m c = Some ni \<and> p \<in> set (get_parent_ids H (header ni))}"

definition abs_ecg :: "('g, 'h, 'hd) ecg \<Rightarrow> ('h \<rightharpoonup> 'hd \<times> bytes)" where
  "abs_ecg st h = map_option (\<lambda>ni. (header ni, operations ni)) (node_info_map st h)"

text \<open>The headers that may be added: valid, new, with known parents.\<close>

definition insertable :: "('h, 'hd) header_ops \<Rightarrow> ('g, 'h, 'hd) ecg \<Rightarrow> 'hd \<Rightarrow> bool" where
  "insertable H st hdr \<longleftrightarrow>
     validate_header H hdr (get_header_id H hdr) \<and>
     get_header_id H hdr \<notin> dom (node_info_map st) \<and>
     set (get_parent_ids H hdr) \<subseteq> dom (node_info_map st)"

definition depth_of :: "('h \<rightharpoonup> 'hd node_info) \<Rightarrow> 'h \<Rightarrow> nat" where
  "depth_of m h = (case m h of Some ni \<Rightarrow> depth ni | None \<Rightarrow> 0)"

definition depth_from :: "('h \<rightharpoonup> 'hd node_info) \<Rightarrow> 'h list \<Rightarrow> nat" where
  "depth_from m ps = (if ps = [] then 1 else 1 + Min (depth_of m ` set ps))"

text \<open>The graph holds the nodes and parent edges of the map.\<close>

definition graph_ok :: "('g, 'h) dag_ops \<Rightarrow> ('h, 'hd) header_ops \<Rightarrow> 'g \<Rightarrow> ('h \<rightharpoonup> 'hd node_info) \<Rightarrow> bool" where
  "graph_ok D H g m \<longleftrightarrow>
     (\<forall>h ni. m h = Some ni \<longrightarrow>
        dag_node_weight D g (graph_index ni) = Some h \<and>
        mset (map (dag_node_weight D g) (dag_parents D g (graph_index ni))) =
          mset (map Some (get_parent_ids H (header ni))) \<and>
        dag_node_weight D g ` set (dag_children D g (graph_index ni)) = Some ` {c. (h, c) \<in> parent_rel H m}) \<and>
     (\<forall>i h. dag_node_weight D g i = Some h \<longrightarrow> (\<exists>ni. m h = Some ni \<and> graph_index ni = i))"

definition map_ok :: "('h, 'hd) header_ops \<Rightarrow> ('h \<rightharpoonup> 'hd node_info) \<Rightarrow> bool" where
  "map_ok H m \<longleftrightarrow>
     finite (dom m) \<and> acyclic (parent_rel H m) \<and>
     (\<forall>h ni. m h = Some ni \<longrightarrow>
        get_header_id H (header ni) = h \<and> validate_header H (header ni) h \<and>
        set (get_parent_ids H (header ni)) \<subseteq> dom m \<and>
        depth ni = depth_from m (get_parent_ids H (header ni)) \<and> depth ni \<le> card (dom m))"

definition ecg_ok :: "('g, 'h) dag_ops \<Rightarrow> ('g \<Rightarrow> bool) \<Rightarrow> ('h, 'hd) header_ops \<Rightarrow> ('g, 'h, 'hd) ecg \<Rightarrow> bool" where
  "ecg_ok D dag_ok H st \<longleftrightarrow>
     dag_ok (dependency_graph st) \<and>
     graph_ok D H (dependency_graph st) (node_info_map st) \<and>
     map_ok H (node_info_map st) \<and>
     root_nodes st = {h. \<exists>ni. node_info_map st h = Some ni \<and> get_parent_ids H (header ni) = []} \<and>
     tips st = {h \<in> dom (node_info_map st). \<forall>c. (h, c) \<notin> parent_rel H (node_info_map st)}"

lemma parent_rel_insert:
  assumes "m x = None"
  shows "parent_rel H (m(x \<mapsto> ni)) = parent_rel H m \<union> set (get_parent_ids H (header ni)) \<times> {x}"
  using assms by (auto simp: parent_rel_def split: if_splits)

lemma parent_rel_dom: "map_ok H m \<Longrightarrow> (p, c) \<in> parent_rel H m \<Longrightarrow> p \<in> dom m \<and> c \<in> dom m"
  by (auto simp: parent_rel_def map_ok_def)

section \<open>Adding a node to the map\<close>

lemma depth_from_cong:
  "(\<And>p. p \<in> set ps \<Longrightarrow> depth_of m p = depth_of m' p) \<Longrightarrow> depth_from m ps = depth_from m' ps"
  by (simp add: depth_from_def cong: image_cong)

lemma acyclic_insert_node:
  assumes "acyclic r" and "\<And>c. (x, c) \<notin> r" and "x \<notin> P"
  shows "acyclic (r \<union> P \<times> {x})"
proof -
  have old: "(a, b) \<in> r\<^sup>+ \<or> b = x" if "(a, b) \<in> (r \<union> P \<times> {x})\<^sup>+" for a b
    using that by (induction rule: trancl_induct) (use assms in \<open>auto intro: trancl.intros\<close>)
  have from_x: "(x, b) \<notin> (r \<union> P \<times> {x})\<^sup>+" for b
  proof
    assume "(x, b) \<in> (r \<union> P \<times> {x})\<^sup>+"
    then show False by (rule converse_tranclE) (use assms in auto)
  qed
  show ?thesis using assms(1) old from_x by (metis acyclic_def)
qed

lemma map_ok_insert:
  assumes ok: "map_ok H m" and new: "m x = None"
    and ni: "get_header_id H (header ni) = x" "validate_header H (header ni) x"
      "set (get_parent_ids H (header ni)) \<subseteq> dom m" "depth ni = depth_from m (get_parent_ids H (header ni))"
  shows "map_ok H (m(x \<mapsto> ni))"
proof -
  let ?m = "m(x \<mapsto> ni)" let ?ps = "get_parent_ids H (header ni)"
  have fin: "finite (dom m)" and x: "x \<notin> dom m" using ok new by (auto simp: map_ok_def)
  have card: "card (dom ?m) = Suc (card (dom m))" using fin x by simp
  have same: "depth_from ?m qs = depth_from m qs" if "set qs \<subseteq> dom m" for qs
    using that x by (intro depth_from_cong) (auto simp: depth_of_def)
  have "depth_of m p \<le> card (dom m)" if "p \<in> dom m" for p
  proof -
    from that obtain n where "m p = Some n" by auto
    moreover from this ok have "depth n \<le> card (dom m)" unfolding map_ok_def by blast
    ultimately show ?thesis by (simp add: depth_of_def)
  qed
  then have deep: "depth_from m ?ps \<le> Suc (card (dom m))"
    using ni(3) Min_in [of "depth_of m ` set ?ps"] by (fastforce simp: depth_from_def)
  have acyc: "acyclic (parent_rel H ?m)"
    unfolding parent_rel_insert [of m x H ni, OF new]
    by (rule acyclic_insert_node) (use ok x ni(3) parent_rel_dom [OF ok] in \<open>auto simp: map_ok_def\<close>)
  have old: "get_header_id H (header n) = h \<and> validate_header H (header n) h \<and>
      set (get_parent_ids H (header n)) \<subseteq> dom m \<and> depth n = depth_from m (get_parent_ids H (header n)) \<and>
      depth n \<le> card (dom m)" if "m h = Some n" for h n
    using that ok unfolding map_ok_def by blast
  have "get_header_id H (header n) = h \<and> validate_header H (header n) h \<and>
      set (get_parent_ids H (header n)) \<subseteq> dom ?m \<and> depth n = depth_from ?m (get_parent_ids H (header n)) \<and>
      depth n \<le> card (dom ?m)" if "?m h = Some n" for h n
  proof (cases "h = x")
    case True
    with that ni same [OF ni(3)] deep card show ?thesis by auto
  next
    case False
    with that have "m h = Some n" by simp
    from old [OF this] same [of "get_parent_ids H (header n)"] card show ?thesis by auto
  qed
  moreover have "finite (dom ?m)" using fin by simp
  ultimately show ?thesis using acyc unfolding map_ok_def by blast
qed

section \<open>Adding a node to the graph\<close>

context stable_dag
begin

lemma graph_okD:
  assumes "graph_ok D H g m" and "m h = Some n"
  shows "dag_node_weight D g (graph_index n) = Some h"
    and "mset (map (dag_node_weight D g) (dag_parents D g (graph_index n))) = mset (map Some (get_parent_ids H (header n)))"
    and "dag_node_weight D g ` set (dag_children D g (graph_index n)) = Some ` {c. (h, c) \<in> parent_rel H m}"
  using assms unfolding graph_ok_def by blast+

text \<open>A new leaf: edges into it from old nodes change nothing else.\<close>

lemma add_leaf:
  assumes g: "dag_ok g" and add: "dag_add_node D g x = (g1, i)"
    and idxs: "\<And>p. p \<in> set idxs \<Longrightarrow> dag_node_weight D g p \<noteq> None"
  shows "\<exists>g2. dag_add_edges D g1 (map (\<lambda>p. (p, i)) idxs) = (g2, True) \<and> dag_ok g2 \<and>
    dag_node_weight D g i = None \<and> dag_node_weight D g2 = (dag_node_weight D g)(i \<mapsto> x) \<and>
    (\<forall>j. mset (dag_parents D g2 j) = (if j = i then mset idxs else mset (dag_parents D g j))) \<and>
    (\<forall>j. set (dag_children D g2 j) =
       (if j = i then {} else set (dag_children D g j) \<union> (if j \<in> set idxs then {i} else {})))"
proof -
  note node = add_node [OF g add]
  then have new: "dag_node_weight D g i = None" by blast
  have no_children: "dag_children D g i = []"
    using children_in [OF g, of _ i] new by (cases "dag_children D g i") auto
  have no_parents: "dag_parents D g i = []"
    using parents_in [OF g, of _ i] new by (cases "dag_parents D g i") auto
  have ends: "dag_node_weight D g1 p \<noteq> None \<and> p \<noteq> i" if "p \<in> set idxs" for p
    using idxs [OF that] node by auto
  then have "i \<notin> set idxs" by blast
  from add_edges [of g1 i idxs, OF _ _ _ ends] node no_children obtain g2 where
    g2: "dag_add_edges D g1 (map (\<lambda>p. (p, i)) idxs) = (g2, True)" "dag_ok g2"
      "dag_node_weight D g2 = (dag_node_weight D g)(i \<mapsto> x)"
    and par: "\<And>j. mset (dag_parents D g2 j) = mset (dag_parents D g j) + (if j = i then mset idxs else {#})"
    and chi: "\<And>j. mset (dag_children D g2 j) = mset (dag_children D g j) + replicate_mset (count (mset idxs) j) i"
    by auto
  have "set (dag_children D g2 j) = set (dag_children D g j) \<union> (if j \<in> set idxs then {i} else {})" for j
    by (subst set_mset_mset [symmetric], subst chi) (auto simp: count_eq_zero_iff)
  with g2 par new no_children no_parents \<open>i \<notin> set idxs\<close> show ?thesis by simp
qed

text \<open>The indices of the parents of a new node are those of their headers.\<close>

lemma index_weights:
  assumes "graph_ok D H g m" and "map m ps = map Some infos"
  shows "map (dag_node_weight D g) (map graph_index infos) = map Some ps"
proof (rule nth_equalityI)
  have len: "length infos = length ps" using assms(2) by (metis length_map)
  then show "length (map (dag_node_weight D g) (map graph_index infos)) = length (map Some ps)" by simp
  fix k assume k: "k < length (map (dag_node_weight D g) (map graph_index infos))"
  then have "m (ps ! k) = Some (infos ! k)" using assms(2) len by (metis length_map nth_map)
  from graph_okD(1) [OF assms(1) this] k len
  show "map (dag_node_weight D g) (map graph_index infos) ! k = map Some ps ! k" by simp
qed

lemma index_in_parents:
  assumes ok: "graph_ok D H g m" and ps: "map m ps = map Some infos" and n: "m h = Some n"
  shows "graph_index n \<in> set (map graph_index infos) \<longleftrightarrow> h \<in> set ps"
proof
  assume "graph_index n \<in> set (map graph_index infos)"
  then have "dag_node_weight D g (graph_index n) \<in> set (map (dag_node_weight D g) (map graph_index infos))"
    unfolding list.set_map [of "dag_node_weight D g"] by (rule imageI)
  then show "h \<in> set ps" unfolding index_weights [OF ok ps] graph_okD(1) [OF ok n] by auto
next
  assume "h \<in> set ps"
  then have "Some n \<in> set (map m ps)" using n by force
  then show "graph_index n \<in> set (map graph_index infos)" unfolding ps by auto
qed

lemma parents_known:
  assumes "map m ps = map Some infos"
  shows "set ps \<subseteq> dom m"
proof
  fix p assume "p \<in> set ps"
  then have "m p \<in> set (map Some infos)" unfolding assms [symmetric] by simp
  then show "p \<in> dom m" by auto
qed

lemma graph_ok_insert:
  assumes g: "dag_ok g" "graph_ok D H g m" and m: "map_ok H m" and new: "m x = None"
    and ps: "map m (get_parent_ids H (header ni)) = map Some infos"
    and add: "dag_add_node D g x = (g1, i)" and ni: "graph_index ni = i"
  shows "\<exists>g2. dag_add_edges D g1 (map (\<lambda>p. (p, i)) (map graph_index infos)) = (g2, True) \<and>
    dag_ok g2 \<and> graph_ok D H g2 (m(x \<mapsto> ni))"
proof -
  let ?w = "dag_node_weight D" and ?idxs = "map graph_index infos" and ?m = "m(x \<mapsto> ni)"
  let ?ps = "get_parent_ids H (header ni)"
  note weights = index_weights [OF g(2) ps]
  have known: "?w g p \<noteq> None" if "p \<in> set ?idxs" for p
    using weights that by (metis (no_types, lifting) imageE image_eqI list.set_map option.discI)
  from add_leaf [OF g(1) add, of ?idxs, OF known] obtain g2 where
    g2: "dag_add_edges D g1 (map (\<lambda>p. (p, i)) ?idxs) = (g2, True)" "dag_ok g2"
    and wi: "?w g i = None" and w2: "?w g2 = (?w g)(i \<mapsto> x)"
    and par: "\<And>j. mset (dag_parents D g2 j) = (if j = i then mset ?idxs else mset (dag_parents D g j))"
    and chi: "\<And>j. set (dag_children D g2 j) =
      (if j = i then {} else set (dag_children D g j) \<union> (if j \<in> set ?idxs then {i} else {}))" by blast
  have rel: "{c. (h, c) \<in> parent_rel H ?m} = {c. (h, c) \<in> parent_rel H m} \<union> (if h \<in> set ?ps then {x} else {})" for h
    using parent_rel_insert [of m x H ni, OF new] by auto
  have same: "image_mset (?w g2) A = image_mset (?w g) A" if "\<And>j. j \<in># A \<Longrightarrow> ?w g j \<noteq> None" for A
    using that [of i] wi unfolding w2 by (intro image_mset_cong) auto
  have node: "?w g2 (graph_index ni) = Some x \<and>
      mset (map (?w g2) (dag_parents D g2 (graph_index ni))) = mset (map Some ?ps) \<and>
      ?w g2 ` set (dag_children D g2 (graph_index ni)) = Some ` {c. (x, c) \<in> parent_rel H ?m}"
  proof -
    have "image_mset (?w g2) (mset ?idxs) = mset (map Some ?ps)"
      using same [of "mset ?idxs"] known weights by (metis mset_map set_mset_mset)
    moreover have "{c. (x, c) \<in> parent_rel H ?m} = {}"
      using rel parents_known [OF ps] parent_rel_dom [OF m, of x] new by auto
    ultimately show ?thesis using ni w2 par chi by simp
  qed
  have old: "?w g2 (graph_index n) = Some h \<and>
      mset (map (?w g2) (dag_parents D g2 (graph_index n))) = mset (map Some (get_parent_ids H (header n))) \<and>
      ?w g2 ` set (dag_children D g2 (graph_index n)) = Some ` {c. (h, c) \<in> parent_rel H ?m}" if n: "m h = Some n" for h n
  proof -
    note at = graph_okD [OF g(2) n]
    then have ne: "graph_index n \<noteq> i" using wi by auto
    have "image_mset (?w g2) (mset (dag_parents D g (graph_index n))) = mset (map Some (get_parent_ids H (header n)))"
      using same [of "mset (dag_parents D g (graph_index n))"] parents_in [OF g(1), of _ "graph_index n"] at(2)
      by (metis mset_map set_mset_mset)
    moreover have "?w g2 ` set (dag_children D g (graph_index n)) = ?w g ` set (dag_children D g (graph_index n))"
      using children_in [OF g(1), of i "graph_index n"] wi unfolding w2 by (intro image_cong) auto
    moreover have "?w g2 i = Some x" "?w g2 (graph_index n) = Some h" using ne at(1) by (simp_all add: w2)
    ultimately show ?thesis
      using at(3) ne par chi rel index_in_parents [OF g(2) ps n] by (simp add: image_Un split: if_splits)
  qed
  have "\<exists>n. ?m h = Some n \<and> graph_index n = j" if "?w g2 j = Some h" for j h
    using that g(2) new ni unfolding graph_ok_def w2 by (cases "j = i") force+
  with node old have "graph_ok D H g2 ?m" unfolding graph_ok_def by simp
  with g2 show ?thesis by blast
qed

lemma ecg_new_ok: "ecg_ok D dag_ok H (ecg_new D)"
  by (simp add: ecg_ok_def ecg_new_def new_ok graph_ok_def new_weight map_ok_def parent_rel_def acyclic_def)

end

section \<open>Inserting a header\<close>

lemma foldl_min_Min: "ds \<noteq> [] \<Longrightarrow> (\<And>d. d \<in> set ds \<Longrightarrow> d \<le> b) \<Longrightarrow> foldl min b ds = Min (set ds)" for b :: nat
proof -
  have "foldl min b ds = Min (insert b (set ds))"
  proof -
    have "(\<lambda>x s. min s x) = (min :: nat \<Rightarrow> nat \<Rightarrow> nat)" by (simp add: fun_eq_iff min.commute)
    then have "foldl min b ds = fold min ds b" by (simp only: foldl_conv_fold)
    also have "\<dots> = Min (set (b # ds))" by (rule Min.set_eq_fold [symmetric])
    finally show ?thesis by simp
  qed
  moreover assume ds: "ds \<noteq> []" "\<And>d. d \<in> set ds \<Longrightarrow> d \<le> b"
  moreover have "Min (set ds) \<in> set ds" using ds(1) by (intro Min_in) auto
  moreover have "Min (insert b (set ds)) = min b (Min (set ds))" using ds(1) by (intro Min_insert) auto
  ultimately show ?thesis by (metis min_absorb2)
qed

lemma foldl_remove: "foldl (\<lambda>t x. t - {x}) T xs = T - set xs"
  by (induction xs arbitrary: T) auto

lemma those_map_known:
  "those (map m ps) = (if set ps \<subseteq> dom m then Some (map (\<lambda>p. the (m p)) ps) else None)"
  by (induction ps) (auto split: option.splits)


text \<open>The parent branch: known parents, the minimum of their depths, the tips they leave.\<close>

lemma place_header_spec:
  assumes ok: "ecg_ok D dag_ok H st" and new: "node_info_map st (get_header_id H hdr) = None"
    and room: "card (dom (node_info_map st)) < u64_max"
  defines "ps \<equiv> get_parent_ids H hdr" and "m \<equiv> node_info_map st"
  shows "place_header H st hdr =
    (if set ps \<subseteq> dom m then
       Ret (Some (map graph_index (map (\<lambda>p. the (m p)) ps), depth_from m ps,
         st\<lparr>root_nodes := (if ps = [] then insert (get_header_id H hdr) (root_nodes st) else root_nodes st),
            tips := insert (get_header_id H hdr) (tips st - set ps)\<rparr>))
     else Ret None)"
proof (cases "ps = []")
  case True
  with ok new show ?thesis
    by (auto simp: place_header_def Let_def ps_def m_def depth_from_def ecg_ok_def)
next
  case ne: False
  show ?thesis
  proof (cases "set ps \<subseteq> dom m")
    case False
    with ne show ?thesis by (simp add: place_header_def Let_def those_map_known flip: ps_def m_def)
  next
    case True
    have ok_m: "map_ok H m" using ok by (simp add: ecg_ok_def m_def)
    let ?ds = "map depth (map (\<lambda>p. the (m p)) ps)"
    have ds: "set ?ds = depth_of m ` set ps" "?ds \<noteq> []"
      using True ne by (force simp: depth_of_def subset_iff intro!: image_cong split: option.splits)+
    have le: "d \<le> card (dom m)" if "d \<in> set ?ds" for d
    proof -
      from that True obtain p n where "m p = Some n" "d = depth n" by auto
      with ok_m show ?thesis unfolding map_ok_def by blast
    qed
    have d: "foldl min u64_max ?ds = Min (depth_of m ` set ps)"
    proof -
      have "d \<le> u64_max" if "d \<in> set ?ds" for d using le [OF that] room by (simp add: m_def)
      from foldl_min_Min [OF ds(2) this] show ?thesis by (simp only: ds(1))
    qed
    have "Min (depth_of m ` set ps) \<in> set ?ds" unfolding ds(1) using ne by (intro Min_in) auto
    from le [OF this] room have "Min (depth_of m ` set ps) + 1 \<le> u64_max" by (simp add: m_def)
    then have "add_u64 (Min (depth_of m ` set ps)) 1 = Ret (depth_from m ps)"
      using ne by (simp add: add_u64_def depth_from_def)
    with True ne d show ?thesis
      by (simp add: place_header_def Let_def those_map_known foldl_remove flip: ps_def m_def)
  qed
qed

lemma tips_insert:
  assumes m: "map_ok H m" "m x = None" and ps: "set (get_parent_ids H (header ni)) \<subseteq> dom m"
  shows "insert x ({h \<in> dom m. \<forall>c. (h, c) \<notin> parent_rel H m} - set (get_parent_ids H (header ni))) =
    {h \<in> dom (m(x \<mapsto> ni)). \<forall>c. (h, c) \<notin> parent_rel H (m(x \<mapsto> ni))}"
  using assms parent_rel_dom [OF m(1)] unfolding parent_rel_insert [of m x H ni, OF m(2)] by auto

context stable_dag
begin

lemma insert_header_rejected:
  assumes "ecg_ok D dag_ok H st" and "card (dom (node_info_map st)) < u64_max" and "\<not> insertable H st hdr"
  shows "insert_header D H st hdr ops = Ret (False, st)"
  using assms place_header_spec [OF assms(1) _ assms(2), of hdr]
  by (auto simp: insert_header_def insertable_def Let_def)

lemma insert_header_accepted:
  assumes ok: "ecg_ok D dag_ok H st" and room: "card (dom (node_info_map st)) < u64_max"
    and ins: "insertable H st hdr"
  shows "\<exists>st' i. insert_header D H st hdr ops = Ret (True, st') \<and> ecg_ok D dag_ok H st' \<and>
    node_info_map st' = (node_info_map st)(get_header_id H hdr \<mapsto>
       \<lparr>graph_index = i, depth = depth_from (node_info_map st) (get_parent_ids H hdr), header = hdr,
        operations = ops\<rparr>)"
proof -
  let ?x = "get_header_id H hdr" and ?ps = "get_parent_ids H hdr" and ?m = "node_info_map st"
  have x: "?m ?x = None" and val: "validate_header H hdr ?x" and ps: "set ?ps \<subseteq> dom ?m"
    using ins by (auto simp: insertable_def)
  obtain g1 i where g1: "dag_add_node D (dependency_graph st) ?x = (g1, i)" by force
  let ?ni = "\<lparr>graph_index = i, depth = depth_from ?m ?ps, header = hdr, operations = ops\<rparr>"
  have parts: "dag_ok (dependency_graph st)" "graph_ok D H (dependency_graph st) ?m" "map_ok H ?m"
    using ok by (auto simp: ecg_ok_def)
  have infos: "map ?m ?ps = map Some (map (\<lambda>p. the (?m p)) ?ps)" using ps by auto
  from graph_ok_insert [OF parts x _ g1, of ?ni "map (\<lambda>p. the (?m p)) ?ps"] infos obtain g2 where
    g2: "dag_add_edges D g1 (map (\<lambda>p. (p, i)) (map graph_index (map (\<lambda>p. the (?m p)) ?ps))) = (g2, True)"
      "dag_ok g2" "graph_ok D H g2 (?m(?x \<mapsto> ?ni))" by auto
  let ?st' = "st\<lparr>root_nodes := (if ?ps = [] then insert ?x (root_nodes st) else root_nodes st),
      tips := insert ?x (tips st - set ?ps), dependency_graph := g2, node_info_map := ?m(?x \<mapsto> ?ni)\<rparr>"
  have "insert_header D H st hdr ops = Ret (True, ?st')"
    using x val ps g1 g2(1) place_header_spec [OF ok x room]
    by (simp add: insert_header_def Let_def o_def)
  moreover have "map_ok H (?m(?x \<mapsto> ?ni))"
    by (rule map_ok_insert [OF parts(3) x]) (use val ps in auto)
  moreover have "root_nodes ?st' = {h. \<exists>n. (?m(?x \<mapsto> ?ni)) h = Some n \<and> get_parent_ids H (header n) = []}"
    using ok x by (auto simp: ecg_ok_def)
  moreover have "tips ?st' = {h \<in> dom (?m(?x \<mapsto> ?ni)). \<forall>c. (h, c) \<notin> parent_rel H (?m(?x \<mapsto> ?ni))}"
    using tips_insert [OF parts(3) x, of ?ni] ps ok by (simp add: ecg_ok_def)
  ultimately show ?thesis using g2 by (intro exI [of _ ?st'] exI [of _ i]) (simp add: ecg_ok_def)
qed

end

section \<open>Reading the graph\<close>

lemma set_of_mset_map: "mset (map w is) = mset (map Some xs) \<Longrightarrow> w ` set is = Some ` set xs"
  by (drule mset_eq_setD) simp

context stable_dag
begin

lemma those_weights:
  assumes "mset (map w is) = mset (map Some xs)"
  shows "\<exists>ys. those (map w is) = Some ys \<and> mset ys = mset xs"
proof -
  have "set (map w is) = Some ` set xs" using mset_eq_setD [OF assms] by simp
  then have "None \<notin> set (map w is)" by auto
  then obtain ys where ys: "map w is = map Some ys" by (metis not_None_eq those_None those_eq_Some)
  with assms have "image_mset the (mset (map Some ys)) = image_mset the (mset (map Some xs))" by simp
  then have "mset ys = mset xs" by (simp add: image_mset.compositionality o_def)
  with ys show ?thesis by (auto simp: those_eq_Some)
qed

lemma get_parents_ok:
  assumes ok: "ecg_ok D dag_ok H st" and h: "node_info_map st h = Some ni"
  shows "\<exists>ps. get_parents D st h = Some ps \<and> mset ps = mset (get_parent_ids H (header ni))"
  using ok h those_weights [of "dag_node_weight D (dependency_graph st)"
      "dag_parents D (dependency_graph st) (graph_index ni)" "get_parent_ids H (header ni)"]
  by (simp add: get_parents_def ecg_ok_def graph_ok_def)

lemma node_of_weight:
  assumes "ecg_ok D dag_ok H st" "dag_node_weight D (dependency_graph st) i = Some h"
  shows "\<exists>ni. node_info_map st h = Some ni \<and> graph_index ni = i"
  using assms unfolding ecg_ok_def graph_ok_def by blast

text \<open>Reading neighbours with their depths gives exactly the neighbours in the abstract graph.\<close>

lemma those_with_depth:
  assumes ws: "w ` set is = Some ` X" and X: "X \<subseteq> dom m"
  shows "\<exists>ys. those (map (\<lambda>i. case w i of None \<Rightarrow> None | Some h \<Rightarrow> map_option (\<lambda>n. (f n, h)) (m h)) is) = Some ys \<and>
    set ys = (\<lambda>h. (f (the (m h)), h)) ` X"
proof -
  have "(case w i of None \<Rightarrow> None | Some h \<Rightarrow> map_option (\<lambda>n. (f n, h)) (m h)) =
      Some (f (the (m (the (w i)))), the (w i))" if "i \<in> set is" for i
  proof -
    from that ws have "w i \<in> Some ` X" by blast
    with X show ?thesis by auto
  qed
  then have "those (map (\<lambda>i. case w i of None \<Rightarrow> None | Some h \<Rightarrow> map_option (\<lambda>n. (f n, h)) (m h)) is) =
      Some (map (\<lambda>i. (f (the (m (the (w i)))), the (w i))) is)"
    by (simp add: those_eq_Some cong: map_cong)
  moreover have "(\<lambda>i. (f (the (m (the (w i)))), the (w i))) ` set is = (\<lambda>h. (f (the (m h)), h)) ` the ` w ` set is"
    by (simp add: image_image)
  moreover have "the ` w ` set is = X" by (simp add: ws image_image)
  ultimately show ?thesis by simp
qed

lemma get_parents_with_depth_ok:
  assumes ok: "ecg_ok D dag_ok H st" and h: "node_info_map st h = Some ni"
  shows "\<exists>ps. get_parents_with_depth D st h = Some ps \<and>
    set ps = (\<lambda>p. (depth_of (node_info_map st) p, p)) ` set (get_parent_ids H (header ni))"
proof -
  let ?g = "dependency_graph st" and ?m = "node_info_map st" let ?w = "dag_node_weight D ?g"
  let ?is = "dag_parents D ?g (graph_index ni)" and ?P = "set (get_parent_ids H (header ni))"
  have "mset (map ?w ?is) = mset (map Some (get_parent_ids H (header ni)))"
    using ok h unfolding ecg_ok_def graph_ok_def by blast
  then have ws: "?w ` set ?is = Some ` ?P" by (rule set_of_mset_map)
  have P: "?P \<subseteq> dom ?m" using ok h unfolding ecg_ok_def map_ok_def by blast
  have "(\<lambda>h. (depth (the (?m h)), h)) ` ?P = (\<lambda>p. (depth_of ?m p, p)) ` ?P"
    using P by (intro image_cong) (auto simp: depth_of_def)
  with those_with_depth [OF ws P, of depth] h show ?thesis by (simp add: get_parents_with_depth_def)
qed

lemma get_children_with_depth_ok:
  assumes ok: "ecg_ok D dag_ok H st" and h: "node_info_map st h = Some ni"
  shows "\<exists>cs. get_children_with_depth D st h = Some cs \<and>
    set cs = (\<lambda>c. (Reverse (depth_of (node_info_map st) c), c)) ` {c. (h, c) \<in> parent_rel H (node_info_map st)}"
proof -
  let ?g = "dependency_graph st" and ?m = "node_info_map st" let ?w = "dag_node_weight D ?g"
  let ?is = "dag_children D ?g (graph_index ni)" and ?C = "{c. (h, c) \<in> parent_rel H ?m}"
  have ws: "?w ` set ?is = Some ` ?C"
    using ok h unfolding ecg_ok_def graph_ok_def by blast
  have C: "?C \<subseteq> dom ?m" using ok parent_rel_dom [of H ?m] by (auto simp: ecg_ok_def)
  have "(\<lambda>h. (Reverse (depth (the (?m h))), h)) ` ?C = (\<lambda>p. (Reverse (depth_of ?m p), p)) ` ?C"
    using C by (intro image_cong) (force simp: depth_of_def)+
  with those_with_depth [OF ws C, of "\<lambda>n. Reverse (depth n)"] h show ?thesis
    by (simp add: get_children_with_depth_def)
qed

end

section \<open>Ancestor search\<close>

lemma visit_parents_spec:
  "foldl visit_parent (q, V) ps = (q', V') \<Longrightarrow>
     V' = V \<union> set ps \<and> set q' = set q \<union> (set ps - V) \<and>
     (finite V \<longrightarrow> length q' + card V = length q + card V')"
proof (induction ps arbitrary: q V)
  case (Cons p ps)
  show ?case
  proof (cases "p \<in> V")
    case True
    with Cons.prems Cons.IH [of q V] show ?thesis by (auto simp: visit_parent_def)
  next
    case False
    with Cons.prems Cons.IH [of "q @ [p]" "insert p V"] show ?thesis by (auto simp: visit_parent_def)
  qed
qed simp

context stable_dag
begin

definition idx_rel :: "'g \<Rightarrow> (nat \<times> nat) set" where
  "idx_rel g = {(p, c). p \<in> set (dag_parents D g c)}"

text \<open>
  The search returns: each round drops one index from the queue and adds only new ones. What it
  has visited is closed under parents except for the queue, so an empty queue is a refutation.
\<close>

lemma visit_parents_smaller:
  assumes U: "finite U" "insert n V \<subseteq> U" "set ps \<subseteq> U" and "foldl visit_parent (rest, V) ps = (q', V')"
  shows "V' \<subseteq> U" and "length q' + card (U - V') = length rest + card (U - V)"
proof -
  note spec = visit_parents_spec [OF assms(4)]
  show V': "V' \<subseteq> U" using spec U by auto
  have fin: "finite V" "finite V'" using U V' finite_subset by auto
  then have "length q' + card V = length rest + card V'" using spec by simp
  moreover have "card (U - V') = card U - card V'" "card (U - V) = card U - card V"
    using fin V' U(2) by (simp_all add: card_Diff_subset)
  moreover have "card V' \<le> card U" "card V \<le> card V'" using V' U(1) spec fin by (auto intro: card_mono)
  ultimately show "length q' + card (U - V') = length rest + card (U - V)" by linarith
qed

lemma ancestor_bfs_spec:
  assumes "finite U" "V \<subseteq> U" "\<And>c. c \<in> U \<Longrightarrow> set (dag_parents D g c) \<subseteq> U"
    and "set q \<subseteq> V" "\<And>c. c \<in> V - set q \<Longrightarrow> c \<noteq> a \<and> set (dag_parents D g c) \<subseteq> V"
    and "start \<in> V" "\<And>v. v \<in> V \<Longrightarrow> (v, start) \<in> (idx_rel g)\<^sup>*"
  shows "ancestor_bfs D g a q V = Some ((a, start) \<in> (idx_rel g)\<^sup>*)"
  using assms
proof (induction "length q + card (U - V)" arbitrary: q V rule: less_induct)
  case less
  show ?case
  proof (cases q)
    case Nil
    have "v \<in> V" if "(v, start) \<in> (idx_rel g)\<^sup>*" for v
      using that
    proof (induction rule: converse_rtrancl_induct)
      case (step y z)
      then show ?case using less.prems(5) [of z] Nil by (auto simp: idx_rel_def)
    qed (rule less.prems)
    moreover have "a \<notin> V" using less.prems(5) Nil by auto
    ultimately show ?thesis using Nil by (subst ancestor_bfs.simps) auto
  next
    case (Cons n rest)
    show ?thesis
    proof (cases "n = a")
      case True
      with Cons less.prems(4,7) show ?thesis by (subst ancestor_bfs.simps) auto
    next
      case False
      obtain q' V' where qv: "foldl visit_parent (rest, V) (dag_parents D g n) = (q', V')" by force
      note spec = visit_parents_spec [OF qv]
      have nV: "n \<in> V" using Cons less.prems(4) by auto
      then have "insert n V \<subseteq> U" "set (dag_parents D g n) \<subseteq> U" using less.prems(2,3) by auto
      note smaller = visit_parents_smaller [OF less.prems(1) this qv]
      then have dec: "length q' + card (U - V') < length q + card (U - V)" using Cons by simp
      have "ancestor_bfs D g a q' V' = Some ((a, start) \<in> (idx_rel g)\<^sup>*)"
      proof (rule less.hyps [OF dec less.prems(1) smaller(1) less.prems(3)])
        show "set q' \<subseteq> V'" using spec less.prems(4) Cons by auto
        show "start \<in> V'" using spec less.prems(6) by auto
        show "c \<noteq> a \<and> set (dag_parents D g c) \<subseteq> V'" if "c \<in> V' - set q'" for c
        proof (cases "c = n")
          case True
          with \<open>n \<noteq> a\<close> spec show ?thesis by auto
        next
          case False
          with that spec Cons have "c \<in> V - set q" by auto
          from less.prems(5) [OF this] spec show ?thesis by auto
        qed
        show "(v, start) \<in> (idx_rel g)\<^sup>*" if "v \<in> V'" for v
        proof (cases "v \<in> V")
          case False
          with that spec have "(v, n) \<in> idx_rel g" by (auto simp: idx_rel_def)
          from converse_rtrancl_into_rtrancl [OF this less.prems(7) [OF nV]] show ?thesis .
        qed (rule less.prems(7))
      qed
      with Cons False qv show ?thesis by (subst ancestor_bfs.simps) (simp add: Let_def)
    qed
  qed
qed


text \<open>Paths in the graph are paths in the map.\<close>

lemma idx_path_down:
  assumes ok: "ecg_ok D dag_ok H st"
  shows "(i, j) \<in> (idx_rel (dependency_graph st))\<^sup>* \<Longrightarrow> node_info_map st y = Some n \<Longrightarrow> graph_index n = j \<Longrightarrow>
    \<exists>x nx. node_info_map st x = Some nx \<and> graph_index nx = i \<and> (x, y) \<in> (parent_rel H (node_info_map st))\<^sup>*"
proof (induction rule: converse_rtrancl_induct)
  case base
  then show ?case by blast
next
  case (step i k)
  let ?g = "dependency_graph st" and ?m = "node_info_map st"
  from step obtain z nz where z: "?m z = Some nz" "graph_index nz = k" "(z, y) \<in> (parent_rel H ?m)\<^sup>*" by blast
  have "mset (map (dag_node_weight D ?g) (dag_parents D ?g (graph_index nz))) =
      mset (map Some (get_parent_ids H (header nz)))"
    using ok z(1) unfolding ecg_ok_def graph_ok_def by blast
  then have "dag_node_weight D ?g ` set (dag_parents D ?g k) = Some ` set (get_parent_ids H (header nz))"
    unfolding z(2) by (rule set_of_mset_map)
  moreover have "i \<in> set (dag_parents D ?g k)" using step(1) by (simp add: idx_rel_def)
  ultimately obtain x where x: "x \<in> set (get_parent_ids H (header nz))" "dag_node_weight D ?g i = Some x"
    by (metis (no_types, lifting) imageE image_eqI)
  with z(1) have "(x, z) \<in> parent_rel H ?m" by (auto simp: parent_rel_def)
  with z(3) have "(x, y) \<in> (parent_rel H ?m)\<^sup>*" by (rule converse_rtrancl_into_rtrancl [rotated])
  with node_of_weight [OF ok x(2)] show ?case by blast
qed

lemma idx_path_up:
  assumes ok: "ecg_ok D dag_ok H st"
  shows "(x, y) \<in> (parent_rel H (node_info_map st))\<^sup>* \<Longrightarrow> node_info_map st x = Some nx \<Longrightarrow>
    node_info_map st y = Some ny \<Longrightarrow> (graph_index nx, graph_index ny) \<in> (idx_rel (dependency_graph st))\<^sup>*"
proof (induction arbitrary: nx rule: converse_rtrancl_induct)
  case base
  then show ?case by simp
next
  case (step x z)
  let ?g = "dependency_graph st" and ?m = "node_info_map st"
  obtain nz where nz: "?m z = Some nz" "x \<in> set (get_parent_ids H (header nz))"
    using step(1) by (auto simp: parent_rel_def)
  have fwd: "dag_node_weight D ?g (graph_index n) = Some h \<and>
      mset (map (dag_node_weight D ?g) (dag_parents D ?g (graph_index n))) =
      mset (map Some (get_parent_ids H (header n)))" if "?m h = Some n" for h n
    using ok that unfolding ecg_ok_def graph_ok_def by blast
  from set_of_mset_map [OF conjunct2 [OF fwd [OF nz(1)]]] have "dag_node_weight D ?g ` set (dag_parents D ?g (graph_index nz)) =
      Some ` set (get_parent_ids H (header nz))" .
  with nz(2) obtain i where i: "i \<in> set (dag_parents D ?g (graph_index nz))" "dag_node_weight D ?g i = Some x"
    by (metis (no_types, lifting) imageE image_eqI)
  from node_of_weight [OF ok i(2)] step.prems(1) have "i = graph_index nx" by auto
  with i(1) have "(graph_index nx, graph_index nz) \<in> idx_rel ?g" by (simp add: idx_rel_def)
  with step.IH [OF nz(1) step.prems(2)] show ?case by (rule converse_rtrancl_into_rtrancl [rotated])
qed

lemma is_ancestor_of_exact:
  assumes ok: "ecg_ok D dag_ok H st"
  shows "is_ancestor_of D st a d =
    Some (if a \<in> dom (node_info_map st) \<and> d \<in> dom (node_info_map st)
          then Some ((a, d) \<in> (parent_rel H (node_info_map st))\<^sup>*) else None)"
proof (cases "a \<in> dom (node_info_map st) \<and> d \<in> dom (node_info_map st)")
  case False
  then show ?thesis by (auto simp: is_ancestor_of_def split: option.split)
next
  case True
  let ?g = "dependency_graph st" and ?m = "node_info_map st"
  from True obtain na nd where na: "?m a = Some na" and nd: "?m d = Some nd" by auto
  let ?U = "(\<lambda>h. graph_index (the (?m h))) ` dom ?m"
  have fin: "finite ?U" using ok by (simp add: ecg_ok_def map_ok_def)
  have closed: "set (dag_parents D ?g c) \<subseteq> ?U" for c
  proof
    fix p assume "p \<in> set (dag_parents D ?g c)"
    with parents_in [of ?g p c] ok obtain h where "dag_node_weight D ?g p = Some h" by (auto simp: ecg_ok_def)
    from node_of_weight [OF ok this] show "p \<in> ?U" by force
  qed
  have d: "graph_index nd \<in> ?U" using nd by force
  have "ancestor_bfs D ?g (graph_index na) [graph_index nd] {graph_index nd} =
      Some ((graph_index na, graph_index nd) \<in> (idx_rel ?g)\<^sup>*)"
    by (rule ancestor_bfs_spec [OF fin _ closed]) (use d in auto)
  moreover have "(graph_index na, graph_index nd) \<in> (idx_rel ?g)\<^sup>* \<longleftrightarrow> (a, d) \<in> (parent_rel H ?m)\<^sup>*"
  proof
    assume "(graph_index na, graph_index nd) \<in> (idx_rel ?g)\<^sup>*"
    from idx_path_down [OF ok this nd refl] obtain x nx where
      x: "?m x = Some nx" "graph_index nx = graph_index na" "(x, d) \<in> (parent_rel H ?m)\<^sup>*" by blast
    have "dag_node_weight D ?g (graph_index na) = Some a" "dag_node_weight D ?g (graph_index nx) = Some x"
      using ok na x(1) unfolding ecg_ok_def graph_ok_def by blast+
    with x show "(a, d) \<in> (parent_rel H ?m)\<^sup>*" by simp
  qed (rule idx_path_up [OF ok _ na nd])
  ultimately show ?thesis using True na nd by (simp add: is_ancestor_of_def)
qed

end

lemma parent_rel_of_headers:
  "parent_rel H (node_info_map st) = {(p, c). \<exists>d. get_header st c = Some d \<and> p \<in> set (get_parent_ids H d)}"
  by (auto simp: parent_rel_def get_header_def)

lemma roots_of_headers:
  "ecg_ok D dag_ok H st \<Longrightarrow> root_nodes st = {h. \<exists>d. get_header st h = Some d \<and> get_parent_ids H d = []}"
  by (auto simp: ecg_ok_def get_header_def)

section \<open>Properties\<close>

text \<open>
  The test headers of \<open>store/ecg/v0.rs\<close>, which carry their id and their parents, and a graph
  with a root and a child of it, for the witnesses.
\<close>

record test_header =
  th_header_id :: u32
  th_parent_ids :: "u32 list"

definition test_header_ops :: "(u32, test_header) header_ops" where
  "test_header_ops =
     \<lparr>get_parent_ids = (\<lambda>h. th_parent_ids h), get_header_id = (\<lambda>h. th_header_id h),
      validate_header = (\<lambda>h header_id. True)\<rparr>"

definition th :: "u32 \<Rightarrow> u32 list \<Rightarrow> test_header" where
  "th i ps = \<lparr>th_header_id = i, th_parent_ids = ps\<rparr>"

definition demo_ecg :: "(u32 list_graph, u32, test_header) ecg" where
  "demo_ecg = \<lparr>dependency_graph = ([1, 2], [(0, 1)]), root_nodes = {1},
     node_info_map = [1 \<mapsto> \<lparr>graph_index = 0, depth = 1, header = th 1 [], operations = []\<rparr>,
                      2 \<mapsto> \<lparr>graph_index = 1, depth = 2, header = th 2 [1], operations = [7]\<rparr>],
     tips = {2}\<rparr>"

lemma demo_ecg_ok: "ecg_ok list_dag list_dag_ok test_header_ops demo_ecg"
proof -
  have rel: "parent_rel test_header_ops (node_info_map demo_ecg) = {(1, 2)}"
    by (auto simp: parent_rel_def demo_ecg_def test_header_ops_def th_def split: if_splits)
  have "acyclic {(1 :: u32, 2)}" by (simp add: acyclic_insert) (simp add: acyclic_def)
  then have "map_ok test_header_ops (node_info_map demo_ecg)"
    by (simp add: map_ok_def rel)
      (auto simp: demo_ecg_def test_header_ops_def th_def depth_from_def depth_of_def split: if_splits)
  then show ?thesis
    unfolding ecg_ok_def rel graph_ok_def
    by (auto simp: demo_ecg_def test_header_ops_def th_def list_dag_def list_dag_ok_def less_Suc_eq
        split: if_splits)
qed

text \<open>The graph of a replica that was offered some headers, on the reference graph\<close>

definition offer :: "('h, 'hd) header_ops \<Rightarrow> ('h list_graph, 'h, 'hd) ecg \<Rightarrow> 'hd \<times> bytes \<Rightarrow> ('h list_graph, 'h, 'hd) ecg" where
  "offer H st p =
     (if card (dom (node_info_map st)) < u64_max
      then case insert_header list_dag H st (fst p) (snd p) of Ret (_, st') \<Rightarrow> st' | Panic _ \<Rightarrow> st else st)"

definition ecg_run :: "('h, 'hd) header_ops \<Rightarrow> ('hd \<times> bytes) list \<Rightarrow> ('h list_graph, 'h, 'hd) ecg" where
  "ecg_run H ps = foldl (offer H) (ecg_new list_dag) ps"

lemma offer_ok:
  assumes ok: "ecg_ok list_dag list_dag_ok H st"
  shows "ecg_ok list_dag list_dag_ok H (offer H st p)"
proof (cases "card (dom (node_info_map st)) < u64_max")
  case True
  show ?thesis
    using list_dag.insert_header_accepted [OF ok True, of "fst p" "snd p"]
      list_dag.insert_header_rejected [OF ok True, of "fst p" "snd p"] ok
    by (cases "insertable H st (fst p)") (auto simp: offer_def)
qed (simp add: offer_def ok)

lemma ecg_run_ok: "ecg_ok list_dag list_dag_ok H (ecg_run H ps)"
proof (induction ps rule: rev_induct)
  case Nil
  show ?case by (simp add: ecg_run_def list_dag.ecg_new_ok)
next
  case (snoc p ps)
  then show ?case by (simp add: ecg_run_def offer_ok)
qed

text \<open>C6. \<open>insert_header\<close> refines adding a binding to the abstract graph. It accepts a header
  exactly when it is valid, new and all its parents are known, it then changes the abstract
  graph at that header id only, and it leaves the state as it was when it refuses. In both
  cases graph, roots, tips and depths are again those of the abstract graph, and it does not
  panic while there are fewer than \<open>2 ^ 64 - 1\<close> headers.\<close>

theorem insert_header_refines:
  assumes "stable_dag D dag_ok" and "ecg_ok D dag_ok H st" and "card (dom (node_info_map st)) < u64_max"
  shows "\<exists>b st'. insert_header D H st hdr ops = Ret (b, st') \<and> ecg_ok D dag_ok H st' \<and>
    b = insertable H st hdr \<and>
    abs_ecg st' = (if b then (abs_ecg st)(get_header_id H hdr \<mapsto> (hdr, ops)) else abs_ecg st) \<and>
    (\<not> b \<longrightarrow> st' = st)"
proof (cases "insertable H st hdr")
  case True
  from stable_dag.insert_header_accepted [OF assms(1-3) True, of ops] obtain st' i where
    "insert_header D H st hdr ops = Ret (True, st')" "ecg_ok D dag_ok H st'"
    "node_info_map st' = (node_info_map st)(get_header_id H hdr \<mapsto>
       \<lparr>graph_index = i, depth = depth_from (node_info_map st) (get_parent_ids H hdr), header = hdr,
        operations = ops\<rparr>)" by blast
  moreover from this(3) have "abs_ecg st' = (abs_ecg st)(get_header_id H hdr \<mapsto> (hdr, ops))"
    by (auto simp: abs_ecg_def fun_eq_iff)
  ultimately show ?thesis using True by auto
next
  case False
  from stable_dag.insert_header_rejected [OF assms(1-3) False, of ops] assms(2) False
  show ?thesis by (intro exI [of _ False]) auto
qed

lemma insert_header_refines_witness:
  "\<exists>st'. insert_header list_dag test_header_ops demo_ecg (th 3 [1, 2]) [] = Ret (True, st') \<and>
     ecg_ok list_dag list_dag_ok test_header_ops st' \<and> abs_ecg st' = (abs_ecg demo_ecg)(3 \<mapsto> (th 3 [1, 2], []))"
proof -
  have "card (dom (node_info_map demo_ecg)) < u64_max" by (simp add: demo_ecg_def u64_max_def)
  moreover have "insertable test_header_ops demo_ecg (th 3 [1, 2])"
    by (simp add: insertable_def test_header_ops_def th_def demo_ecg_def)
  ultimately show ?thesis
    using insert_header_refines [OF list_dag.stable_dag_axioms demo_ecg_ok, of "th 3 [1, 2]" "[]"]
    by (auto simp: test_header_ops_def th_def)
qed

text \<open>C36. The breadth-first search behind \<open>happens_before\<close> always ends and decides ancestry: for
  two known headers it answers whether there is a path of parent edges, and it answers \<open>None\<close>
  exactly when one of the headers is unknown.\<close>

theorem is_ancestor_of_decides:
  assumes "stable_dag D dag_ok" and "ecg_ok D dag_ok H st"
  shows "is_ancestor_of D st a d =
    Some (if a \<in> dom (node_info_map st) \<and> d \<in> dom (node_info_map st)
          then Some ((a, d) \<in> (parent_rel H (node_info_map st))\<^sup>*) else None)"
  using assms by (rule stable_dag.is_ancestor_of_exact)

lemma is_ancestor_of_decides_witness:
  "is_ancestor_of list_dag demo_ecg 1 2 = Some (Some True) \<and> is_ancestor_of list_dag demo_ecg 1 3 = Some None"
proof -
  have "(1, 2) \<in> parent_rel test_header_ops (node_info_map demo_ecg)"
    by (simp add: parent_rel_def demo_ecg_def test_header_ops_def th_def)
  then show ?thesis
    using is_ancestor_of_decides [OF list_dag.stable_dag_axioms demo_ecg_ok]
    by (auto simp: demo_ecg_def)
qed

text \<open>Roots, tips, depths and ancestry depend on the set of headers only, not on the order in
  which they were inserted nor on the graph library: two replicas with the same headers agree.\<close>

theorem ecg_replicas_agree:
  assumes "stable_dag D dag_ok" and "stable_dag D' dag_ok'"
    and l: "ecg_ok D dag_ok H st" and r: "ecg_ok D' dag_ok' H st'"
    and same: "\<And>h. get_header st h = get_header st' h"
  shows "root_nodes st = root_nodes st' \<and> tips st = tips st' \<and>
    (\<forall>h. get_header_depth st h = get_header_depth st' h) \<and>
    (\<forall>a d. is_ancestor_of D st a d = is_ancestor_of D' st' a d)"
proof -
  let ?m = "node_info_map st" and ?m' = "node_info_map st'"
  have hdr: "map_option header (?m h) = map_option header (?m' h)" for h
    using same [of h] by (simp add: get_header_def)
  have "dom ?m = {h. get_header st h \<noteq> None}" "dom ?m' = {h. get_header st' h \<noteq> None}"
    by (auto simp: get_header_def)
  then have doms: "dom ?m = dom ?m'" using same by simp
  have rel: "parent_rel H ?m = parent_rel H ?m'"
    using same by (auto simp: parent_rel_of_headers)
  have m: "map_ok H ?m" "map_ok H ?m'" using l r by (auto simp: ecg_ok_def)
  have roots: "root_nodes st = root_nodes st'"
    using same by (simp add: roots_of_headers [OF l] roots_of_headers [OF r])
  have tips: "tips st = tips st'" using l r rel doms by (simp add: ecg_ok_def)
  have "wf (parent_rel H ?m)"
  proof (rule finite_acyclic_wf)
    show "finite (parent_rel H ?m)"
      by (rule finite_subset [of _ "dom ?m \<times> dom ?m"]) (use m parent_rel_dom [OF m(1)] in \<open>auto simp: map_ok_def\<close>)
  qed (use m in \<open>simp add: map_ok_def\<close>)
  then have depths: "depth_of ?m h = depth_of ?m' h" for h
  proof (induction h rule: wf_induct_rule)
    case (less h)
    show ?case
    proof (cases "?m h")
      case None
      with hdr [of h] show ?thesis by (simp add: depth_of_def)
    next
      case (Some n)
      with hdr [of h] obtain n' where n': "?m' h = Some n'" "header n' = header n"
        by (cases "?m' h") auto
      have "depth_from ?m (get_parent_ids H (header n)) = depth_from ?m' (get_parent_ids H (header n))"
        using Some less by (intro depth_from_cong) (auto simp: parent_rel_def)
      moreover have "depth n = depth_from ?m (get_parent_ids H (header n))"
        "depth n' = depth_from ?m' (get_parent_ids H (header n'))"
        using m Some n' unfolding map_ok_def by blast+
      ultimately show ?thesis using Some n' by (simp add: depth_of_def)
    qed
  qed
  have "get_header_depth st h = get_header_depth st' h" for h
    using depths [of h] hdr [of h] by (cases "?m h"; cases "?m' h") (auto simp: get_header_depth_def depth_of_def)
  then show ?thesis
    using roots tips stable_dag.is_ancestor_of_exact [OF assms(1) l]
      stable_dag.is_ancestor_of_exact [OF assms(2) r] doms rel by simp
qed

text \<open>Two roots, inserted in either order.\<close>

definition two_roots :: "u32 list \<Rightarrow> nat \<Rightarrow> nat \<Rightarrow> (u32 list_graph, u32, test_header) ecg" where
  "two_roots ns i j = \<lparr>dependency_graph = (ns, []), root_nodes = {1, 2},
     node_info_map = [1 \<mapsto> \<lparr>graph_index = i, depth = 1, header = th 1 [], operations = []\<rparr>,
                      2 \<mapsto> \<lparr>graph_index = j, depth = 1, header = th 2 [], operations = []\<rparr>],
     tips = {1, 2}\<rparr>"

lemma two_roots_ok:
  assumes "ns = [1, 2] \<and> i = 0 \<and> j = 1 \<or> ns = [2, 1] \<and> i = 1 \<and> j = 0"
  shows "ecg_ok list_dag list_dag_ok test_header_ops (two_roots ns i j)"
proof -
  have rel: "parent_rel test_header_ops (node_info_map (two_roots ns i j)) = {}"
    by (auto simp: parent_rel_def two_roots_def test_header_ops_def th_def split: if_splits)
  have "map_ok test_header_ops (node_info_map (two_roots ns i j))"
    by (simp add: map_ok_def rel acyclic_def)
      (auto simp: two_roots_def test_header_ops_def th_def depth_from_def depth_of_def split: if_splits)
  then show ?thesis
    using assms unfolding ecg_ok_def rel graph_ok_def
    by (auto simp: two_roots_def test_header_ops_def th_def list_dag_def list_dag_ok_def less_Suc_eq
        split: if_splits)
qed

lemma ecg_replicas_agree_witness:
  "two_roots [1, 2] 0 1 \<noteq> two_roots [2, 1] 1 0 \<and>
   (\<forall>a d. is_ancestor_of list_dag (two_roots [1, 2] 0 1) a d = is_ancestor_of list_dag (two_roots [2, 1] 1 0) a d)"
proof -
  have "get_header (two_roots [1, 2] 0 1) h = get_header (two_roots [2, 1] 1 0) h" for h
    by (simp add: get_header_def two_roots_def)
  from ecg_replicas_agree [OF list_dag.stable_dag_axioms list_dag.stable_dag_axioms
      two_roots_ok two_roots_ok this]
  show ?thesis by (simp add: two_roots_def)
qed

end
