(* ===== verification/CausalTime.thy ===== *)
theory CausalTime
  imports Prelude
begin

text \<open>
  \<open>ossa-crdt/src/time.rs\<close>, \<open>time/lamport.rs\<close>, \<open>register/lww.rs\<close> and \<open>ossa-core/src/time.rs\<close>:
  causal states, the comparison that breaks ties between concurrent times, Lamport timestamps,
  the last-writer-wins register and times relative to the current header.

  The trait \<open>CausalState\<close> is its method, a relation \<open>hb\<close> on times; \<open>Ord\<close> is \<open>linorder\<close>. The
  locale \<open>causal_state\<close> is what the trait means, \<open>linear_time\<close> the case where the total order
  on times extends it.
\<close>

section \<open>Comparing times\<close>

datatype ordering = Less | Equal | Greater

definition cmp :: "'t :: linorder \<Rightarrow> 't \<Rightarrow> ordering" where
  "cmp a b = (if a < b then Less else if b < a then Greater else Equal)"

definition concurrent :: "('t \<Rightarrow> 't \<Rightarrow> bool) \<Rightarrow> 't \<Rightarrow> 't \<Rightarrow> bool" where
  "concurrent hb t1 t2 = (\<not> hb t1 t2 \<and> \<not> hb t2 t1)"

definition compare_with_tiebreak :: "('t :: linorder \<Rightarrow> 't \<Rightarrow> bool) \<Rightarrow> 't \<Rightarrow> 't \<Rightarrow> ordering" where
  "compare_with_tiebreak hb t1 t2 =
     (if hb t1 t2 then Less else if hb t2 t1 then Greater else cmp t1 t2)"

section \<open>Times relative to the current header\<close>

datatype 't causal_time = Current u8 | Time 't

definition current_time :: "u8 \<Rightarrow> 't causal_time" where
  "current_time operation_position = Current operation_position"

section \<open>Lamport timestamps\<close>

text \<open>\<open>SystemTime\<close> is the number of its clock ticks.\<close>

datatype 'id lamport_timestamp = Lamport (timestamp: nat) (lamport_id: 'id)

definition lamport_happens_before :: "'id lamport_timestamp \<Rightarrow> 'id lamport_timestamp \<Rightarrow> bool" where
  "lamport_happens_before t1 t2 = (lamport_id t1 = lamport_id t2 \<and> timestamp t1 < timestamp t2)"

definition lamport_cmp :: "'id :: linorder lamport_timestamp \<Rightarrow> 'id lamport_timestamp \<Rightarrow> ordering" where
  "lamport_cmp a b =
     (if timestamp a < timestamp b then Less
      else if timestamp b < timestamp a then Greater
      else cmp (lamport_id a) (lamport_id b))"

definition lamport_partial_cmp ::
    "'id lamport_timestamp \<Rightarrow> 'id lamport_timestamp \<Rightarrow> ordering option" where
  "lamport_partial_cmp a b =
     (if lamport_id a = lamport_id b then Some (cmp (timestamp a) (timestamp b)) else None)"

instantiation lamport_timestamp :: (linorder) linorder
begin

definition less_lamport_timestamp :: "'a lamport_timestamp \<Rightarrow> 'a lamport_timestamp \<Rightarrow> bool" where
  "a < b \<longleftrightarrow> lamport_cmp a b = Less"

definition less_eq_lamport_timestamp :: "'a lamport_timestamp \<Rightarrow> 'a lamport_timestamp \<Rightarrow> bool" where
  "a \<le> b \<longleftrightarrow> lamport_cmp a b \<noteq> Greater"

instance
  by standard
    (auto simp: less_lamport_timestamp_def less_eq_lamport_timestamp_def lamport_cmp_def cmp_def
      split: if_splits intro: lamport_timestamp.expand)

end

section \<open>Last writer wins\<close>

record ('t, 'a) lww =
  lww_time :: 't
  lww_value :: 'a

definition lww_apply ::
    "('t :: linorder \<Rightarrow> 't \<Rightarrow> bool) \<Rightarrow> ('t, 'a) lww \<Rightarrow> ('t, 'a) lww \<Rightarrow> ('t, 'a) lww res" where
  "lww_apply hb self op =
     (case compare_with_tiebreak hb (lww_time self) (lww_time op) of
        Less \<Rightarrow> Ret op
      | Greater \<Rightarrow> Ret self
      | Equal \<Rightarrow> Panic Unreachable)"

text \<open>\<open>ConcretizeTime\<close> for the register, given the conversion of its time.\<close>

definition lww_concretize :: "('s \<Rightarrow> 'h \<Rightarrow> 't) \<Rightarrow> ('s, 'a) lww \<Rightarrow> 'h \<Rightarrow> ('t, 'a) lww" where
  "lww_concretize concretize src current_header =
     \<lparr>lww_time = concretize (lww_time src) current_header, lww_value = lww_value src\<rparr>"

section \<open>What a causal state is\<close>

locale causal_state =
  fixes known :: "'t :: linorder set" and hb :: "'t \<Rightarrow> 't \<Rightarrow> bool"
  assumes hb_irrefl: "t \<in> known \<Longrightarrow> \<not> hb t t"
    and hb_trans: "a \<in> known \<Longrightarrow> b \<in> known \<Longrightarrow> c \<in> known \<Longrightarrow> hb a b \<Longrightarrow> hb b c \<Longrightarrow> hb a c"
begin

lemma hb_asym: "a \<in> known \<Longrightarrow> b \<in> known \<Longrightarrow> hb a b \<Longrightarrow> \<not> hb b a"
  using hb_irrefl hb_trans by blast

lemma compare_antisym:
  assumes "a \<in> known" "b \<in> known"
  shows "compare_with_tiebreak hb a b = Less \<longleftrightarrow> compare_with_tiebreak hb b a = Greater"
    and "compare_with_tiebreak hb a b = Equal \<longleftrightarrow> a = b"
  using assms hb_asym [OF assms] hb_irrefl [of a] by (auto simp: compare_with_tiebreak_def cmp_def)

text \<open>The later of two writes wins in either order, and the register never panics on distinct times.\<close>

lemma lww_apply_later:
  assumes "lww_time s \<in> known" "lww_time op \<in> known" "hb (lww_time s) (lww_time op)"
  shows "lww_apply hb s op = Ret op" and "lww_apply hb op s = Ret op"
  using assms(3) hb_asym [OF assms] by (simp_all add: lww_apply_def compare_with_tiebreak_def)

lemma lww_apply_commutes:
  assumes "lww_time a \<in> known" "lww_time b \<in> known" "lww_time a \<noteq> lww_time b"
  shows "lww_apply hb a b = lww_apply hb b a \<and> lww_apply hb a b \<in> {Ret a, Ret b}"
  using compare_antisym [OF assms(1,2)] compare_antisym [OF assms(2,1)] assms(3)
  by (cases "compare_with_tiebreak hb (lww_time a) (lww_time b)") (auto simp: lww_apply_def)

end

locale linear_time = causal_state known hb for known :: "'t :: linorder set" and hb +
  assumes hb_less: "a \<in> known \<Longrightarrow> b \<in> known \<Longrightarrow> hb a b \<Longrightarrow> a < b"
begin

lemma compare_linear:
  "a \<in> known \<Longrightarrow> b \<in> known \<Longrightarrow> compare_with_tiebreak hb a b = cmp a b"
  using hb_less by (fastforce simp: compare_with_tiebreak_def cmp_def)

definition newest :: "'a set \<Rightarrow> ('a \<Rightarrow> 't) \<Rightarrow> 'a \<Rightarrow> bool" where
  "newest W time w \<longleftrightarrow> w \<in> W \<and> (\<forall>x \<in> W. time x \<le> time w)"

text \<open>Writes with distinct times, in any order: the register ends with the newest.\<close>

lemma lww_fold_newest:
  assumes "lww_time ` set (s # ops) \<subseteq> known" and "distinct (map lww_time (s # ops))"
  shows "\<exists>w. foldR (lww_apply hb) s ops = Ret w \<and> newest (set (s # ops)) lww_time w"
  using assms
proof (induction ops arbitrary: s)
  case Nil
  then show ?case by (simp add: newest_def)
next
  case (Cons op ops)
  have lin: "compare_with_tiebreak hb (lww_time s) (lww_time op) = cmp (lww_time s) (lww_time op)"
    using Cons.prems by (intro compare_linear) auto
  consider "lww_time s < lww_time op" | "lww_time op < lww_time s" using Cons.prems(2) by fastforce
  then show ?case
  proof cases
    case 1
    then have "lww_apply hb s op = Ret op" by (simp add: lww_apply_def lin cmp_def)
    with Cons.IH [of op] Cons.prems 1 show ?thesis by (fastforce simp: newest_def)
  next
    case 2
    then have "lww_apply hb s op = Ret s" by (auto simp: lww_apply_def lin cmp_def)
    with Cons.IH [of s] Cons.prems 2 show ?thesis by (fastforce simp: newest_def)
  qed
qed

lemma newest_unique:
  "newest W time v \<Longrightarrow> newest W time w \<Longrightarrow> inj_on time W \<Longrightarrow> v = w"
  by (metis newest_def inj_onD order_antisym)

lemma lww_fold_converges:
  assumes "lww_time ` set (s # ops) \<subseteq> known" and "distinct (map lww_time (s # ops))"
    and "mset (s' # ops') = mset (s # ops)"
  shows "foldR (lww_apply hb) s' ops' = foldR (lww_apply hb) s ops"
proof -
  have set: "set (s' # ops') = set (s # ops)" using assms(3) by (rule mset_eq_setD)
  have "distinct (map lww_time (s' # ops'))"
    using assms(2,3) by (metis mset_eq_imp_distinct_iff mset_map)
  with lww_fold_newest [of s' ops'] lww_fold_newest [OF assms(1,2)] assms(1) set obtain v w where
    "foldR (lww_apply hb) s' ops' = Ret v" "newest (set (s # ops)) lww_time v"
    "foldR (lww_apply hb) s ops = Ret w" "newest (set (s # ops)) lww_time w" by metis
  moreover have "inj_on lww_time (set (s # ops))" using assms(2) by (metis distinct_map)
  ultimately show ?thesis using newest_unique by metis
qed

end

interpretation lamport: linear_time UNIV "lamport_happens_before :: 'id :: linorder lamport_timestamp \<Rightarrow> _"
  by unfold_locales
    (auto simp: lamport_happens_before_def less_lamport_timestamp_def lamport_cmp_def)

section \<open>Properties\<close>

text \<open>Under Lamport timestamps the last-writer-wins register converges: replicas that apply the
  same writes, with distinct timestamps, in any two orders hold the same value, that of the
  newest timestamp, and none of them panics.\<close>

theorem lww_lamport_converges:
  fixes s :: "('id :: linorder lamport_timestamp, 'a) lww"
  assumes "distinct (map lww_time (s # ops))" and "mset (s' # ops') = mset (s # ops)"
  shows "\<exists>w. foldR (lww_apply lamport_happens_before) s ops = Ret w \<and>
    foldR (lww_apply lamport_happens_before) s' ops' = Ret w \<and>
    w \<in> set (s # ops) \<and> (\<forall>x \<in> set (s # ops). lww_time x \<le> lww_time w)"
  using lamport.lww_fold_newest [of s ops] lamport.lww_fold_converges [of s ops s' ops'] assms
  by (simp add: lamport.newest_def)

lemma lww_lamport_converges_witness:
  "\<exists>w. foldR (lww_apply lamport_happens_before) \<lparr>lww_time = Lamport 3 (1::nat), lww_value = CHR ''a''\<rparr>
      [\<lparr>lww_time = Lamport 3 2, lww_value = CHR ''b''\<rparr>, \<lparr>lww_time = Lamport 1 2, lww_value = CHR ''c''\<rparr>] = Ret w \<and>
    foldR (lww_apply lamport_happens_before) \<lparr>lww_time = Lamport 1 2, lww_value = CHR ''c''\<rparr>
      [\<lparr>lww_time = Lamport 3 2, lww_value = CHR ''b''\<rparr>, \<lparr>lww_time = Lamport 3 1, lww_value = CHR ''a''\<rparr>] = Ret w"
  using lww_lamport_converges [of "\<lparr>lww_time = Lamport 3 (1::nat), lww_value = CHR ''a''\<rparr>"
      "[\<lparr>lww_time = Lamport 3 2, lww_value = CHR ''b''\<rparr>, \<lparr>lww_time = Lamport 1 2, lww_value = CHR ''c''\<rparr>]"
      "\<lparr>lww_time = Lamport 1 2, lww_value = CHR ''c''\<rparr>"
      "[\<lparr>lww_time = Lamport 3 2, lww_value = CHR ''b''\<rparr>, \<lparr>lww_time = Lamport 3 1, lww_value = CHR ''a''\<rparr>]"]
  by auto

text \<open>\<open>PartialOrd\<close> of Lamport timestamps is \<open>happens_before\<close> read both ways: it orders two
  timestamps exactly when they are causally related or equal, and then agrees with \<open>Ord\<close>.\<close>

theorem lamport_partial_cmp_causal:
  "lamport_partial_cmp a b =
     (if lamport_happens_before a b then Some Less
      else if lamport_happens_before b a then Some Greater
      else if a = b then Some Equal else None) \<and>
   (case lamport_partial_cmp a b of
      Some c \<Rightarrow> c = lamport_cmp a b
    | None \<Rightarrow> concurrent lamport_happens_before a b \<and> a \<noteq> b)"
  by (cases a; cases b)
    (auto simp: lamport_partial_cmp_def lamport_happens_before_def lamport_cmp_def cmp_def concurrent_def)

end
