(* ===== verification/EcgTime.thy ===== *)
theory EcgTime
  imports EcgInvariant CausalTime
begin

text \<open>
  \<open>ossa-core/src/store/ecg/v0.rs\<close>: headers and bodies of version 0, operation ids and the causal
  order the graph gives them. Hashing and CBOR are third-party code: the serializers and the
  nonce are arguments. A body holds its serialized operations.
\<close>

section \<open>Headers and bodies\<close>

record 'h header_v0 =
  nonce :: u8
  parent_ids :: "'h list"
  operations_count :: u8
  operations_hash :: 'h

record 'op body_v0 =
  body_operations :: "'op list"

definition max_operation_count :: nat where
  "max_operation_count = 256"

definition new_body :: "'op list \<Rightarrow> 'op body_v0 res" where
  "new_body ops = (if length ops > max_operation_count then Panic ExplicitPanic
     else Ret \<lparr>body_operations = ops\<rparr>)"

text \<open>\<open>len().try_into::<u8>().expect(..)\<close>\<close>

definition body_operations_count :: "'op body_v0 \<Rightarrow> u8 res" where
  "body_operations_count b =
     (let n = length (body_operations b) in
      if n < 2 ^ 8 then Ret (of_nat n) else Panic ExpectFailed)"

definition new_header ::
    "('op body_v0 \<Rightarrow> 'h) \<Rightarrow> u8 \<Rightarrow> 'op body_v0 \<Rightarrow> 'h :: linorder set \<Rightarrow> 'h header_v0 res" where
  "new_header get_hash rnd b parents =
     bindR (body_operations_count b) (\<lambda>c.
     Ret \<lparr>nonce = rnd, parent_ids = sorted_list_of_set parents, operations_count = c,
          operations_hash = get_hash b\<rparr>)"

text \<open>\<open>ECGHeader for Header\<close>; \<open>tmp_hash\<close> serializes and hashes the header.\<close>

definition header_v0_ops :: "('h header_v0 \<Rightarrow> 'h) \<Rightarrow> ('h, 'h header_v0) header_ops" where
  "header_v0_ops tmp_hash =
     \<lparr>get_parent_ids = (\<lambda>h. parent_ids h), get_header_id = (\<lambda>h. tmp_hash h),
      validate_header = (\<lambda>h header_id. True)\<rparr>"

section \<open>Operation ids\<close>

datatype 'h operation_id = OperationId (op_header: "'h option") (op_position: u8)

definition concretize_operation_id :: "'h operation_id causal_time \<Rightarrow> 'h \<Rightarrow> 'h operation_id" where
  "concretize_operation_id src current_header =
     (case src of
        Current operation_position \<Rightarrow> OperationId (Some current_header) operation_position
      | Time t \<Rightarrow> t)"

definition body_iter_operations :: "('sop \<Rightarrow> 'h \<Rightarrow> 'op) \<Rightarrow> 'sop body_v0 \<Rightarrow> 'h \<Rightarrow> 'op list" where
  "body_iter_operations concretize b header_id = map (\<lambda>op. concretize op header_id) (body_operations b)"

text \<open>The derived \<open>Ord\<close>: the header first, \<open>None\<close> least, then the position.\<close>

fun option_cmp :: "'h :: linorder option \<Rightarrow> 'h option \<Rightarrow> ordering" where
  "option_cmp None None = Equal"
| "option_cmp None (Some _) = Less"
| "option_cmp (Some _) None = Greater"
| "option_cmp (Some a) (Some b) = cmp a b"

definition operation_id_cmp :: "'h :: linorder operation_id \<Rightarrow> 'h operation_id \<Rightarrow> ordering" where
  "operation_id_cmp a b =
     (case option_cmp (op_header a) (op_header b) of
        Equal \<Rightarrow> cmp (op_position a) (op_position b)
      | c \<Rightarrow> c)"

lemma option_cmp_simps:
  "option_cmp a b = Greater \<longleftrightarrow> option_cmp b a = Less"
  "option_cmp a b = Equal \<longleftrightarrow> a = b"
  "option_cmp a a = Equal"
  by (cases a; cases b; auto simp: cmp_def)+

lemma option_cmp_trans: "option_cmp a b = Less \<Longrightarrow> option_cmp b c = Less \<Longrightarrow> option_cmp a c = Less"
  by (cases a; cases b; cases c) (auto simp: cmp_def split: if_splits)

lemma option_cmp_total: "option_cmp a b = Less \<or> a = b \<or> option_cmp b a = Less"
  by (cases "option_cmp a b") (auto simp: option_cmp_simps)

lemma option_cmp_irrefl: "option_cmp a b = Less \<Longrightarrow> option_cmp b a \<noteq> Less"
  by (cases a; cases b) (auto simp: cmp_def split: if_splits)

lemma operation_id_cmp_iff:
  shows "operation_id_cmp a b = Less \<longleftrightarrow>
     option_cmp (op_header a) (op_header b) = Less \<or> op_header a = op_header b \<and> op_position a < op_position b"
    (is ?less)
  and "operation_id_cmp a b \<noteq> Greater \<longleftrightarrow>
     option_cmp (op_header a) (op_header b) = Less \<or> op_header a = op_header b \<and> op_position a \<le> op_position b"
    (is ?le)
proof -
  have "?less \<and> ?le"
  proof (cases "option_cmp (op_header a) (op_header b)")
    case Less
    then show ?thesis by (simp add: operation_id_cmp_def)
  next
    case Equal
    then have "op_header a = op_header b" by (simp add: option_cmp_simps)
    with Equal show ?thesis by (auto simp: operation_id_cmp_def cmp_def)
  next
    case Greater
    then have "op_header a \<noteq> op_header b" by (auto simp: option_cmp_simps)
    with Greater show ?thesis by (simp add: operation_id_cmp_def)
  qed
  then show ?less ?le by blast+
qed

instantiation operation_id :: (linorder) linorder
begin

definition less_operation_id :: "'a operation_id \<Rightarrow> 'a operation_id \<Rightarrow> bool" where
  "a < b \<longleftrightarrow> operation_id_cmp a b = Less"

definition less_eq_operation_id :: "'a operation_id \<Rightarrow> 'a operation_id \<Rightarrow> bool" where
  "a \<le> b \<longleftrightarrow> operation_id_cmp a b \<noteq> Greater"

instance
proof (standard, unfold less_operation_id_def less_eq_operation_id_def operation_id_cmp_iff, goal_cases)
  case (4 x y)
  then show ?case by (auto intro: operation_id.expand dest: option_cmp_irrefl simp: option_cmp_simps)
next
  case (5 x y)
  then show ?case using option_cmp_total [of "op_header x" "op_header y"] by auto
qed (auto dest: option_cmp_irrefl option_cmp_trans simp: option_cmp_simps)

end

section \<open>The causal order of the graph\<close>

definition happens_before ::
    "('g, 'h) dag_ops \<Rightarrow> ('g, 'h, 'hd) ecg \<Rightarrow> 'h operation_id \<Rightarrow> 'h operation_id \<Rightarrow> bool res option" where
  "happens_before D st a b =
     (if op_header a = op_header b then Some (Ret (op_position a < op_position b))
      else
        case op_header a of
          None \<Rightarrow> Some (Ret True)
        | Some a_header_id \<Rightarrow>
            (case op_header b of
               None \<Rightarrow> Some (Ret False)
             | Some b_header_id \<Rightarrow>
                 map_option expect (is_ancestor_of D st a_header_id b_header_id)))"

section \<open>Headers of version 0\<close>

text \<open>A body that \<open>new_body\<close> accepts gets a header exactly when it has at most 255 operations:
  the header then counts them and lists the parents in increasing order without duplicates.
  A body of 256 operations, which \<open>MAX_OPERATION_COUNT\<close> admits, makes \<open>new_header\<close> panic.\<close>

theorem new_header_limit:
  assumes "new_body ops = Ret b" and "finite parents"
  shows "if length ops \<le> 255
    then \<exists>h. new_header get_hash rnd b parents = Ret h \<and> unat (operations_count h) = length ops \<and>
      sorted_wrt (<) (parent_ids h) \<and> set (parent_ids h) = parents \<and> operations_hash h = get_hash b
    else length ops = 256 \<and> new_header get_hash rnd b parents = Panic ExpectFailed"
proof -
  from assms(1) have b: "body_operations b = ops" and len: "length ops \<le> 256"
    by (auto simp: new_body_def max_operation_count_def split: if_splits)
  have "unat (of_nat (length ops) :: u8) = length ops" if "length ops \<le> 255"
    using that by (simp add: unat_of_nat take_bit_eq_mod)
  with assms(2) len show ?thesis
    by (auto simp: new_header_def body_operations_count_def b Let_def strict_sorted_iff)
qed

lemma new_header_limit_witness:
  "\<exists>b. new_body (replicate 256 (0::nat)) = Ret b \<and> new_header (\<lambda>_. 0::nat) 0 b {1, 2} = Panic ExpectFailed"
proof -
  have "new_body (replicate 256 (0::nat)) = Ret \<lparr>body_operations = replicate 256 0\<rparr>"
    by (simp add: new_body_def max_operation_count_def)
  with new_header_limit [OF this, of "{1, 2 :: nat}" "\<lambda>_. 0" 0] show ?thesis by auto
qed

section \<open>The causal order\<close>

definition known_ops :: "('g, 'h, 'hd) ecg \<Rightarrow> 'h operation_id set" where
  "known_ops st = {t. \<forall>h. op_header t = Some h \<longrightarrow> h \<in> dom (node_info_map st)}"

text \<open>
  The order the graph means: within a header by position, the initial state before everything
  else, and otherwise along paths of parent edges.
\<close>

definition op_before :: "('h, 'hd) header_ops \<Rightarrow> ('g, 'h, 'hd) ecg \<Rightarrow> 'h operation_id \<Rightarrow> 'h operation_id \<Rightarrow> bool" where
  "op_before H st a b \<longleftrightarrow>
     op_header a = op_header b \<and> op_position a < op_position b \<or>
     op_header a = None \<and> op_header b \<noteq> None \<or>
     (\<exists>x y. op_header a = Some x \<and> op_header b = Some y \<and> (x, y) \<in> (parent_rel H (node_info_map st))\<^sup>+)"

lemma op_before_causal:
  fixes st :: "('g, 'h :: linorder, 'hd) ecg"
  assumes "acyclic (parent_rel H (node_info_map st))"
  shows "causal_state (known_ops st) (op_before H st)"
proof
  fix a b c :: "'h operation_id"
  have ac: "(x, x) \<notin> (parent_rel H (node_info_map st))\<^sup>+" for x
    using assms by (simp add: acyclic_def)
  then show "\<not> op_before H st a a" by (auto simp: op_before_def)
  assume "op_before H st a b" "op_before H st b c"
  then show "op_before H st a c"
    by (auto simp: op_before_def dest: trancl_trans)
qed

lemma happens_before_spec:
  assumes "stable_dag D dag_ok" and ok: "ecg_ok D dag_ok H st"
    and "a \<in> known_ops st" and "b \<in> known_ops st"
  shows "happens_before D st a b = Some (Ret (op_before H st a b))"
proof -
  have ac: "(x, x) \<notin> (parent_rel H (node_info_map st))\<^sup>+" for x
    using ok by (simp add: ecg_ok_def map_ok_def acyclic_def)
  show ?thesis
    using assms(3,4) ac stable_dag.is_ancestor_of_exact [OF assms(1,2)]
    by (cases "op_header a"; cases "op_header b")
      (auto simp: happens_before_def op_before_def known_ops_def rtrancl_eq_or_trancl)
qed

text \<open>C37. Over the operations of known headers \<open>happens_before\<close> always returns, never hits its
  \<open>expect\<close>, and is the strict partial order of the graph: by position within a header, the
  initial state first, and along parent edges between headers.\<close>

theorem happens_before_causal_order:
  fixes st :: "('g, 'h :: linorder, 'hd) ecg"
  assumes "stable_dag D dag_ok" and "ecg_ok D dag_ok H st"
  shows "(\<forall>a \<in> known_ops st. \<forall>b \<in> known_ops st.
      happens_before D st a b = Some (Ret (op_before H st a b))) \<and>
    irreflp (op_before H st) \<and> transp (op_before H st)"
proof -
  have ac: "acyclic (parent_rel H (node_info_map st))" using assms(2) by (simp add: ecg_ok_def map_ok_def)
  then have "irreflp (op_before H st)" by (auto simp: irreflp_def op_before_def acyclic_def)
  moreover have "transp (op_before H st)"
    by (auto simp: transp_def op_before_def dest: trancl_trans)
  ultimately show ?thesis using happens_before_spec [OF assms] by blast
qed

lemma happens_before_causal_order_witness:
  "happens_before list_dag demo_ecg (OperationId (Some 1) 5) (OperationId (Some 2) 0) = Some (Ret True) \<and>
   happens_before list_dag demo_ecg (OperationId (Some 2) 0) (OperationId (Some 1) 5) = Some (Ret False)"
proof -
  have known: "OperationId (Some 1) 5 \<in> known_ops demo_ecg" "OperationId (Some 2) 0 \<in> known_ops demo_ecg"
    by (simp_all add: known_ops_def demo_ecg_def)
  have "(1, 2) \<in> parent_rel test_header_ops (node_info_map demo_ecg)"
    by (simp add: parent_rel_def demo_ecg_def test_header_ops_def th_def)
  then have "op_before test_header_ops demo_ecg (OperationId (Some 1) 5) (OperationId (Some 2) 0)"
    by (auto simp: op_before_def)
  moreover from this happens_before_causal_order [OF list_dag.stable_dag_axioms demo_ecg_ok]
  have "\<not> op_before test_header_ops demo_ecg (OperationId (Some 2) 0) (OperationId (Some 1) 5)"
    by (metis irreflpD transpD)
  ultimately show ?thesis
    using happens_before_causal_order [OF list_dag.stable_dag_axioms demo_ecg_ok] known by simp
qed

text \<open>The graph of every run is a causal state.\<close>

interpretation ecg_causal: causal_state "known_ops (ecg_run H ps)" "op_before H (ecg_run H ps)"
  by (rule op_before_causal) (use ecg_run_ok [of H ps] in \<open>simp add: ecg_ok_def map_ok_def\<close>)

definition ecg_hb :: "('g, 'h) dag_ops \<Rightarrow> ('g, 'h, 'hd) ecg \<Rightarrow> 'h operation_id \<Rightarrow> 'h operation_id \<Rightarrow> bool" where
  "ecg_hb D st a b = (happens_before D st a b = Some (Ret True))"

lemma ecg_hb_causal:
  fixes st :: "('g, 'h :: linorder, 'hd) ecg"
  assumes "stable_dag D dag_ok" and "ecg_ok D dag_ok H st"
  shows "causal_state (known_ops st) (ecg_hb D st)"
proof -
  have C: "causal_state (known_ops st) (op_before H st)"
    by (rule op_before_causal) (use assms(2) in \<open>simp add: ecg_ok_def map_ok_def\<close>)
  have eq: "ecg_hb D st a b = op_before H st a b" if "a \<in> known_ops st" "b \<in> known_ops st" for a b
    using happens_before_spec [OF assms that] by (simp add: ecg_hb_def)
  show ?thesis
  proof
    show "\<not> ecg_hb D st t t" if "t \<in> known_ops st" for t
      using causal_state.hb_irrefl [OF C that] eq [OF that that] by simp
    show "ecg_hb D st a c" if "a \<in> known_ops st" "b \<in> known_ops st" "c \<in> known_ops st"
      "ecg_hb D st a b" "ecg_hb D st b c" for a b c
      using causal_state.hb_trans [OF C that(1-3)] eq that by simp
  qed
qed

text \<open>On a causal graph a last-writer-wins register respects causality: of two writes with
  different known operation ids the causally later one wins in either order of arrival, and
  two concurrent writes commute.\<close>

theorem lww_ecg_pairwise:
  fixes st :: "('g, 'h :: linorder, 'hd) ecg"
  assumes "stable_dag D dag_ok" and "ecg_ok D dag_ok H st"
    and "lww_time a \<in> known_ops st" and "lww_time b \<in> known_ops st" and "lww_time a \<noteq> lww_time b"
  shows "lww_apply (ecg_hb D st) a b = lww_apply (ecg_hb D st) b a \<and>
    lww_apply (ecg_hb D st) a b \<in> {Ret a, Ret b} \<and>
    (op_before H st (lww_time a) (lww_time b) \<longrightarrow> lww_apply (ecg_hb D st) a b = Ret b)"
proof -
  note C = ecg_hb_causal [OF assms(1,2)]
  have "ecg_hb D st (lww_time a) (lww_time b) = op_before H st (lww_time a) (lww_time b)"
    using happens_before_spec [OF assms(1-4)] by (simp add: ecg_hb_def)
  with causal_state.lww_apply_commutes [OF C assms(3-5)] causal_state.lww_apply_later(1) [OF C assms(3,4)]
  show ?thesis by auto
qed

lemma lww_ecg_pairwise_witness:
  "lww_apply (ecg_hb list_dag demo_ecg) \<lparr>lww_time = OperationId (Some 1) 0, lww_value = CHR ''x''\<rparr>
     \<lparr>lww_time = OperationId (Some 2) 0, lww_value = CHR ''y''\<rparr>
   = Ret \<lparr>lww_time = OperationId (Some 2) 0, lww_value = CHR ''y''\<rparr>"
proof -
  have "(1, 2) \<in> parent_rel test_header_ops (node_info_map demo_ecg)"
    by (simp add: parent_rel_def demo_ecg_def test_header_ops_def th_def)
  then have hb: "op_before test_header_ops demo_ecg (OperationId (Some 1) 0) (OperationId (Some 2) 0)"
    by (auto simp: op_before_def)
  let ?a = "\<lparr>lww_time = OperationId (Some (1 :: u32)) 0, lww_value = CHR ''x''\<rparr>"
  let ?b = "\<lparr>lww_time = OperationId (Some (2 :: u32)) 0, lww_value = CHR ''y''\<rparr>"
  have "lww_time ?a \<in> known_ops demo_ecg" "lww_time ?b \<in> known_ops demo_ecg" "lww_time ?a \<noteq> lww_time ?b"
    by (simp_all add: known_ops_def demo_ecg_def)
  from lww_ecg_pairwise [OF list_dag.stable_dag_axioms demo_ecg_ok this]
  have "op_before test_header_ops demo_ecg (lww_time ?a) (lww_time ?b) \<longrightarrow>
      lww_apply (ecg_hb list_dag demo_ecg) ?a ?b = Ret ?b" by (elim conjE)
  with hb show ?thesis by simp
qed

text \<open>
  Three headers, 3 and 2 roots and 1 a child of 3, with one write each. The write of 1 beats
  that of 3 causally, 3 beats 2 and 2 beats 1 by id.
\<close>

definition cycle_ecg :: "(u32 list_graph, u32, test_header) ecg" where
  "cycle_ecg = \<lparr>dependency_graph = ([3, 2, 1], [(0, 2)]), root_nodes = {2, 3},
     node_info_map = [3 \<mapsto> \<lparr>graph_index = 0, depth = 1, header = th 3 [], operations = []\<rparr>,
                      2 \<mapsto> \<lparr>graph_index = 1, depth = 1, header = th 2 [], operations = []\<rparr>,
                      1 \<mapsto> \<lparr>graph_index = 2, depth = 2, header = th 1 [3], operations = []\<rparr>],
     tips = {1, 2}\<rparr>"

definition write_of :: "u32 \<Rightarrow> (u32 operation_id, u32) lww" where
  "write_of h = \<lparr>lww_time = OperationId (Some h) 0, lww_value = h\<rparr>"

lemma cycle_ecg_rel: "parent_rel test_header_ops (node_info_map cycle_ecg) = {(3, 1)}"
  by (auto simp: parent_rel_def cycle_ecg_def test_header_ops_def th_def split: if_splits)

lemma cycle_ecg_ok: "ecg_ok list_dag list_dag_ok test_header_ops cycle_ecg"
proof -
  have "acyclic {(3 :: u32, 1)}" by (simp add: acyclic_insert) (simp add: acyclic_def)
  then have "map_ok test_header_ops (node_info_map cycle_ecg)"
    by (simp add: map_ok_def cycle_ecg_rel)
      (auto simp: cycle_ecg_def test_header_ops_def th_def depth_from_def depth_of_def split: if_splits)
  then show ?thesis
    unfolding ecg_ok_def cycle_ecg_rel graph_ok_def
    by (auto simp: cycle_ecg_def test_header_ops_def th_def list_dag_def list_dag_ok_def less_Suc_eq
        split: if_splits)
qed

lemma cycle_ecg_hb:
  assumes "{x, y} \<subseteq> {1, 2, 3}"
  shows "ecg_hb list_dag cycle_ecg (OperationId (Some x) 0) (OperationId (Some y) 0) \<longleftrightarrow> x = 3 \<and> y = 1"
proof -
  have "OperationId (Some x) 0 \<in> known_ops cycle_ecg" "OperationId (Some y) 0 \<in> known_ops cycle_ecg"
    using assms by (auto simp: known_ops_def cycle_ecg_def)
  from happens_before_spec [OF list_dag.stable_dag_axioms cycle_ecg_ok this]
  have "ecg_hb list_dag cycle_ecg (OperationId (Some x) 0) (OperationId (Some y) 0) =
      op_before test_header_ops cycle_ecg (OperationId (Some x) 0) (OperationId (Some y) 0)"
    by (simp add: ecg_hb_def)
  moreover have "{(3 :: u32, 1 :: u32)}\<^sup>+ = {(3, 1)}"
    by (rule trancl_id) (simp add: trans_def)
  ultimately show ?thesis by (simp add: op_before_def cycle_ecg_rel)
qed


end
