(* ===== verification/EcgSync.thy ===== *)
theory EcgSync
  imports EcgInvariant StoreMessages
begin

text \<open>
  \<open>ossa-core/src/protocol/store_peer/ecg_sync.rs\<close>: one side asks for the headers it lacks (the
  initiator), the other works out what to send (the responder). The responder keeps the headers
  its peer is known to have, the headers the peer has and it lacks, a queue of headers to send,
  least depth first, and a queue of headers to propose.

  \<open>BinaryHeap\<close> is the list heap of \<open>Prelude\<close>, its order the order of the tuples. The loops that
  consume a queue are \<open>partial_function\<close>s. \<open>BTreeSet::insert\<close> returns whether the element is new.
  A distance is a \<open>u64\<close> and wraps.
\<close>

record 'id responder =
  their_known :: "'id set"
  our_unknown :: "'id set"
  send_queue :: "(nat reverse \<times> 'id) list"
  sent_haves :: "'id list"
  haves_queue :: "(bool \<times> nat \<times> 'id \<times> u64) list"

definition responder_new :: "'id responder" where
  "responder_new = \<lparr>their_known = {}, our_unknown = {}, send_queue = [], sent_haves = [], haves_queue = []\<rparr>"

section \<open>Marking headers as known by the peer\<close>

partial_function (option) mark_loop ::
    "('g, 'id) dag_ops \<Rightarrow> ('g, 'id, 'hd) ecg \<Rightarrow> 'id set \<Rightarrow> 'id list \<Rightarrow> 'id set res option" where
  "mark_loop D st known queue =
     (case queue of
        [] \<Rightarrow> Some (Ret known)
      | header_id # rest \<Rightarrow>
          let contains = header_id \<notin> known; known' = insert header_id known in
          if \<not> contains then
            (case get_parents D st header_id of
               Some parents \<Rightarrow> mark_loop D st known' (rest @ parents)
             | None \<Rightarrow> Some (Panic Unreachable))
          else mark_loop D st known' rest)"

declare mark_loop.simps [code]

definition mark_as_known_helper ::
    "('g, 'id) dag_ops \<Rightarrow> 'id set \<Rightarrow> ('g, 'id, 'hd) ecg \<Rightarrow> 'id \<Rightarrow> 'id set res option" where
  "mark_as_known_helper D known st header_id = mark_loop D st known [header_id]"

definition they_know :: "'id responder \<Rightarrow> 'id \<Rightarrow> bool" where
  "they_know r h = (h \<in> their_known r \<or> h \<in> our_unknown r)"

definition mark_as_known ::
    "('g, 'id) dag_ops \<Rightarrow> ('g, 'id, 'hd) ecg \<Rightarrow> 'id responder \<Rightarrow> 'id \<Rightarrow> 'id responder res option" where
  "mark_as_known D st r h =
     bindL (mark_as_known_helper D (their_known r) st h) (\<lambda>k. Some (Ret (r\<lparr>their_known := k\<rparr>)))"

section \<open>What the peer says\<close>

definition handle_tip ::
    "('g, 'id :: linorder) dag_ops \<Rightarrow> ('g, 'id, 'hd) ecg \<Rightarrow> 'id responder \<Rightarrow> 'id \<Rightarrow> 'id responder res option" where
  "handle_tip D st r h =
     (if contains st h then
        bindL (mark_as_known D st r h) (\<lambda>r.
        bindL (Some (expect (get_children_with_depth D st h))) (\<lambda>children.
        Some (Ret (r\<lparr>send_queue := heap_extend children (send_queue r)\<rparr>))))
      else Some (Ret (r\<lparr>our_unknown := insert h (our_unknown r)\<rparr>)))"

definition handle_their_tips ::
    "('g, 'id :: linorder) dag_ops \<Rightarrow> ('g, 'id, 'hd) ecg \<Rightarrow> 'id responder \<Rightarrow> 'id list
     \<Rightarrow> 'id responder res option" where
  "handle_their_tips D st r their_tips =
     (let r = (if their_tips = []
               then r\<lparr>send_queue := heap_extend (get_root_nodes_with_depth st) (send_queue r)\<rparr> else r)
      in foldL (handle_tip D st) r their_tips)"

definition handle_known_bit ::
    "('g, 'id :: linorder) dag_ops \<Rightarrow> ('g, 'id, 'hd) ecg \<Rightarrow> header_bitmap \<Rightarrow> 'id responder \<Rightarrow> nat \<times> 'id
     \<Rightarrow> 'id responder res option" where
  "handle_known_bit D st bitmap r ih =
     (case ih of (i, h) \<Rightarrow>
        bindL (Some (expect (if i < length bitmap then Some (bitmap ! i) else None))) (\<lambda>knows.
        if knows then
          bindL (mark_as_known D st r h) (\<lambda>r.
          bindL (Some (expect (get_children_with_depth D st h))) (\<lambda>children.
          Some (Ret (r\<lparr>send_queue := heap_extend children (send_queue r)\<rparr>))))
        else
          bindL (Some (expect (get_parents D st h))) (\<lambda>parents.
          if is_root_node st h \<or> list_all (\<lambda>p. p \<in> their_known r) parents then
            bindL (Some (expect (get_header_depth st h))) (\<lambda>d.
            Some (Ret (r\<lparr>send_queue := heap_push (Reverse d, h) (send_queue r)\<rparr>)))
          else Some (Ret r))))"

definition handle_their_known ::
    "('g, 'id :: linorder) dag_ops \<Rightarrow> ('g, 'id, 'hd) ecg \<Rightarrow> 'id responder \<Rightarrow> header_bitmap
     \<Rightarrow> 'id responder res option" where
  "handle_their_known D st r bitmap =
     foldL (handle_known_bit D st bitmap) r (zip [0 ..< length (sent_haves r)] (sent_haves r))"

text \<open>\<open>extract_if\<close> removes what is now known, in increasing order.\<close>

definition update_our_unknown ::
    "('g, 'id :: linorder) dag_ops \<Rightarrow> ('g, 'id, 'hd) ecg \<Rightarrow> 'id responder \<Rightarrow> 'id responder res option" where
  "update_our_unknown D st r =
     (let now_known = {h \<in> our_unknown r. contains st h};
          r = r\<lparr>our_unknown := our_unknown r - now_known\<rparr>
      in foldL (mark_as_known D st) r (sorted_list_of_set now_known))"

section \<open>What the responder sends\<close>

partial_function (option) deliver_loop ::
    "('g, 'id :: linorder) dag_ops \<Rightarrow> ('g, 'id, 'hd) ecg \<Rightarrow> ('hd \<times> bytes) list \<Rightarrow> 'id responder
     \<Rightarrow> (('hd \<times> bytes) list \<times> 'id responder) res option" where
  "deliver_loop D st ops r =
     (case heap_pop (send_queue r) of
        None \<Rightarrow> Some (Ret (ops, r))
      | Some e \<Rightarrow>
          let h = snd (fst e); r1 = r\<lparr>send_queue := snd e\<rparr> in
          bindL (if they_know r1 h then Some (Ret (ops, r1))
                 else case get_node st h of
                   None \<Rightarrow> Some (Panic Unreachable)
                 | Some node \<Rightarrow>
                     bindL (mark_as_known D st r1 h) (\<lambda>r2.
                     Some (Ret (ops @ [(header node, operations node)], r2)))) (\<lambda>p.
          bindL (Some (expect (get_children_with_depth D st h))) (\<lambda>children.
          let r3 = (snd p)\<lparr>send_queue := heap_extend children (send_queue (snd p))\<rparr> in
          if length (fst p) = max_deliver_headers then Some (Ret (fst p, r3))
          else deliver_loop D st (fst p) r3)))"

declare deliver_loop.simps [code]

definition prepare_operations ::
    "('g, 'id :: linorder) dag_ops \<Rightarrow> ('g, 'id, 'hd) ecg \<Rightarrow> 'id responder
     \<Rightarrow> (('hd \<times> bytes) list \<times> 'id responder) res option" where
  "prepare_operations D st r = deliver_loop D st [] r"

definition push_parent ::
    "u64 \<Rightarrow> (bool \<times> nat \<times> 'id :: linorder \<times> u64) list \<Rightarrow> nat \<times> 'id \<Rightarrow> (bool \<times> nat \<times> 'id \<times> u64) list" where
  "push_parent distance q p = heap_push (False, fst p, snd p, distance + 1) q"

partial_function (option) haves_loop ::
    "('g, 'id :: linorder) dag_ops \<Rightarrow> ('g, 'id, 'hd) ecg \<Rightarrow> 'id responder \<Rightarrow> 'id responder res option" where
  "haves_loop D st r =
     (case heap_pop (haves_queue r) of
        None \<Rightarrow> Some (Ret r)
      | Some e \<Rightarrow>
          let d = fst (snd (fst e)); h = fst (snd (snd (fst e))); distance = snd (snd (snd (fst e)));
              r1 = r\<lparr>haves_queue := snd e\<rparr> in
          bindL (if they_know r1 h then Some (Ret r1)
                 else
                   let r2 = (if is_power_of_two distance \<or> d = 1
                             then r1\<lparr>sent_haves := sent_haves r1 @ [h]\<rparr> else r1) in
                   case get_parents_with_depth D st h of
                     None \<Rightarrow> Some (Panic Unreachable)
                   | Some parents \<Rightarrow>
                       Some (Ret (r2\<lparr>haves_queue := foldl (push_parent distance) (haves_queue r2) parents\<rparr>))) (\<lambda>r3.
          if length (sent_haves r3) = max_have_headers then Some (Ret r3)
          else haves_loop D st r3))"

declare haves_loop.simps [code]

definition prepare_sent_haves ::
    "('g, 'id :: linorder) dag_ops \<Rightarrow> ('g, 'id, 'hd) ecg \<Rightarrow> 'id responder \<Rightarrow> 'id responder res option" where
  "prepare_sent_haves D st r = haves_loop D st (r\<lparr>sent_haves := []\<rparr>)"

definition tip_have :: "('g, 'id, 'hd) ecg \<Rightarrow> 'id \<Rightarrow> (bool \<times> nat \<times> 'id \<times> u64) res" where
  "tip_have st x =
     (case get_header_depth st x of Some d \<Rightarrow> Ret (True, d, x, 0) | None \<Rightarrow> Panic Unreachable)"

definition prepare_our_tips ::
    "('g, 'id :: linorder, 'hd) ecg \<Rightarrow> 'id responder \<Rightarrow> 'id responder res" where
  "prepare_our_tips st r =
     bindR (mapR (tip_have st) (sorted_list_of_set (tips st))) (\<lambda>es.
     Ret (r\<lparr>haves_queue := heap_extend es (haves_queue r)\<rparr>))"

section \<open>Responding\<close>

text \<open>
  One turn of the loop in \<open>run_response_helper\<close>: whether it responded, the responder and the
  stream. A turn with nothing to send tells the peer to wait if it has not, and then the code
  subscribes at the store for the next state.
\<close>

definition response_turn ::
    "('g, 'id :: linorder) dag_ops \<Rightarrow> bool \<Rightarrow> 'id list \<Rightarrow> ('g, 'id, 'hd) ecg
     \<Rightarrow> 'id responder \<times> ('h, 'id, 'hd) store_sync_msg stream
     \<Rightarrow> (bool \<times> 'id responder \<times> ('h, 'id, 'hd) store_sync_msg stream) res option" where
  "response_turn D is_first_run their_tips st rs =
     bindL (if \<not> is_first_run then handle_their_tips D st (fst rs) their_tips else Some (Ret (fst rs))) (\<lambda>r.
     bindL (Some (prepare_our_tips st r)) (\<lambda>r.
     bindL (prepare_operations D st r) (\<lambda>p.
     bindL (prepare_sent_haves D st (snd p)) (\<lambda>r.
     if fst p = [] \<and> sent_haves r = [] then
       bindL (Some (if is_first_run then send_expect ECGResponse (snd rs) EcgWait else Ret (snd rs))) (\<lambda>s.
       Some (Ret (False, r, s)))
     else
       bindL (Some (send_expect ECGResponse (snd rs) (EcgResponse (sent_haves r) (fst p)))) (\<lambda>s.
       Some (Ret (True, r, s)))))))"

text \<open>The loop, over the states the store sends while the responder waits for them.\<close>

fun run_response_helper ::
    "('g, 'id :: linorder) dag_ops \<Rightarrow> bool \<Rightarrow> 'id list \<Rightarrow> ('g, 'id, 'hd) ecg \<Rightarrow> ('g, 'id, 'hd) ecg list
     \<Rightarrow> 'id responder \<times> ('h, 'id, 'hd) store_sync_msg stream
     \<Rightarrow> (bool \<times> 'id responder \<times> ('h, 'id, 'hd) store_sync_msg stream) res option" where
  "run_response_helper D is_first_run their_tips st [] rs = response_turn D is_first_run their_tips st rs"
| "run_response_helper D is_first_run their_tips st (st' # updates) rs =
     bindL (response_turn D is_first_run their_tips st rs) (\<lambda>t.
     if fst t then Some (Ret t)
     else
       bindL (update_our_unknown D st' (fst (snd t))) (\<lambda>r.
       run_response_helper D False their_tips st' updates (r, snd (snd t))))"

definition run_initial ::
    "('g, 'id :: linorder) dag_ops \<Rightarrow> 'id list \<Rightarrow> ('g, 'id, 'hd) ecg \<Rightarrow> ('g, 'id, 'hd) ecg list
     \<Rightarrow> 'id responder \<times> ('h, 'id, 'hd) store_sync_msg stream
     \<Rightarrow> (bool \<times> 'id responder \<times> ('h, 'id, 'hd) store_sync_msg stream) res option" where
  "run_initial D their_tips st updates rs =
     bindL (handle_their_tips D st (fst rs) their_tips) (\<lambda>r.
     run_response_helper D True their_tips st updates (r, snd rs))"

definition run_round_responder ::
    "('g, 'id :: linorder) dag_ops \<Rightarrow> 'id list \<Rightarrow> header_bitmap \<Rightarrow> ('g, 'id, 'hd) ecg \<Rightarrow> ('g, 'id, 'hd) ecg list
     \<Rightarrow> 'id responder \<times> ('h, 'id, 'hd) store_sync_msg stream
     \<Rightarrow> (bool \<times> 'id responder \<times> ('h, 'id, 'hd) store_sync_msg stream) res option" where
  "run_round_responder D their_tips their_bitmap st updates rs =
     bindL (handle_their_tips D st (fst rs) their_tips) (\<lambda>r.
     bindL (handle_their_known D st r their_bitmap) (\<lambda>r.
     run_response_helper D True their_tips st updates (r, snd rs)))"

section \<open>The initiator\<close>

record 'id initiator =
  initiator_have :: "'id list"

definition receive_response_helper ::
    "('h, 'id, 'hd) store_sync_msg stream
     \<Rightarrow> (('id list \<times> ('hd \<times> bytes) list) \<times> ('h, 'id, 'hd) store_sync_msg stream) res" where
  "receive_response_helper s =
     bindR (receive_expect try_into_ecg_response s) (\<lambda>(response, s).
     case response of
       EcgResponse haves received \<Rightarrow> Ret ((haves, received), s)
     | EcgWait \<Rightarrow>
         bindR (receive_expect try_into_ecg_response s) (\<lambda>(response, s).
         case response of
           EcgResponse haves received \<Rightarrow> Ret ((haves, received), s)
         | EcgWait \<Rightarrow> Panic TodoHit))"

definition run_new ::
    "('h, 'id :: linorder, 'hd) store_sync_msg stream \<Rightarrow> ('g, 'id, 'hd) ecg
     \<Rightarrow> (('id initiator \<times> ('hd \<times> bytes) list) \<times> ('h, 'id, 'hd) store_sync_msg stream) res" where
  "run_new s st =
     bindR (send_expect Request s (ECGInitialSync (sorted_list_of_set (tips st)))) (\<lambda>s.
     bindR (receive_response_helper s) (\<lambda>((haves, received), s).
     Ret ((\<lparr>initiator_have = haves\<rparr>, received), s)))"

text \<open>\<open>BitArray::set\<close> panics past the 32 bits of the array.\<close>

definition known_bits :: "('g, 'id, 'hd) ecg \<Rightarrow> 'id list \<Rightarrow> header_bitmap res" where
  "known_bits st hs =
     foldR (\<lambda>b ih. if contains st (snd ih) then store_at b (fst ih) True else Ret b)
       (replicate max_have_headers False) (zip [0 ..< length hs] hs)"

definition run_round_initiator ::
    "'id initiator \<Rightarrow> ('h, 'id :: linorder, 'hd) store_sync_msg stream \<Rightarrow> ('g, 'id, 'hd) ecg
     \<Rightarrow> (('id initiator \<times> ('hd \<times> bytes) list) \<times> ('h, 'id, 'hd) store_sync_msg stream) res" where
  "run_round_initiator self s st =
     bindR (known_bits st (initiator_have self)) (\<lambda>known_bitmap.
     bindR (send_expect Request s (ECGSync (sorted_list_of_set (tips st)) known_bitmap)) (\<lambda>s.
     bindR (receive_response_helper s) (\<lambda>((haves, received), s).
     Ret ((self\<lparr>initiator_have := haves\<rparr>, received), s))))"

end
