(* ===== verification/EcgSyncInvariant.thy ===== *)
theory EcgSyncInvariant
  imports EcgSync
begin

text \<open>
  Correctness of the responder of \<open>store_peer/ecg_sync.rs\<close>: its invariant, that every operation
  returns without a panic whatever a peer sends, what the peer's knowledge is, and what is sent.
  The loops end because each step replaces a header by its parents, or by its children, in an
  acyclic graph: a multiset order.
\<close>

section \<open>The invariant\<close>

definition have_id :: "bool \<times> nat \<times> 'id \<times> u64 \<Rightarrow> 'id" where
  "have_id e = fst (snd (snd e))"

definition responder_ok :: "('g, 'id, 'hd) ecg \<Rightarrow> 'id responder \<Rightarrow> bool" where
  "responder_ok st r \<longleftrightarrow>
     their_known r \<subseteq> dom (node_info_map st) \<and>
     snd ` set (send_queue r) \<subseteq> dom (node_info_map st) \<and>
     have_id ` set (haves_queue r) \<subseteq> dom (node_info_map st) \<and>
     set (sent_haves r) \<subseteq> dom (node_info_map st) \<and> length (sent_haves r) \<le> max_have_headers"

definition ancestors :: "('h, 'hd) header_ops \<Rightarrow> ('g, 'h, 'hd) ecg \<Rightarrow> 'h set \<Rightarrow> 'h set" where
  "ancestors H st S = {a. \<exists>h \<in> S. (a, h) \<in> (parent_rel H (node_info_map st))\<^sup>*}"

definition descendants :: "('h, 'hd) header_ops \<Rightarrow> ('g, 'h, 'hd) ecg \<Rightarrow> 'h set \<Rightarrow> 'h set" where
  "descendants H st S = {d. \<exists>h \<in> S. (h, d) \<in> (parent_rel H (node_info_map st))\<^sup>*}"

text \<open>What is sent for a header.\<close>

definition pack :: "('g, 'id, 'hd) ecg \<Rightarrow> 'id \<Rightarrow> 'hd \<times> bytes" where
  "pack st h = (header (the (node_info_map st h)), operations (the (node_info_map st h)))"

text \<open>The headers of a round that the peer says it knows.\<close>

definition claimed :: "header_bitmap \<Rightarrow> 'x list \<Rightarrow> 'x set" where
  "claimed bitmap hs = {h. \<exists>i < length hs. bitmap ! i \<and> h = hs ! i}"

text \<open>The queue entries the code proposes.\<close>

definition proposable :: "bool \<times> nat \<times> 'x \<times> u64 \<Rightarrow> bool" where
  "proposable e = (is_power_of_two (snd (snd (snd e))) \<or> fst (snd e) = 1)"

lemma responder_new_ok: "responder_ok st responder_new"
  by (simp add: responder_ok_def responder_new_def)

lemma replace_smaller:
  assumes "\<And>p. p \<in># P \<Longrightarrow> (p, h) \<in> R"
  shows "(M + P, add_mset h M) \<in> mult R"
  using one_step_implies_mult [of "{#h#}" P R M] assms by simp

lemma ancestors_step:
  "insert h (ancestors H st {p. (p, h) \<in> parent_rel H (node_info_map st)}) = ancestors H st {h}"
  by (auto simp: ancestors_def elim: rtranclE intro: rtrancl_into_rtrancl)

lemma descendants_step:
  "insert h (descendants H st {c. (h, c) \<in> parent_rel H (node_info_map st)}) = descendants H st {h}"
  by (auto simp: descendants_def elim: converse_rtranclE intro: converse_rtrancl_into_rtrancl)

lemma ancestors_Un [simp]: "ancestors H st (A \<union> B) = ancestors H st A \<union> ancestors H st B"
  by (auto simp: ancestors_def)

lemma descendants_Un [simp]: "descendants H st (A \<union> B) = descendants H st A \<union> descendants H st B"
  by (auto simp: descendants_def)

lemma self_ancestor: "S \<subseteq> ancestors H st S" "S \<subseteq> descendants H st S"
  by (auto simp: ancestors_def descendants_def)

lemma ecg_ok_wf:
  assumes "ecg_ok D dag_ok H st"
  shows "wf (parent_rel H (node_info_map st))" "wf ((parent_rel H (node_info_map st))\<inverse>)"
proof -
  have m: "map_ok H (node_info_map st)" using assms by (simp add: ecg_ok_def)
  have "finite (parent_rel H (node_info_map st))"
    by (rule finite_subset [of _ "dom (node_info_map st) \<times> dom (node_info_map st)"])
      (use m parent_rel_dom [OF m] in \<open>auto simp: map_ok_def\<close>)
  with m show "wf (parent_rel H (node_info_map st))" "wf ((parent_rel H (node_info_map st))\<inverse>)"
    by (simp_all add: map_ok_def finite_acyclic_wf finite_acyclic_wf_converse)
qed

lemma closure_in_dom:
  assumes "ecg_ok D dag_ok H st" and "S \<subseteq> dom (node_info_map st)"
  shows "ancestors H st S \<subseteq> dom (node_info_map st)" "descendants H st S \<subseteq> dom (node_info_map st)"
proof -
  have m: "map_ok H (node_info_map st)" using assms by (simp add: ecg_ok_def)
  have "x \<in> dom (node_info_map st) \<longleftrightarrow> y \<in> dom (node_info_map st)"
    if "(x, y) \<in> (parent_rel H (node_info_map st))\<^sup>*" for x y
    using that by (induction rule: rtrancl_induct) (use parent_rel_dom [OF m] in auto)
  with assms(2) show "ancestors H st S \<subseteq> dom (node_info_map st)" "descendants H st S \<subseteq> dom (node_info_map st)"
    unfolding ancestors_def descendants_def by blast+
qed

section \<open>Marking\<close>

text \<open>A graph that the responder reads: header ids are ordered, and the invariant holds.\<close>

locale known_ecg = stable_dag D dag_ok for D :: "('g, 'h :: linorder) dag_ops" and dag_ok +
  fixes H :: "('h, 'hd) header_ops" and st :: "('g, 'h, 'hd) ecg"
  assumes ok: "ecg_ok D dag_ok H st"
begin

lemma parents_of:
  assumes "h \<in> dom (node_info_map st)"
  shows "\<exists>ps. get_parents D st h = Some ps \<and> set ps = {p. (p, h) \<in> parent_rel H (node_info_map st)}"
proof -
  from assms obtain n where n: "node_info_map st h = Some n" by auto
  from get_parents_ok [OF ok n] obtain ps where
    "get_parents D st h = Some ps" "mset ps = mset (get_parent_ids H (header n))" by blast
  moreover from this(2) have "set ps = set (get_parent_ids H (header n))" by (rule mset_eq_setD)
  ultimately show ?thesis using n by (auto simp: parent_rel_def)
qed

lemma parents_with_depth_of:
  assumes "h \<in> dom (node_info_map st)"
  shows "\<exists>ps. get_parents_with_depth D st h = Some ps \<and>
    set ps = (\<lambda>p. (depth_of (node_info_map st) p, p)) ` {p. (p, h) \<in> parent_rel H (node_info_map st)}"
proof -
  from assms obtain n where n: "node_info_map st h = Some n" by auto
  then have "set (get_parent_ids H (header n)) = {p. (p, h) \<in> parent_rel H (node_info_map st)}"
    by (auto simp: parent_rel_def)
  with get_parents_with_depth_ok [OF ok n] show ?thesis by simp
qed

lemma children_of:
  assumes "h \<in> dom (node_info_map st)"
  shows "\<exists>cs. get_children_with_depth D st h = Some cs \<and>
    set cs = (\<lambda>c. (Reverse (depth_of (node_info_map st) c), c)) ` {c. (h, c) \<in> parent_rel H (node_info_map st)}"
  using assms get_children_with_depth_ok [OF ok] by blast

lemma mark_loop_ok:
  assumes q: "set q \<subseteq> dom (node_info_map st)"
  shows "\<exists>V. mark_loop D st known q = Some (Ret V) \<and> known \<union> set q \<subseteq> V \<and> V \<subseteq> known \<union> ancestors H st (set q)"
  using wf_mult [OF ecg_ok_wf(1) [OF ok]] q
proof (induction "mset q" arbitrary: q known rule: wf_induct_rule)
  case less
  show ?case
  proof (cases q)
    case Nil
    then show ?thesis by (subst mark_loop.simps) simp
  next
    case (Cons h rest)
    show ?thesis
    proof (cases "h \<in> known")
      case True
      from parents_of [of h] less.prems Cons obtain ps where
        ps: "get_parents D st h = Some ps" "set ps = {p. (p, h) \<in> parent_rel H (node_info_map st)}" by auto
      have "(mset (rest @ ps), mset q) \<in> mult (parent_rel H (node_info_map st))"
        using replace_smaller [of "mset ps" h _ "mset rest"] ps(2) Cons by simp
      moreover have "set (rest @ ps) \<subseteq> dom (node_info_map st)"
        using less.prems Cons ps(2) closure_in_dom(1) [OF ok, of "{h}"]
        by (auto simp: ancestors_def parent_rel_dom)
      ultimately obtain V where V: "mark_loop D st known (rest @ ps) = Some (Ret V)"
        "known \<union> set (rest @ ps) \<subseteq> V" "V \<subseteq> known \<union> ancestors H st (set (rest @ ps))"
        using less.hyps by blast
      have "mark_loop D st known q = Some (Ret V)"
        using True Cons ps(1) V(1) by (subst mark_loop.simps) (simp add: insert_absorb Let_def)
      moreover have "ancestors H st (set (rest @ ps)) \<subseteq> ancestors H st (set q)"
        using ancestors_step [of h H st] ps(2) Cons ancestors_Un [of H st "{h}" "set rest"] by auto
      ultimately show ?thesis using V True Cons by (intro exI [of _ V]) auto
    next
      case False
      have "(mset rest, mset q) \<in> mult (parent_rel H (node_info_map st))"
        using replace_smaller [of "{#}" h _ "mset rest"] Cons by simp
      moreover have "set rest \<subseteq> dom (node_info_map st)" using less.prems Cons by auto
      ultimately obtain V where V: "mark_loop D st (insert h known) rest = Some (Ret V)"
        "insert h known \<union> set rest \<subseteq> V" "V \<subseteq> insert h known \<union> ancestors H st (set rest)"
        using less.hyps by blast
      have "mark_loop D st known q = Some (Ret V)"
        using False Cons V(1) by (subst mark_loop.simps) (simp add: Let_def)
      then show ?thesis
        using V Cons ancestors_Un [of H st "{h}" "set rest"] self_ancestor(1) [of "{h}" H st] by auto
    qed
  qed
qed

lemma mark_fresh: "h \<notin> their_known r \<Longrightarrow>
  mark_as_known D st r h = Some (Ret (r\<lparr>their_known := insert h (their_known r)\<rparr>))"
  by (simp add: mark_as_known_def mark_as_known_helper_def mark_loop.simps [of _ _ _ "[_]"]
      mark_loop.simps [of _ _ _ "[]"] Let_def)

lemma mark_as_known_ok:
  assumes r: "responder_ok st r" and h: "h \<in> dom (node_info_map st)"
  shows "\<exists>k. mark_as_known D st r h = Some (Ret (r\<lparr>their_known := k\<rparr>)) \<and>
    insert h (their_known r) \<subseteq> k \<and> k \<subseteq> their_known r \<union> ancestors H st {h} \<and>
    responder_ok st (r\<lparr>their_known := k\<rparr>)"
proof -
  from mark_loop_ok [of "[h]" "their_known r"] h obtain V where
    V: "mark_loop D st (their_known r) [h] = Some (Ret V)"
      "insert h (their_known r) \<subseteq> V" "V \<subseteq> their_known r \<union> ancestors H st {h}" by auto
  with closure_in_dom(1) [OF ok, of "{h}"] h r have "responder_ok st (r\<lparr>their_known := V\<rparr>)"
    by (auto simp: responder_ok_def)
  with V show ?thesis by (auto simp: mark_as_known_def mark_as_known_helper_def)
qed

lemma extend_children_ok:
  assumes r: "responder_ok st r" and h: "h \<in> dom (node_info_map st)"
    and cs: "get_children_with_depth D st h = Some cs"
  shows "responder_ok st (r\<lparr>send_queue := heap_extend cs (send_queue r)\<rparr>)"
proof -
  have "snd ` set cs \<subseteq> descendants H st {h}"
    using children_of [OF h] cs descendants_step [of h H st] self_ancestor(2)
    by (auto simp: descendants_def)
  with closure_in_dom(2) [OF ok, of "{h}"] h r show ?thesis
    by (auto simp: responder_ok_def heap_simps)
qed

section \<open>What the peer says\<close>

text \<open>
  Marking and queueing children never panics; the peer is taken to know only what it said it
  knows, and ancestors of that.
\<close>

lemma handle_tip_ok:
  assumes r: "responder_ok st r"
  shows "\<exists>r'. handle_tip D st r h = Some (Ret r') \<and> responder_ok st r' \<and>
    their_known r' \<subseteq> their_known r \<union> ancestors H st {h} \<and>
    our_unknown r' \<subseteq> insert h (our_unknown r) \<and>
    (h \<in> their_known r' \<or> h \<in> our_unknown r') \<and>
    their_known r \<subseteq> their_known r' \<and> our_unknown r \<subseteq> our_unknown r' \<and> sent_haves r' = sent_haves r"
proof (cases "h \<in> dom (node_info_map st)")
  case False
  then show ?thesis using r by (auto simp: handle_tip_def contains_def responder_ok_def split: option.split)
next
  case True
  from mark_as_known_ok [OF r True] obtain k where
    k: "mark_as_known D st r h = Some (Ret (r\<lparr>their_known := k\<rparr>))" "insert h (their_known r) \<subseteq> k"
      "k \<subseteq> their_known r \<union> ancestors H st {h}" "responder_ok st (r\<lparr>their_known := k\<rparr>)" by blast
  from children_of [OF True] obtain cs where cs: "get_children_with_depth D st h = Some cs" by blast
  from extend_children_ok [OF k(4) True cs] k cs True show ?thesis
    by (auto simp: handle_tip_def contains_def split: option.split)
qed

lemma fold_tips_ok:
  assumes "responder_ok st r"
  shows "\<exists>r'. foldL (handle_tip D st) r hs = Some (Ret r') \<and> responder_ok st r' \<and>
    their_known r' \<subseteq> their_known r \<union> ancestors H st (set hs) \<and>
    our_unknown r' \<subseteq> our_unknown r \<union> set hs \<and> set hs \<subseteq> their_known r' \<union> our_unknown r' \<and>
    their_known r \<subseteq> their_known r' \<and> our_unknown r \<subseteq> our_unknown r' \<and> sent_haves r' = sent_haves r"
  using assms
proof (induction hs arbitrary: r)
  case (Cons h hs)
  from handle_tip_ok [OF Cons.prems, of h] obtain r1 where r1: "handle_tip D st r h = Some (Ret r1)"
    "responder_ok st r1" "their_known r1 \<subseteq> their_known r \<union> ancestors H st {h}"
    "our_unknown r1 \<subseteq> insert h (our_unknown r)" "h \<in> their_known r1 \<or> h \<in> our_unknown r1"
    "their_known r \<subseteq> their_known r1" "our_unknown r \<subseteq> our_unknown r1" "sent_haves r1 = sent_haves r" by blast
  from Cons.IH [OF r1(2)] obtain r2 where r2: "foldL (handle_tip D st) r1 hs = Some (Ret r2)"
    "responder_ok st r2" "their_known r2 \<subseteq> their_known r1 \<union> ancestors H st (set hs)"
    "our_unknown r2 \<subseteq> our_unknown r1 \<union> set hs" "set hs \<subseteq> their_known r2 \<union> our_unknown r2"
    "their_known r1 \<subseteq> their_known r2" "our_unknown r1 \<subseteq> our_unknown r2" "sent_haves r2 = sent_haves r1" by blast
  have "ancestors H st (set (h # hs)) = ancestors H st {h} \<union> ancestors H st (set hs)"
    using ancestors_Un [of H st "{h}" "set hs"] by simp
  with r1 r2 show ?case by (intro exI [of _ r2]) auto
qed simp

lemma roots_ok:
  assumes "responder_ok st r"
  shows "responder_ok st (r\<lparr>send_queue := heap_extend (get_root_nodes_with_depth st) (send_queue r)\<rparr>)"
proof -
  have "root_nodes st \<subseteq> dom (node_info_map st)" using ok by (auto simp: ecg_ok_def)
  moreover from this have "finite (root_nodes st)"
    using ok finite_subset by (auto simp: ecg_ok_def map_ok_def)
  ultimately show ?thesis
    using assms by (auto simp: responder_ok_def heap_simps get_root_nodes_with_depth_def)
qed

lemma handle_their_tips_ok:
  assumes "responder_ok st r"
  shows "\<exists>r'. handle_their_tips D st r hs = Some (Ret r') \<and> responder_ok st r' \<and>
    their_known r' \<subseteq> their_known r \<union> ancestors H st (set hs) \<and>
    our_unknown r' \<subseteq> our_unknown r \<union> set hs \<and> set hs \<subseteq> their_known r' \<union> our_unknown r' \<and>
    their_known r \<subseteq> their_known r' \<and> our_unknown r \<subseteq> our_unknown r' \<and> sent_haves r' = sent_haves r"
  using fold_tips_ok [OF assms, of hs] fold_tips_ok [OF roots_ok [OF assms], of hs]
  by (cases "hs = []") (simp_all add: handle_their_tips_def Let_def)

lemma handle_known_bit_ok:
  assumes r: "responder_ok st r" and h: "h \<in> dom (node_info_map st)" and i: "i < length bitmap"
  shows "\<exists>r'. handle_known_bit D st bitmap r (i, h) = Some (Ret r') \<and> responder_ok st r' \<and>
    their_known r' \<subseteq> their_known r \<union> (if bitmap ! i then ancestors H st {h} else {}) \<and>
    their_known r \<subseteq> their_known r' \<and> our_unknown r' = our_unknown r \<and> sent_haves r' = sent_haves r"
proof (cases "bitmap ! i")
  case True
  from mark_as_known_ok [OF r h] obtain k where
    k: "mark_as_known D st r h = Some (Ret (r\<lparr>their_known := k\<rparr>))" "insert h (their_known r) \<subseteq> k"
      "k \<subseteq> their_known r \<union> ancestors H st {h}" "responder_ok st (r\<lparr>their_known := k\<rparr>)" by blast
  from children_of [OF h] obtain cs where cs: "get_children_with_depth D st h = Some cs" by blast
  from extend_children_ok [OF k(4) h cs] k cs True i show ?thesis by (auto simp: handle_known_bit_def)
next
  case False
  from parents_of [OF h] obtain ps where ps: "get_parents D st h = Some ps" by blast
  from h obtain n where "node_info_map st h = Some n" by auto
  then have d: "get_header_depth st h = Some (depth n)" by (simp add: get_header_depth_def)
  have "responder_ok st (r\<lparr>send_queue := heap_push (Reverse (depth n), h) (send_queue r)\<rparr>)"
    using r h by (auto simp: responder_ok_def heap_simps)
  with ps d False i r show ?thesis by (auto simp: handle_known_bit_def)
qed

lemma handle_their_known_ok:
  assumes r: "responder_ok st r" and b: "length bitmap = max_have_headers"
  shows "\<exists>r'. handle_their_known D st r bitmap = Some (Ret r') \<and> responder_ok st r' \<and>
    their_known r' \<subseteq> their_known r \<union> ancestors H st (claimed bitmap (sent_haves r)) \<and>
    their_known r \<subseteq> their_known r' \<and> our_unknown r' = our_unknown r \<and> sent_haves r' = sent_haves r"
proof -
  let ?I = "\<lambda>r'. responder_ok st r' \<and> their_known r' \<subseteq> their_known r \<union> ancestors H st (claimed bitmap (sent_haves r)) \<and>
    their_known r \<subseteq> their_known r' \<and> our_unknown r' = our_unknown r \<and> sent_haves r' = sent_haves r"
  have "\<exists>r'. foldL (handle_known_bit D st bitmap) r (zip [0 ..< length (sent_haves r)] (sent_haves r)) =
      Some (Ret r') \<and> ?I r'"
  proof (rule foldL_invariant)
    fix r1 x assume x: "x \<in> set (zip [0 ..< length (sent_haves r)] (sent_haves r))" and I: "?I r1"
    then obtain i where i: "x = (i, sent_haves r ! i)" "i < length (sent_haves r)"
      by (auto simp: set_zip)
    have "sent_haves r ! i \<in> dom (node_info_map st)" "i < length bitmap"
      using r b i(2) subsetD [OF _ nth_mem [OF i(2)], of "dom (node_info_map st)"]
      by (simp_all add: responder_ok_def)
    from handle_known_bit_ok [of r1, OF _ this] I obtain r2 where
      r2: "handle_known_bit D st bitmap r1 x = Some (Ret r2)" "responder_ok st r2"
        "their_known r2 \<subseteq> their_known r1 \<union> (if bitmap ! i then ancestors H st {sent_haves r ! i} else {})"
        "their_known r1 \<subseteq> their_known r2" "our_unknown r2 = our_unknown r1" "sent_haves r2 = sent_haves r1"
      unfolding i(1) by blast
    have "(if bitmap ! i then ancestors H st {sent_haves r ! i} else {}) \<subseteq>
        ancestors H st (claimed bitmap (sent_haves r))"
      using i(2) by (auto simp: ancestors_def claimed_def)
    with I r2 show "\<exists>r2. handle_known_bit D st bitmap r1 x = Some (Ret r2) \<and> ?I r2" by auto
  qed (use r in auto)
  then show ?thesis by (simp add: handle_their_known_def)
qed

lemma update_our_unknown_ok:
  assumes r: "responder_ok st r"
  shows "\<exists>r'. update_our_unknown D st r = Some (Ret r') \<and> responder_ok st r' \<and>
    our_unknown r' = our_unknown r - dom (node_info_map st) \<and>
    their_known r \<union> (our_unknown r \<inter> dom (node_info_map st)) \<subseteq> their_known r' \<and>
    their_known r' \<subseteq> their_known r \<union> ancestors H st (our_unknown r) \<and> sent_haves r' = sent_haves r"
proof -
  let ?S = "our_unknown r \<inter> dom (node_info_map st)"
  have S: "{h \<in> our_unknown r. contains st h} = ?S" by (auto simp: contains_def split: option.splits)
  have fin: "finite ?S" using ok by (auto simp: ecg_ok_def map_ok_def)
  let ?r = "r\<lparr>our_unknown := our_unknown r - ?S\<rparr>"
  have gen: "\<exists>r'. foldL (mark_as_known D st) r1 hs = Some (Ret r') \<and> responder_ok st r' \<and>
      our_unknown r' = our_unknown r1 \<and> their_known r1 \<union> set hs \<subseteq> their_known r' \<and>
      their_known r' \<subseteq> their_known r1 \<union> ancestors H st (set hs) \<and> sent_haves r' = sent_haves r1"
    if "responder_ok st r1" "set hs \<subseteq> dom (node_info_map st)" for r1 hs
    using that
  proof (induction hs arbitrary: r1)
    case (Cons h hs)
    then have h: "h \<in> dom (node_info_map st)" by simp
    from mark_as_known_ok [OF Cons.prems(1) h] obtain k where
      k: "mark_as_known D st r1 h = Some (Ret (r1\<lparr>their_known := k\<rparr>))" "insert h (their_known r1) \<subseteq> k"
        "k \<subseteq> their_known r1 \<union> ancestors H st {h}" "responder_ok st (r1\<lparr>their_known := k\<rparr>)" by blast
    have "ancestors H st (set (h # hs)) = ancestors H st {h} \<union> ancestors H st (set hs)"
      using ancestors_Un [of H st "{h}" "set hs"] by simp
    moreover from Cons.IH [OF k(4)] Cons.prems(2) obtain r2 where
      "foldL (mark_as_known D st) (r1\<lparr>their_known := k\<rparr>) hs = Some (Ret r2)" "responder_ok st r2"
      "our_unknown r2 = our_unknown r1" "k \<union> set hs \<subseteq> their_known r2"
      "their_known r2 \<subseteq> k \<union> ancestors H st (set hs)" "sent_haves r2 = sent_haves r1" by auto
    ultimately show ?case using k by (intro exI [of _ r2]) auto
  qed simp
  have "responder_ok st ?r" using r by (simp add: responder_ok_def)
  from gen [OF this, of "sorted_list_of_set ?S"] fin obtain r' where
    "foldL (mark_as_known D st) ?r (sorted_list_of_set ?S) = Some (Ret r')" "responder_ok st r'"
    "our_unknown r' = our_unknown r - ?S" "their_known r \<union> ?S \<subseteq> their_known r'"
    "their_known r' \<subseteq> their_known r \<union> ancestors H st ?S" "sent_haves r' = sent_haves r" by auto
  moreover have "ancestors H st ?S \<subseteq> ancestors H st (our_unknown r)" by (auto simp: ancestors_def)
  ultimately show ?thesis by (auto simp: update_our_unknown_def S Let_def)
qed

section \<open>What the responder sends\<close>

text \<open>
  The loop sends at most 32 headers, none the peer is known to have, marks exactly these, and
  when it stops short of 32 nothing is left that can be reached from the queue.
\<close>

lemma they_know_update [simp]: "they_know (r\<lparr>send_queue := q\<rparr>) h = they_know r h"
  "they_know (r\<lparr>haves_queue := q'\<rparr>) h = they_know r h" "they_know (r\<lparr>sent_haves := hs\<rparr>) h = they_know r h"
  by (simp_all add: they_know_def)

lemma pop_queue_smaller:
  assumes "heap_pop q = Some (x, q')" and "set cs = f ` {c. (snd x, c) \<in> parent_rel H (node_info_map st)}"
    and "\<And>c. snd (f c) = c"
  shows "(image_mset snd (mset (heap_extend cs q')), image_mset snd (mset q)) \<in>
    mult ((parent_rel H (node_info_map st))\<inverse>)"
proof -
  have "image_mset snd (mset q) = add_mset (snd x) (image_mset snd (mset q'))"
    using heap.pop_elems [OF assms(1)] by simp
  moreover have "image_mset snd (mset (heap_extend cs q')) = image_mset snd (mset q') + image_mset snd (mset cs)"
    by (simp add: heap_simps)
  ultimately show ?thesis using assms(2,3) by (auto intro!: replace_smaller)
qed

text \<open>What one pop from the queue needs and gives\<close>

lemma deliver_pop:
  assumes r: "responder_ok st r" and pop: "heap_pop (send_queue r) = Some (x, q)"
  shows "\<exists>cs. get_children_with_depth D st (snd x) = Some cs \<and> snd x \<in> dom (node_info_map st) \<and>
    responder_ok st (r\<lparr>send_queue := heap_extend cs q\<rparr>) \<and>
    (image_mset snd (mset (heap_extend cs q)), image_mset snd (mset (send_queue r))) \<in> mult ((parent_rel H (node_info_map st))\<inverse>) \<and>
    descendants H st (snd ` set (send_queue r)) = insert (snd x) (descendants H st (snd ` set (heap_extend cs q)))"
proof -
  let ?h = "snd x" and ?C = "{c. (snd x, c) \<in> parent_rel H (node_info_map st)}"
  have sq: "set (send_queue r) = insert x (set q)"
    using heap.pop_elems [OF pop] by (metis set_mset_add_mset_insert set_mset_mset)
  then have h: "?h \<in> dom (node_info_map st)" and q: "responder_ok st (r\<lparr>send_queue := q\<rparr>)"
    using r by (auto simp: responder_ok_def)
  from children_of [OF h] obtain cs where cs: "get_children_with_depth D st ?h = Some cs"
    and cs': "set cs = (\<lambda>c. (Reverse (depth_of (node_info_map st) c), c)) ` ?C" by blast
  have next_q: "responder_ok st (r\<lparr>send_queue := heap_extend cs q\<rparr>)"
    using extend_children_ok [OF q h cs] by simp
  have eq: "snd ` set (heap_extend cs q) = ?C \<union> snd ` set q"
    by (simp add: heap_simps cs' image_Un image_image)
  have "descendants H st (snd ` set (send_queue r)) = descendants H st ({?h} \<union> snd ` set q)" by (simp add: sq)
  also have "\<dots> = insert ?h (descendants H st ?C) \<union> descendants H st (snd ` set q)"
    by (simp only: descendants_Un descendants_step)
  also have "\<dots> = insert ?h (descendants H st (snd ` set (heap_extend cs q)))"
    by (simp only: eq descendants_Un Un_insert_left)
  finally show ?thesis using cs h next_q pop_queue_smaller [OF pop cs'] by simp
qed

text \<open>What the loop has done when it returns, with \<open>n\<close> headers before it, from the queued ids \<open>X\<close>\<close>

definition delivered :: "nat \<Rightarrow> 'h set \<Rightarrow> 'h responder \<Rightarrow> 'h list \<Rightarrow> 'h responder \<Rightarrow> bool" where
  "delivered n X r ids r' \<longleftrightarrow> responder_ok st r' \<and>
    their_known r' = their_known r \<union> set ids \<and> our_unknown r' = our_unknown r \<and>
    sent_haves r' = sent_haves r \<and> haves_queue r' = haves_queue r \<and>
    distinct ids \<and> (\<forall>h \<in> set ids. \<not> they_know r h) \<and> set ids \<subseteq> X \<and> n + length ids \<le> max_deliver_headers \<and>
    (n + length ids < max_deliver_headers \<longrightarrow> send_queue r' = [] \<and> (\<forall>h \<in> X. they_know r' h))"

lemma delivered_skip:
  assumes "they_know r h" and "delivered n X (r\<lparr>send_queue := q\<rparr>) ids r'"
  shows "delivered n (insert h X) r ids r'"
proof -
  have "they_know r' h" using assms by (auto simp: delivered_def they_know_def)
  with assms(2) show ?thesis by (auto simp: delivered_def)
qed

lemma delivered_add:
  assumes "\<not> they_know r h" and "delivered (Suc n) X (r\<lparr>their_known := insert h (their_known r), send_queue := q\<rparr>) ids r'"
  shows "delivered n (insert h X) r (h # ids) r'"
proof -
  have "they_know r' h" using assms(2) by (simp add: delivered_def they_know_def)
  moreover have "\<not> they_know r x \<and> x \<noteq> h" if "x \<in> set ids" for x
    using assms(2) that by (auto simp: delivered_def they_know_def)
  ultimately show ?thesis using assms by (auto simp: delivered_def)
qed

text \<open>The loop as an induction: it stops on an empty queue, passes over a known header, or sends one.\<close>

lemma deliver_loop_induct [consumes 2, case_names stop skip send]:
  assumes "responder_ok st r" and "length ops < max_deliver_headers"
    and stop: "\<And>ops r. responder_ok st r \<Longrightarrow> send_queue r = [] \<Longrightarrow> deliver_loop D st ops r = Some (Ret (ops, r)) \<Longrightarrow>
      length ops < max_deliver_headers \<Longrightarrow> P ops r"
    and skip: "\<And>ops r x q cs. responder_ok st r \<Longrightarrow> length ops < max_deliver_headers \<Longrightarrow>
      heap_pop (send_queue r) = Some (x, q) \<Longrightarrow> get_children_with_depth D st (snd x) = Some cs \<Longrightarrow>
      they_know r (snd x) \<Longrightarrow> deliver_loop D st ops r = deliver_loop D st ops (r\<lparr>send_queue := heap_extend cs q\<rparr>) \<Longrightarrow>
      P ops (r\<lparr>send_queue := heap_extend cs q\<rparr>) \<Longrightarrow> P ops r"
    and send: "\<And>ops r x q cs r1. responder_ok st r \<Longrightarrow> length ops < max_deliver_headers \<Longrightarrow>
      heap_pop (send_queue r) = Some (x, q) \<Longrightarrow> get_children_with_depth D st (snd x) = Some cs \<Longrightarrow>
      \<not> they_know r (snd x) \<Longrightarrow> r1 = r\<lparr>their_known := insert (snd x) (their_known r), send_queue := heap_extend cs q\<rparr> \<Longrightarrow>
      responder_ok st r1 \<Longrightarrow>
      (if Suc (length ops) = max_deliver_headers then deliver_loop D st ops r = Some (Ret (ops @ [pack st (snd x)], r1))
       else deliver_loop D st ops r = deliver_loop D st (ops @ [pack st (snd x)]) r1 \<and> P (ops @ [pack st (snd x)]) r1) \<Longrightarrow>
      P ops r"
  shows "P ops r"
  using wf_mult [OF ecg_ok_wf(2) [OF ok]] assms(1,2)
proof (induction "image_mset snd (mset (send_queue r))" arbitrary: r ops rule: wf_induct_rule)
  case less
  show ?case
  proof (cases "heap_pop (send_queue r)")
    case None
    then have "send_queue r = []" by (cases "send_queue r") auto
    with stop [OF less.prems(1) this _ less.prems(2)] show ?thesis by (simp add: deliver_loop.simps)
  next
    case (Some xq)
    then obtain x q where pop: "heap_pop (send_queue r) = Some (x, q)" by (cases xq) auto
    let ?h = "snd x"
    from deliver_pop [OF less.prems(1) pop] obtain cs where cs: "get_children_with_depth D st ?h = Some cs"
      and h: "?h \<in> dom (node_info_map st)" and ok': "responder_ok st (r\<lparr>send_queue := heap_extend cs q\<rparr>)"
      and dec: "(image_mset snd (mset (heap_extend cs q)), image_mset snd (mset (send_queue r))) \<in> mult ((parent_rel H (node_info_map st))\<inverse>)"
      by blast
    show ?thesis
    proof (cases "they_know r ?h")
      case True
      have "deliver_loop D st ops r = deliver_loop D st ops (r\<lparr>send_queue := heap_extend cs q\<rparr>)"
        using pop True cs less.prems(2) by (subst deliver_loop.simps) (simp add: Let_def)
      with skip [OF less.prems pop cs True] less.hyps [OF _ ok' less.prems(2)] dec show ?thesis by simp
    next
      case False
      from h obtain n where n: "node_info_map st ?h = Some n" by auto
      have fresh: "?h \<notin> their_known (r\<lparr>send_queue := q\<rparr>)" using False by (simp add: they_know_def)
      let ?r1 = "r\<lparr>their_known := insert ?h (their_known r), send_queue := heap_extend cs q\<rparr>" and ?ops = "ops @ [pack st ?h]"
      have r1: "responder_ok st ?r1" using ok' h by (auto simp: responder_ok_def)
      have "deliver_loop D st ops r =
          (if Suc (length ops) = max_deliver_headers then Some (Ret (?ops, ?r1)) else deliver_loop D st ?ops ?r1)"
        using pop False cs n mark_fresh [OF fresh]
        by (subst deliver_loop.simps) (simp add: Let_def get_node_def pack_def)
      with send [OF less.prems pop cs False refl r1] less.hyps [of ?r1 ?ops, OF _ r1] less.prems(2) dec
      show ?thesis by (simp split: if_splits)
    qed
  qed
qed

lemma deliver_loop_delivered:
  assumes "responder_ok st r" and "length ops < max_deliver_headers"
  shows "\<exists>ids r'. deliver_loop D st ops r = Some (Ret (ops @ map (pack st) ids, r')) \<and>
    delivered (length ops) (descendants H st (snd ` set (send_queue r))) r ids r'"
  using assms
proof (induction rule: deliver_loop_induct)
  case (stop ops r)
  then show ?case by (intro exI [of _ "[]"] exI [of _ r]) (simp add: descendants_def delivered_def)
next
  case (skip ops r x q cs)
  from deliver_pop [OF skip(1,3)] skip(4) have desc:
    "descendants H st (snd ` set (send_queue r)) = insert (snd x) (descendants H st (snd ` set (heap_extend cs q)))" by auto
  from skip(7) obtain ids r' where
    loop: "deliver_loop D st ops (r\<lparr>send_queue := heap_extend cs q\<rparr>) = Some (Ret (ops @ map (pack st) ids, r'))"
      "delivered (length ops) (descendants H st (snd ` set (heap_extend cs q))) (r\<lparr>send_queue := heap_extend cs q\<rparr>) ids r'"
    by auto
  from loop(1) delivered_skip [OF skip(5) loop(2)] show ?case
    unfolding desc skip(6) by (intro exI [of _ ids] exI [of _ r']) simp
next
  case (send ops r x q cs r1)
  from deliver_pop [OF send(1,3)] send(4) have desc:
    "descendants H st (snd ` set (send_queue r)) = insert (snd x) (descendants H st (snd ` set (heap_extend cs q)))" by auto
  have "\<exists>ids r'. deliver_loop D st ops r = Some (Ret ((ops @ [pack st (snd x)]) @ map (pack st) ids, r')) \<and>
      delivered (Suc (length ops)) (descendants H st (snd ` set (heap_extend cs q))) r1 ids r'"
  proof (cases "Suc (length ops) = max_deliver_headers")
    case True
    with send(7,8) show ?thesis by (intro exI [of _ "[]"] exI [of _ r1]) (simp add: delivered_def)
  next
    case False
    with send(6,8) show ?thesis by simp
  qed
  then obtain ids r' where loop: "deliver_loop D st ops r = Some (Ret ((ops @ [pack st (snd x)]) @ map (pack st) ids, r'))"
    "delivered (Suc (length ops)) (descendants H st (snd ` set (heap_extend cs q))) r1 ids r'" by blast
  from loop(1) delivered_add [OF send(5) loop(2) [unfolded send(6)]] show ?case
    unfolding desc by (intro exI [of _ "snd x # ids"] exI [of _ r']) simp
qed

lemmas deliver_loop_ok = deliver_loop_delivered [unfolded delivered_def]

text \<open>
  Proposing: at most 32 headers, none the peer is known to have; when it stops short of 32 the
  queue is empty and every queued header at a power-of-two distance or of depth 1 that the
  peer is not known to have was proposed.
\<close>

lemma mset_push_parents:
  "mset (foldl (push_parent d) q ps) = mset q + image_mset (\<lambda>p. (False, fst p, snd p, d + 1)) (mset ps)"
  by (induction ps arbitrary: q) (simp_all add: push_parent_def heap_simps)

lemma haves_pop:
  assumes r: "responder_ok st r" and pop: "heap_pop (haves_queue r) = Some (x, q)"
  defines "R \<equiv> parent_rel H (node_info_map st)" and "M \<equiv> image_mset have_id (mset (haves_queue r))"
  shows "have_id x \<in> dom (node_info_map st)" and "set (haves_queue r) = insert x (set q)"
    and "responder_ok st (r\<lparr>haves_queue := q\<rparr>)" and "(image_mset have_id (mset q), M) \<in> mult R"
    and "\<exists>ps. get_parents_with_depth D st (have_id x) = Some ps \<and>
      responder_ok st (r\<lparr>haves_queue := foldl (push_parent d) q ps\<rparr>) \<and>
      (image_mset have_id (mset (foldl (push_parent d) q ps)), M) \<in> mult R \<and> set q \<subseteq> set (foldl (push_parent d) q ps)"
proof -
  have mq: "mset (haves_queue r) = add_mset x (mset q)" by (rule heap.pop_elems [OF pop])
  then show sq: "set (haves_queue r) = insert x (set q)" by (metis set_mset_add_mset_insert set_mset_mset)
  show h: "have_id x \<in> dom (node_info_map st)" using r sq by (auto simp: responder_ok_def)
  show "responder_ok st (r\<lparr>haves_queue := q\<rparr>)" using r sq by (auto simp: responder_ok_def)
  show "(image_mset have_id (mset q), M) \<in> mult R"
    using replace_smaller [of "{#}" "have_id x" R "image_mset have_id (mset q)"] mq by (simp add: M_def)
  from parents_with_depth_of [OF h] obtain ps where ps: "get_parents_with_depth D st (have_id x) = Some ps"
    "set ps = (\<lambda>p. (depth_of (node_info_map st) p, p)) ` {p. (p, have_id x) \<in> R}" unfolding R_def by blast
  let ?q = "foldl (push_parent d) q ps"
  have ids: "image_mset have_id (mset ?q) = image_mset have_id (mset q) + image_mset snd (mset ps)"
    by (simp add: mset_push_parents image_mset.compositionality o_def have_id_def)
  have "(image_mset have_id (mset q) + image_mset snd (mset ps), add_mset (have_id x) (image_mset have_id (mset q))) \<in> mult R"
    by (rule replace_smaller) (use ps(2) in auto)
  then have dec: "(image_mset have_id (mset ?q), M) \<in> mult R" by (simp add: ids mq M_def)
  have "snd ` set ps = {p. (p, have_id x) \<in> R}" unfolding ps(2) by (simp add: image_image)
  then have "snd ` set ps \<subseteq> dom (node_info_map st)"
    using parent_rel_dom [of H "node_info_map st"] ok unfolding R_def ecg_ok_def by blast
  moreover have "have_id ` set ?q = have_id ` set q \<union> snd ` set ps" using arg_cong [OF ids, of set_mset] by simp
  ultimately have "responder_ok st (r\<lparr>haves_queue := ?q\<rparr>)" using r sq by (auto simp: responder_ok_def)
  moreover have "set_mset (mset q) \<subseteq> set_mset (mset ?q)" unfolding mset_push_parents by simp
  ultimately show "\<exists>ps. get_parents_with_depth D st (have_id x) = Some ps \<and>
      responder_ok st (r\<lparr>haves_queue := foldl (push_parent d) q ps\<rparr>) \<and>
      (image_mset have_id (mset (foldl (push_parent d) q ps)), M) \<in> mult R \<and> set q \<subseteq> set (foldl (push_parent d) q ps)"
    using ps(1) dec by auto
qed

text \<open>What the loop has done when it returns, from the queued entries \<open>E\<close>\<close>

definition proposed :: "(bool \<times> nat \<times> 'h \<times> u64) set \<Rightarrow> 'h responder \<Rightarrow> 'h list \<Rightarrow> 'h responder \<Rightarrow> bool" where
  "proposed E r hs r' \<longleftrightarrow> responder_ok st r' \<and> sent_haves r' = sent_haves r @ hs \<and>
    their_known r' = their_known r \<and> our_unknown r' = our_unknown r \<and> send_queue r' = send_queue r \<and>
    (\<forall>h \<in> set hs. \<not> they_know r h) \<and>
    (length (sent_haves r') < max_have_headers \<longrightarrow> haves_queue r' = [] \<and>
       (\<forall>e \<in> E. \<not> they_know r (have_id e) \<and> proposable e \<longrightarrow> have_id e \<in> set (sent_haves r')))"

lemma proposed_skip:
  assumes "they_know r (have_id x)" and "proposed E (r\<lparr>haves_queue := q\<rparr>) hs r'"
  shows "proposed (insert x E) r hs r'"
  using assms by (auto simp: proposed_def)

lemma proposed_add:
  assumes "\<not> they_know r (have_id x)" and "E \<subseteq> E'" and "hs = (if proposable x then [have_id x] else [])"
    and "proposed E' (r\<lparr>sent_haves := sent_haves r @ hs, haves_queue := q\<rparr>) hs' r'"
  shows "proposed (insert x E) r (hs @ hs') r'"
  using assms by (auto simp: proposed_def)

lemma haves_loop_proposed:
  assumes "responder_ok st r" and "length (sent_haves r) < max_have_headers"
  shows "\<exists>hs r'. haves_loop D st r = Some (Ret r') \<and> proposed (set (haves_queue r)) r hs r'"
  using wf_mult [OF ecg_ok_wf(1) [OF ok]] assms
proof (induction "image_mset have_id (mset (haves_queue r))" arbitrary: r rule: wf_induct_rule)
  case less
  show ?case
  proof (cases "heap_pop (haves_queue r)")
    case None
    then have "haves_queue r = []" by (cases "haves_queue r") auto
    with less.prems show ?thesis
      by (intro exI [of _ "[]"] exI [of _ r]) (simp add: haves_loop.simps proposed_def)
  next
    case (Some xq)
    then obtain x q where pop: "heap_pop (haves_queue r) = Some (x, q)" by (cases xq) auto
    let ?h = "have_id x" and ?d = "snd (snd (snd x))"
    note popped = haves_pop [OF less.prems(1) pop]
    show ?thesis
    proof (cases "they_know r ?h")
      case True
      have "haves_loop D st r = haves_loop D st (r\<lparr>haves_queue := q\<rparr>)"
        using pop True less.prems(2) by (subst haves_loop.simps) (simp add: Let_def have_id_def)
      with less.hyps [of "r\<lparr>haves_queue := q\<rparr>", OF _ popped(3)] popped(4) less.prems(2) obtain hs r' where
        "haves_loop D st r = Some (Ret r')" "proposed (set q) (r\<lparr>haves_queue := q\<rparr>) hs r'" by auto
      with proposed_skip [OF True] show ?thesis unfolding popped(2) by blast
    next
      case False
      let ?hs = "if proposable x then [?h] else []"
      from popped(5) [of ?d] obtain ps where ps: "get_parents_with_depth D st ?h = Some ps"
        "responder_ok st (r\<lparr>haves_queue := foldl (push_parent ?d) q ps\<rparr>)"
        and dec: "(image_mset have_id (mset (foldl (push_parent ?d) q ps)), image_mset have_id (mset (haves_queue r)))
          \<in> mult (parent_rel H (node_info_map st))"
        and sub: "set q \<subseteq> set (foldl (push_parent ?d) q ps)" by blast
      let ?r1 = "r\<lparr>sent_haves := sent_haves r @ ?hs, haves_queue := foldl (push_parent ?d) q ps\<rparr>"
      have step: "haves_loop D st r =
          (if length (sent_haves ?r1) = max_have_headers then Some (Ret ?r1) else haves_loop D st ?r1)"
        using pop False ps(1) by (subst haves_loop.simps) (simp add: Let_def have_id_def proposable_def)
      have r1: "responder_ok st ?r1" using ps(2) less.prems popped(1) by (auto simp: responder_ok_def)
      have "\<exists>hs r'. haves_loop D st r = Some (Ret r') \<and> proposed (set (haves_queue ?r1)) ?r1 hs r'"
      proof (cases "length (sent_haves ?r1) = max_have_headers")
        case True
        with step r1 show ?thesis by (intro exI [of _ "[]"] exI [of _ ?r1]) (simp add: proposed_def)
      next
        case more: False
        with less.prems(2) have "length (sent_haves ?r1) < max_have_headers" by (cases "proposable x") simp_all
        from less.hyps [of ?r1, OF _ r1 this] dec step more show ?thesis by simp
      qed
      then obtain hs r' where loop: "haves_loop D st r = Some (Ret r')"
        "proposed (set (foldl (push_parent ?d) q ps)) ?r1 hs r'" by auto
      from loop(1) proposed_add [OF False sub refl loop(2)] show ?thesis unfolding popped(2) by blast
    qed
  qed
qed

lemmas haves_loop_ok = haves_loop_proposed [unfolded proposed_def]

lemma prepare_our_tips_ok:
  assumes r: "responder_ok st r"
  shows "\<exists>q. prepare_our_tips st r = Ret (r\<lparr>haves_queue := q\<rparr>) \<and> responder_ok st (r\<lparr>haves_queue := q\<rparr>) \<and>
    (\<forall>t \<in> tips st. \<exists>e \<in> set q. have_id e = t \<and> proposable e)"
proof -
  let ?ts = "sorted_list_of_set (tips st)"
  have sub: "tips st \<subseteq> dom (node_info_map st)" and fin: "finite (tips st)"
    using ok finite_subset [of "tips st" "dom (node_info_map st)"] by (auto simp: ecg_ok_def map_ok_def)
  let ?e = "\<lambda>x. (True, depth (the (node_info_map st x)), x, 0 :: u64)"
  have tip: "tip_have st x = Ret (?e x)" if "x \<in> set ?ts" for x
    using that sub fin by (auto simp: tip_have_def get_header_depth_def)
  then have es: "mapR (tip_have st) ?ts = Ret (map ?e ?ts)" by (intro mapR_Ret)
  have "responder_ok st (r\<lparr>haves_queue := heap_extend (map ?e ?ts) (haves_queue r)\<rparr>)"
    using r sub fin by (auto simp: responder_ok_def heap_simps have_id_def)
  moreover have "\<exists>e \<in> set (heap_extend (map ?e ?ts) (haves_queue r)). have_id e = t \<and> proposable e"
    if "t \<in> tips st" for t
  proof (rule bexI [of _ "?e t"])
    show "have_id (?e t) = t \<and> proposable (?e t)" by (simp add: have_id_def proposable_def is_power_of_two_def)
    show "?e t \<in> set (heap_extend (map ?e ?ts) (haves_queue r))" using that fin by (simp add: heap_simps)
  qed
  ultimately show ?thesis by (auto simp: prepare_our_tips_def es)
qed

lemma prepare_operations_ok:
  assumes "responder_ok st r"
  shows "\<exists>ids r'. prepare_operations D st r = Some (Ret (map (pack st) ids, r')) \<and> responder_ok st r' \<and>
    their_known r' = their_known r \<union> set ids \<and> our_unknown r' = our_unknown r \<and>
    sent_haves r' = sent_haves r \<and> haves_queue r' = haves_queue r \<and>
    distinct ids \<and> (\<forall>h \<in> set ids. \<not> they_know r h) \<and>
    set ids \<subseteq> descendants H st (snd ` set (send_queue r)) \<and> length ids \<le> max_deliver_headers \<and>
    (length ids < max_deliver_headers \<longrightarrow>
       send_queue r' = [] \<and> (\<forall>h \<in> descendants H st (snd ` set (send_queue r)). they_know r' h))"
  using deliver_loop_ok [OF assms, of "[]"] by (simp add: prepare_operations_def max_deliver_headers_def)

lemma prepare_sent_haves_ok:
  assumes "responder_ok st r"
  shows "\<exists>r'. prepare_sent_haves D st r = Some (Ret r') \<and> responder_ok st r' \<and>
    their_known r' = their_known r \<and> our_unknown r' = our_unknown r \<and> send_queue r' = send_queue r \<and>
    (\<forall>h \<in> set (sent_haves r'). \<not> they_know r h) \<and>
    (length (sent_haves r') < max_have_headers \<longrightarrow> haves_queue r' = [] \<and>
       (\<forall>e \<in> set (haves_queue r). \<not> they_know r (have_id e) \<and> proposable e \<longrightarrow> have_id e \<in> set (sent_haves r')))"
proof -
  have "responder_ok st (r\<lparr>sent_haves := []\<rparr>)" using assms by (simp add: responder_ok_def)
  from haves_loop_ok [OF this] obtain hs r' where
    "haves_loop D st (r\<lparr>sent_haves := []\<rparr>) = Some (Ret r')" "responder_ok st r'" "sent_haves r' = hs"
    "their_known r' = their_known r" "our_unknown r' = our_unknown r" "send_queue r' = send_queue r"
    "\<forall>h \<in> set hs. \<not> they_know r h"
    "length (sent_haves r') < max_have_headers \<longrightarrow> haves_queue r' = [] \<and>
       (\<forall>e \<in> set (haves_queue r). \<not> they_know r (have_id e) \<and> proposable e \<longrightarrow> have_id e \<in> set (sent_haves r'))"
    by (auto simp: max_have_headers_def)
  then show ?thesis by (auto simp: prepare_sent_haves_def)
qed

text \<open>One turn: it returns, keeps the invariant, and either responds or finds that the peer has all tips.\<close>

lemma response_turn_ok:
  assumes r: "responder_ok st r" and s: "is_open s"
  shows "\<exists>b r' s' ids. response_turn D first their_tips st (r, s) = Some (Ret (b, r', s')) \<and>
    responder_ok st r' \<and> is_open s' \<and>
    (if b then
       outgoing s' = outgoing s @ [ECGResponse (EcgResponse (sent_haves r') (map (pack st) ids))] \<and>
       (sent_haves r' \<noteq> [] \<or> ids \<noteq> []) \<and> length ids \<le> max_deliver_headers \<and> distinct ids
     else
       outgoing s' = outgoing s @ (if first then [ECGResponse EcgWait] else []) \<and>
       (\<forall>t \<in> tips st. they_know r' t))"
proof -
  obtain r1 where r1: "(if \<not> first then handle_their_tips D st r their_tips else Some (Ret r)) = Some (Ret r1)"
    "responder_ok st r1" using handle_their_tips_ok [OF r, of their_tips] r by (cases first) auto
  from prepare_our_tips_ok [OF r1(2)] obtain q where q: "prepare_our_tips st r1 = Ret (r1\<lparr>haves_queue := q\<rparr>)"
    "responder_ok st (r1\<lparr>haves_queue := q\<rparr>)" "\<forall>t \<in> tips st. \<exists>e \<in> set q. have_id e = t \<and> proposable e" by blast
  from prepare_operations_ok [OF q(2)] obtain ids r2 where
    ops: "prepare_operations D st (r1\<lparr>haves_queue := q\<rparr>) = Some (Ret (map (pack st) ids, r2))"
      "responder_ok st r2" "haves_queue r2 = q" "distinct ids" "length ids \<le> max_deliver_headers"
    by auto
  from prepare_sent_haves_ok [OF ops(2)] obtain r3 where
    r3: "prepare_sent_haves D st r2 = Some (Ret r3)" "responder_ok st r3"
      "their_known r3 = their_known r2" "our_unknown r3 = our_unknown r2"
      "length (sent_haves r3) < max_have_headers \<longrightarrow>
       (\<forall>e \<in> set q. \<not> they_know r2 (have_id e) \<and> proposable e \<longrightarrow> have_id e \<in> set (sent_haves r3))"
    using ops(3) by auto
  note run = r1(1) q(1) ops(1) r3(1)
  show ?thesis
  proof (cases "ids = [] \<and> sent_haves r3 = []")
    case True
    then have "\<forall>t \<in> tips st. they_know r2 t"
      using r3(5) q(3) by (fastforce simp: max_have_headers_def)
    then have known: "\<forall>t \<in> tips st. they_know r3 t" using r3(3,4) by (simp add: they_know_def)
    let ?s = "s\<lparr>outgoing := outgoing s @ (if first then [ECGResponse EcgWait] else [])\<rparr>"
    have "response_turn D first their_tips st (r, s) = Some (Ret (False, r3, ?s))"
      using True s unfolding response_turn_def fst_conv snd_conv run bindL_simps
      by (simp add: send_expect_open)
    with known r3(2) s show ?thesis
      by (intro exI [of _ False] exI [of _ r3] exI [of _ ?s] exI [of _ ids]) simp
  next
    case False
    let ?s = "s\<lparr>outgoing := outgoing s @ [ECGResponse (EcgResponse (sent_haves r3) (map (pack st) ids))]\<rparr>"
    have "response_turn D first their_tips st (r, s) = Some (Ret (True, r3, ?s))"
      using False s unfolding response_turn_def fst_conv snd_conv run bindL_simps
      by (auto simp: send_expect_open)
    with False r3(2) s ops(4,5) show ?thesis
      by (intro exI [of _ True] exI [of _ r3] exI [of _ ?s] exI [of _ ids]) auto
  qed
qed

end

interpretation run: known_ecg list_dag list_dag_ok H "ecg_run H ps"
  by unfold_locales (rule ecg_run_ok)

section \<open>Rounds\<close>

text \<open>The states the store hands out while a responder waits: each well formed, headers only added.\<close>

fun evolves :: "(('g, 'h, 'hd) ecg \<Rightarrow> bool) \<Rightarrow> ('g, 'h, 'hd) ecg \<Rightarrow> ('g, 'h, 'hd) ecg list \<Rightarrow> bool" where
  "evolves P st [] = True"
| "evolves P st (st' # sts) =
     (P st' \<and> dom (node_info_map st) \<subseteq> dom (node_info_map st') \<and> evolves P st' sts)"

lemma responder_ok_grows:
  "responder_ok st r \<Longrightarrow> dom (node_info_map st) \<subseteq> dom (node_info_map st') \<Longrightarrow> responder_ok st' r"
  unfolding responder_ok_def by (elim conjE, intro conjI) (assumption | erule (1) order_trans)+

text \<open>What a round puts on the stream: perhaps a request to wait, then one response.\<close>

definition round_messages :: "bool \<Rightarrow> bool \<Rightarrow> ('h, 'id, 'hd) store_sync_msg list \<Rightarrow> bool" where
  "round_messages first b ms \<longleftrightarrow>
     (\<exists>w. (w = [] \<or> first \<and> w = [ECGResponse EcgWait]) \<and>
       (if b then \<exists>hs ops. ms = w @ [ECGResponse (EcgResponse hs ops)] \<and> length hs \<le> max_have_headers \<and>
                    length ops \<le> max_deliver_headers \<and> (hs \<noteq> [] \<or> ops \<noteq> [])
        else ms = (if first then [ECGResponse EcgWait] else [])))"

lemma run_response_helper_ok:
  assumes D: "stable_dag D dag_ok" and st: "ecg_ok D dag_ok H st" and r: "responder_ok st r" and s: "is_open s"
    and ups: "evolves (ecg_ok D dag_ok H) st updates"
  shows "\<exists>b r' s' ms. run_response_helper D first their_tips st updates (r, s) = Some (Ret (b, r', s')) \<and>
    is_open s' \<and> outgoing s' = outgoing s @ ms \<and> round_messages first b ms \<and>
    (\<exists>st' \<in> set (st # updates). responder_ok st' r' \<and> (\<not> b \<longrightarrow> (\<forall>t \<in> tips st'. they_know r' t)))"
  using st r s ups
proof (induction updates arbitrary: st r s first)
  case Nil
  from known_ecg.response_turn_ok [OF known_ecg.intro [OF D known_ecg_axioms.intro [OF Nil(1)]] Nil(2,3),
      of first their_tips] obtain b r' s' ids where
    t: "response_turn D first their_tips st (r, s) = Some (Ret (b, r', s'))" "responder_ok st r'" "is_open s'"
    "if b then outgoing s' = outgoing s @ [ECGResponse (EcgResponse (sent_haves r') (map (pack st) ids))] \<and>
       (sent_haves r' \<noteq> [] \<or> ids \<noteq> []) \<and> length ids \<le> max_deliver_headers \<and> distinct ids
     else outgoing s' = outgoing s @ (if first then [ECGResponse EcgWait] else []) \<and>
       (\<forall>t \<in> tips st. they_know r' t)" by blast
  show ?case
  proof (cases b)
    case True
    with t show ?thesis
      by (intro exI [of _ b] exI [of _ r'] exI [of _ s']) (auto simp: round_messages_def responder_ok_def)
  next
    case False
    with t show ?thesis
      by (intro exI [of _ b] exI [of _ r'] exI [of _ s']) (auto simp: round_messages_def)
  qed
next
  case (Cons st1 updates)
  from known_ecg.response_turn_ok [OF known_ecg.intro [OF D known_ecg_axioms.intro [OF Cons.prems(1)]]
      Cons.prems(2,3), of first their_tips] obtain b r' s' ids where
    t: "response_turn D first their_tips st (r, s) = Some (Ret (b, r', s'))" "responder_ok st r'" "is_open s'"
    "if b then outgoing s' = outgoing s @ [ECGResponse (EcgResponse (sent_haves r') (map (pack st) ids))] \<and>
       (sent_haves r' \<noteq> [] \<or> ids \<noteq> []) \<and> length ids \<le> max_deliver_headers \<and> distinct ids
     else outgoing s' = outgoing s @ (if first then [ECGResponse EcgWait] else []) \<and>
       (\<forall>t \<in> tips st. they_know r' t)" by blast
  show ?case
  proof (cases b)
    case True
    with t show ?thesis
      by (intro exI [of _ b] exI [of _ r'] exI [of _ s']) (auto simp: round_messages_def responder_ok_def)
  next
    case False
    have st1: "ecg_ok D dag_ok H st1" and ups: "evolves (ecg_ok D dag_ok H) st1 updates"
      and r'1: "responder_ok st1 r'" using Cons.prems(4) responder_ok_grows [OF t(2)] by auto
    from known_ecg.update_our_unknown_ok [OF known_ecg.intro [OF D known_ecg_axioms.intro [OF st1]] r'1]
    obtain r1 where r1: "update_our_unknown D st1 r' = Some (Ret r1)" "responder_ok st1 r1" by blast
    from Cons.IH [OF st1 r1(2) t(3) ups, of False] obtain b2 r2 s2 ms where
      IH: "run_response_helper D False their_tips st1 updates (r1, s') = Some (Ret (b2, r2, s2))" "is_open s2"
        "outgoing s2 = outgoing s' @ ms" "round_messages False b2 ms"
        "\<exists>st' \<in> set (st1 # updates). responder_ok st' r2 \<and> (\<not> b2 \<longrightarrow> (\<forall>t \<in> tips st'. they_know r2 t))" by blast
    have "run_response_helper D first their_tips st (st1 # updates) (r, s) = Some (Ret (b2, r2, s2))"
      using t(1) False r1(1) IH(1) by simp
    moreover have "round_messages first b2 ((if first then [ECGResponse EcgWait] else []) @ ms)"
      using IH(4) by (auto simp: round_messages_def split: if_splits)
    ultimately show ?thesis using IH t(4) False
      by (intro exI [of _ b2] exI [of _ r2] exI [of _ s2]
          exI [of _ "(if first then [ECGResponse EcgWait] else []) @ ms"]) auto
  qed
qed

section \<open>Properties\<close>

text \<open>C10. A responder always answers: whatever tips and bitmap a peer sends, a round returns, without
  panicking, on an open stream; it sends at most one request to wait and then one response with
  at most 32 proposals and 32 headers, not both empty. If the states of the store run out before
  it responds, the peer is known to have all tips of the last state.\<close>

theorem responder_always_answers:
  assumes "stable_dag D dag_ok" and "ecg_ok D dag_ok H st" and "responder_ok st r" and "is_open s"
    and "evolves (ecg_ok D dag_ok H) st updates" and "length bitmap = max_have_headers"
  shows "\<exists>b r' s' ms. run_round_responder D their_tips bitmap st updates (r, s) = Some (Ret (b, r', s')) \<and>
    outgoing s' = outgoing s @ ms \<and> round_messages True b ms \<and>
    (\<exists>st' \<in> set (st # updates). responder_ok st' r' \<and> (\<not> b \<longrightarrow> (\<forall>t \<in> tips st'. they_know r' t)))"
proof -
  note K = known_ecg.intro [OF assms(1) known_ecg_axioms.intro [OF assms(2)]]
  from known_ecg.handle_their_tips_ok [OF K assms(3)] obtain r1 where
    r1: "handle_their_tips D st r their_tips = Some (Ret r1)" "responder_ok st r1" by blast
  from known_ecg.handle_their_known_ok [OF K r1(2) assms(6)] obtain r2 where
    r2: "handle_their_known D st r1 bitmap = Some (Ret r2)" "responder_ok st r2" by blast
  from run_response_helper_ok [OF assms(1,2) r2(2) assms(4,5), of True their_tips] obtain b r' s' ms where
    "run_response_helper D True their_tips st updates (r2, s) = Some (Ret (b, r', s'))"
    "outgoing s' = outgoing s @ ms" "round_messages True b ms"
    "\<exists>st' \<in> set (st # updates). responder_ok st' r' \<and> (\<not> b \<longrightarrow> (\<forall>t \<in> tips st'. they_know r' t))" by blast
  with r1 r2 show ?thesis by (auto simp: run_round_responder_def)
qed

lemma responder_always_answers_witness:
  "\<exists>b r' s' ms. run_round_responder list_dag [2, 9] (replicate 32 True) demo_ecg [demo_ecg]
      (responder_new, \<lparr>incoming = [], outgoing = [] :: (u32, u32, test_header) store_sync_msg list, is_open = True\<rparr>)
      = Some (Ret (b, r', s')) \<and> outgoing s' = ms \<and> round_messages True b ms"
  using responder_always_answers [OF list_dag.stable_dag_axioms demo_ecg_ok responder_new_ok,
      of "\<lparr>incoming = [], outgoing = [] :: (u32, u32, test_header) store_sync_msg list, is_open = True\<rparr>"
         "[demo_ecg]" "replicate 32 True" "[2, 9]"] demo_ecg_ok
  by (auto simp: max_have_headers_def)



text \<open>C39. What is delivered: at most 32 headers with their operations, each once, none the peer is known
  to have, all reachable from the send queue; exactly these are then marked as known by the peer,
  and if fewer than 32 are sent, the peer knows everything reachable from the queue.\<close>

theorem deliver_exact:
  assumes "stable_dag D dag_ok" and "ecg_ok D dag_ok H st" and "responder_ok st r"
  shows "\<exists>ids r'. prepare_operations D st r = Some (Ret (map (pack st) ids, r')) \<and>
    distinct ids \<and> length ids \<le> max_deliver_headers \<and> (\<forall>h \<in> set ids. \<not> they_know r h) \<and>
    set ids \<subseteq> descendants H st (snd ` set (send_queue r)) \<and> their_known r' = their_known r \<union> set ids \<and>
    (length ids < max_deliver_headers \<longrightarrow>
       (\<forall>h \<in> descendants H st (snd ` set (send_queue r)). they_know r' h))"
  using known_ecg.prepare_operations_ok [OF known_ecg.intro [OF assms(1) known_ecg_axioms.intro [OF assms(2)]]
      assms(3)] by blast

lemma deliver_exact_witness:
  "\<exists>ids r'. prepare_operations list_dag demo_ecg (responder_new\<lparr>send_queue := [(Reverse 1, 1)]\<rparr>)
      = Some (Ret (map (pack demo_ecg) ids, r')) \<and> distinct ids \<and>
     (length ids < max_deliver_headers \<longrightarrow> they_know r' 2)"
proof -
  have ok: "responder_ok demo_ecg (responder_new\<lparr>send_queue := [(Reverse 1, 1)]\<rparr>)"
    by (simp add: responder_ok_def responder_new_def demo_ecg_def)
  have "(1, 2) \<in> parent_rel test_header_ops (node_info_map demo_ecg)"
    by (simp add: parent_rel_def demo_ecg_def test_header_ops_def th_def)
  then have "2 \<in> descendants test_header_ops demo_ecg (snd ` set (send_queue (responder_new\<lparr>send_queue := [(Reverse 1, 1)]\<rparr>)))"
    by (auto simp: descendants_def)
  with deliver_exact [OF list_dag.stable_dag_axioms demo_ecg_ok ok] show ?thesis by blast
qed

text \<open>What is proposed: after a turn's preparation at most 32 headers are proposed, none the peer
  is known to have, and unless the limit is reached every tip of ours it is not known to have.\<close>

theorem proposals_cover_tips:
  assumes "stable_dag D dag_ok" and "ecg_ok D dag_ok H st" and "responder_ok st r"
  shows "\<exists>r1 r2. prepare_our_tips st r = Ret r1 \<and> prepare_sent_haves D st r1 = Some (Ret r2) \<and>
    length (sent_haves r2) \<le> max_have_headers \<and> (\<forall>h \<in> set (sent_haves r2). \<not> they_know r h) \<and>
    (length (sent_haves r2) < max_have_headers \<longrightarrow>
       (\<forall>t \<in> tips st. they_know r t \<or> t \<in> set (sent_haves r2)))"
proof -
  note K = known_ecg.intro [OF assms(1) known_ecg_axioms.intro [OF assms(2)]]
  from known_ecg.prepare_our_tips_ok [OF K assms(3)] obtain q where
    q: "prepare_our_tips st r = Ret (r\<lparr>haves_queue := q\<rparr>)" "responder_ok st (r\<lparr>haves_queue := q\<rparr>)"
      "\<forall>t \<in> tips st. \<exists>e \<in> set q. have_id e = t \<and> proposable e" by blast
  from known_ecg.prepare_sent_haves_ok [OF K q(2)] obtain r2 where
    r2: "prepare_sent_haves D st (r\<lparr>haves_queue := q\<rparr>) = Some (Ret r2)" "responder_ok st r2"
      "\<forall>h \<in> set (sent_haves r2). \<not> they_know r h"
      "length (sent_haves r2) < max_have_headers \<longrightarrow>
        (\<forall>e \<in> set q. \<not> they_know r (have_id e) \<and> proposable e \<longrightarrow> have_id e \<in> set (sent_haves r2))"
    by auto
  have "t \<in> set (sent_haves r2)" if "length (sent_haves r2) < max_have_headers" "t \<in> tips st" "\<not> they_know r t" for t
  proof -
    from q(3) that(2) obtain e where "e \<in> set q" "have_id e = t" "proposable e" by blast
    with r2(4) that show ?thesis by blast
  qed
  with q(1) r2 show ?thesis
    by (intro exI [of _ "r\<lparr>haves_queue := q\<rparr>"] exI [of _ r2]) (auto simp: responder_ok_def)
qed

lemma proposals_cover_tips_witness:
  "\<exists>r1 r2. prepare_our_tips demo_ecg responder_new = Ret r1 \<and>
     prepare_sent_haves list_dag demo_ecg r1 = Some (Ret r2) \<and>
     (length (sent_haves r2) < max_have_headers \<longrightarrow> 2 \<in> set (sent_haves r2))"
  using proposals_cover_tips [OF list_dag.stable_dag_axioms demo_ecg_ok responder_new_ok]
  by (fastforce simp: they_know_def responder_new_def demo_ecg_def)

end
