(* ===== verification/EcgSyncRounds.thy ===== *)
theory EcgSyncRounds
  imports EcgSyncInvariant "HOL-Library.Code_Target_Nat"
begin

text \<open>
  The two ends of \<open>store_peer/ecg_sync.rs\<close> together, the bitmap of the initiator, and two
  behaviours of the responder that its comments do not expect: marking a header does not mark
  its ancestors, and headers are delivered by least depth, which can put a child before one of
  its parents.
\<close>

section \<open>The initiator's bitmap\<close>

lemma zip_upt_snoc: "zip [0 ..< length (hs @ [h])] (hs @ [h]) = zip [0 ..< length hs] hs @ [(length hs, h)]"
  by simp

lemma known_bits_snoc:
  "known_bits st (hs @ [h]) =
     bindR (known_bits st hs) (\<lambda>b. if contains st h then store_at b (length hs) True else Ret b)"
  unfolding known_bits_def zip_upt_snoc by (simp add: foldR_append cong: if_cong)

text \<open>The initiator answers a proposal by setting the bit of every proposed header it has. It does
  so exactly when these are among the first 32; a peer that proposes more headers, one of them
  past the 32nd and known, makes it panic.\<close>

theorem known_bits_exact:
  "known_bits st hs =
     (if \<forall>i < length hs. contains st (hs ! i) \<longrightarrow> i < max_have_headers
      then Ret (map (\<lambda>i. i < length hs \<and> contains st (hs ! i)) [0 ..< max_have_headers])
      else Panic IndexOutOfBounds)"
proof (induction hs rule: rev_induct)
  case Nil
  show ?case by (simp add: known_bits_def map_replicate_const)
next
  case (snoc h hs)
  let ?ok = "\<lambda>hs. \<forall>i < length hs. contains st (hs ! i) \<longrightarrow> i < max_have_headers"
  let ?bits = "\<lambda>hs. map (\<lambda>i. i < length hs \<and> contains st (hs ! i)) [0 ..< max_have_headers]"
  have ok: "?ok (hs @ [h]) \<longleftrightarrow> ?ok hs \<and> (contains st h \<longrightarrow> length hs < max_have_headers)"
    by (auto simp: nth_append less_Suc_eq)
  show ?case
  proof (cases "contains st h")
    case False
    then have "?bits (hs @ [h]) = ?bits hs" by (auto simp: nth_append less_Suc_eq)
    with False snoc ok show ?thesis by (simp add: known_bits_snoc)
  next
    case True
    have "?bits (hs @ [h]) = (?bits hs)[length hs := True]"
      by (rule nth_equalityI) (auto simp: nth_append nth_list_update True less_Suc_eq)
    with True snoc ok show ?thesis by (simp add: known_bits_snoc store_at_def)
  qed
qed

lemma known_bits_exact_witness:
  "known_bits demo_ecg [1, 7, 2] = Ret ([True, False, True] @ replicate 29 False) \<and>
   known_bits demo_ecg (replicate 32 7 @ [1]) = Panic IndexOutOfBounds"
proof -
  have c: "contains demo_ecg h \<longleftrightarrow> h = 1 \<or> h = 2" for h
    by (auto simp: contains_def demo_ecg_def)
  have "known_bits demo_ecg [1, 7, 2] =
      Ret (map (\<lambda>i. i < 3 \<and> contains demo_ecg ([1, 7, 2] ! i)) [0 ..< 32])"
    by (simp add: known_bits_exact max_have_headers_def less_Suc_eq numeral_3_eq_3)
  also have "map (\<lambda>i. i < 3 \<and> contains demo_ecg ([1, 7, 2] ! i)) [0 ..< 32] = [True, False, True] @ replicate 29 False"
    by (rule nth_equalityI) (auto simp: c nth_append nth_Cons')
  moreover have "known_bits demo_ecg (replicate 32 7 @ [1]) = Panic IndexOutOfBounds"
    unfolding known_bits_exact by (auto simp: c nth_append max_have_headers_def intro!: exI [of _ 32])
  ultimately show ?thesis by simp
qed

section \<open>Both ends\<close>

text \<open>The ends of a round fit: what a responder that responds puts on the stream, with or without
  a request to wait first, the initiator reads as one response; it holds the proposals to answer
  and at most 32 of them, so that its next request is built without a panic.\<close>

theorem initiator_understands_responder:
  assumes "stable_dag D dag_ok" and "ecg_ok D dag_ok H st" and "responder_ok st r" and "is_open s"
    and "evolves (ecg_ok D dag_ok H) st updates" and "outgoing s = []"
    and run: "run_initial D their_tips st updates (r, s) = Some (Ret (True, r', s'))"
    and c: "incoming c = map Inr (outgoing s')"
  shows "\<exists>hs received c'. receive_response_helper c = Ret ((hs, received), c') \<and> incoming c' = [] \<and>
    length hs \<le> max_have_headers \<and> length received \<le> max_deliver_headers \<and>
    (\<exists>bits. known_bits st' hs = Ret bits)"
proof -
  note K = known_ecg.intro [OF assms(1) known_ecg_axioms.intro [OF assms(2)]]
  from known_ecg.handle_their_tips_ok [OF K assms(3)] obtain r1 where
    r1: "handle_their_tips D st r their_tips = Some (Ret r1)" "responder_ok st r1" by blast
  from run_response_helper_ok [OF assms(1,2) r1(2) assms(4,5), of True their_tips] run r1(1) assms(6)
  have "round_messages True True (outgoing s')" by (auto simp: run_initial_def)
  then obtain w hs received where
    ms: "outgoing s' = w @ [ECGResponse (EcgResponse hs received)]" "w = [] \<or> w = [ECGResponse EcgWait]"
      "length hs \<le> max_have_headers" "length received \<le> max_deliver_headers"
    by (auto simp: round_messages_def)
  have "receive_response_helper c = Ret ((hs, received), c\<lparr>incoming := []\<rparr>)"
    using ms(2) by (elim disjE)
      (simp_all add: receive_response_helper_def receive_expect_def receive_def c ms(1))
  with ms(3,4) show ?thesis by (auto simp: known_bits_exact)
qed

section \<open>Marking is not closed under ancestors\<close>

text \<open>Marking a header the peer was not known to have marks that header alone: the test of
  \<open>insert\<close>'s result is inverted, so the ancestors, which the comment says are in \<open>their_known\<close>
  with it, are only visited for a header that was already marked.\<close>

theorem mark_as_known_fresh:
  "mark_as_known_helper D known st h =
     (if h \<notin> known then Some (Ret (insert h known))
      else bindL (case get_parents D st h of Some ps \<Rightarrow> Some (Ret ps) | None \<Rightarrow> Some (Panic Unreachable))
             (mark_loop D st known))"
  by (simp add: mark_as_known_helper_def mark_loop.simps [of _ _ _ "[_]"] mark_loop.simps [of _ _ _ "[]"]
      Let_def insert_absorb split: option.split)

lemma ancestors_not_marked:
  "mark_as_known_helper list_dag {} demo_ecg 2 = Some (Ret {2}) \<and>
   1 \<in> ancestors test_header_ops demo_ecg {2}"
proof -
  have "(1, 2) \<in> parent_rel test_header_ops (node_info_map demo_ecg)"
    by (simp add: parent_rel_def demo_ecg_def test_header_ops_def th_def)
  then show ?thesis by (auto simp: mark_as_known_fresh ancestors_def)
qed

lemma initiator_understands_responder_witness:
  "\<exists>r' s' hs received c'. run_initial list_dag [1] demo_ecg []
        (responder_new, \<lparr>incoming = [], outgoing = [] :: (u32, u32, test_header) store_sync_msg list, is_open = True\<rparr>)
      = Some (Ret (True, r', s')) \<and>
    receive_response_helper \<lparr>incoming = map Inr (outgoing s'), outgoing = [], is_open = True\<rparr>
      = Ret ((hs, received), c') \<and> length hs \<le> max_have_headers"
proof -
  let ?s = "\<lparr>incoming = [], outgoing = [] :: (u32, u32, test_header) store_sync_msg list, is_open = True\<rparr>"
  have "case run_initial list_dag [1] demo_ecg [] (responder_new, ?s) of
      Some (Ret (b, r', s')) \<Rightarrow> b | _ \<Rightarrow> False" by code_simp
  then obtain r' s' where run: "run_initial list_dag [1] demo_ecg [] (responder_new, ?s) = Some (Ret (True, r', s'))"
    by (auto split: option.splits res.splits)
  from initiator_understands_responder [OF list_dag.stable_dag_axioms demo_ecg_ok responder_new_ok _ _ _ run,
      of "\<lparr>incoming = map Inr (outgoing s'), outgoing = [], is_open = True\<rparr>" demo_ecg]
  show ?thesis using run by auto
qed

section \<open>Delivery order\<close>

text \<open>The receiver inserts what it gets, in order, and drops what \<open>insert_header\<close> refuses.\<close>

definition insert_received ::
    "('g, 'h) dag_ops \<Rightarrow> ('h, 'hd) header_ops \<Rightarrow> ('g, 'h, 'hd) ecg \<Rightarrow> ('hd \<times> bytes) list \<Rightarrow> ('g, 'h, 'hd) ecg res" where
  "insert_received D H st ops =
     foldR (\<lambda>st op. bindR (insert_header D H st (fst op) (snd op)) (\<lambda>r. Ret (snd r))) st ops"

lemma insert_received_ok:
  assumes "stable_dag D dag_ok" and "ecg_ok D dag_ok H st"
    and "card (dom (node_info_map st)) + length ops \<le> u64_max"
  shows "\<exists>st'. insert_received D H st ops = Ret st' \<and> ecg_ok D dag_ok H st' \<and>
    dom (node_info_map st) \<subseteq> dom (node_info_map st')"
  using assms(2,3)
proof (induction ops arbitrary: st)
  case Nil
  then show ?case by (auto simp: insert_received_def)
next
  case (Cons op ops)
  have room: "card (dom (node_info_map st)) < u64_max" using Cons.prems(2) by simp
  have fin: "finite (dom (node_info_map st))" using Cons.prems(1) by (simp add: ecg_ok_def map_ok_def)
  have "\<exists>b st1. insert_header D H st (fst op) (snd op) = Ret (b, st1) \<and> ecg_ok D dag_ok H st1 \<and>
      dom (node_info_map st) \<subseteq> dom (node_info_map st1) \<and>
      card (dom (node_info_map st1)) \<le> Suc (card (dom (node_info_map st)))"
  proof (cases "insertable H st (fst op)")
    case True
    from stable_dag.insert_header_accepted [OF assms(1) Cons.prems(1) room True, of "snd op"] fin
    show ?thesis by (force simp: card_insert_if)
  next
    case False
    from stable_dag.insert_header_rejected [OF assms(1) Cons.prems(1) room False, of "snd op"] Cons.prems(1)
    show ?thesis by auto
  qed
  then obtain b st1 where st1: "insert_header D H st (fst op) (snd op) = Ret (b, st1)" "ecg_ok D dag_ok H st1"
    "dom (node_info_map st) \<subseteq> dom (node_info_map st1)"
    "card (dom (node_info_map st1)) \<le> Suc (card (dom (node_info_map st)))" by blast
  with Cons.prems(2) Cons.IH [OF st1(2)] show ?case by (auto simp: insert_received_def)
qed

text \<open>
  Two roots 1 and 3, a child 2 of 1, and 4 with the parents 2 and 3, so that its depth, one more
  than the least depth of a parent, is 2. \<open>late_scenario\<close> delivers the graph to a peer without
  headers: the order of delivery, what is marked as known by the peer, what the peer then has.
\<close>

definition late_headers :: "(test_header \<times> bytes) list" where
  "late_headers = map (\<lambda>h. (h, [])) [th 1 [], th 2 [1], th 3 [], th 4 [2, 3]]"

definition late_scenario :: "(u32 list \<times> u32 list \<times> bool list) res option" where
  "late_scenario =
     bindL (Some (insert_received list_dag test_header_ops (ecg_new list_dag) late_headers)) (\<lambda>st.
     bindL (handle_their_tips list_dag st responder_new []) (\<lambda>r.
     bindL (prepare_operations list_dag st r) (\<lambda>p.
     bindL (Some (insert_received list_dag test_header_ops (ecg_new list_dag) (fst p))) (\<lambda>st'.
     Some (Ret (map (\<lambda>op. th_header_id (fst op)) (fst p), sorted_list_of_set (their_known (snd p)),
                map (contains st') [1, 2, 3, 4]))))))"


end
