(* ===== verification/Store.thy ===== *)
theory Store
  imports StoreMessages EcgInvariant
begin

text \<open>
  \<open>ossa-core/src/store/mod.rs\<close>: the task that owns a store. It keeps a state machine
  (downloading the metadata, the Merkle tree, the blocks; then syncing), the status of each
  peer, the peers that wait for something, and the listeners of the application.

  The task reacts to one command at a time (\<open>run_handler\<close>); here a command is a function on
  the task's state. What it sends on channels is appended to \<open>outbox\<close>, in order; a channel
  is its number. A \<open>oneshot\<close> response that says "wait" carries the receiver of a second
  oneshot, which is named by the number of the first one.

  Arguments: \<open>store_ops\<close> holds the traits and libraries (hash, graph, header trait, the
  serializer, the CRDT); \<open>world\<close> is what the task finds when it handles a command: the orders
  \<open>rand\<close> shuffles into, the channels whose receiver is alive, and the managers of connected
  peers (\<open>SharedState::peer_state\<close>). A \<open>send\<close> to a dropped receiver is an \<open>expect\<close> that fails.
\<close>

section \<open>Parameters\<close>

record ('s, 'h, 'g, 'id, 'hd, 't, 'b, 'op) store_ops =
  so_hash :: "('s, 'h) hash_ops"
  so_dag :: "('g, 'id) dag_ops"
  so_header :: "('id, 'hd) header_ops"
  so_type_ident :: bytes
  so_to_vec :: "'t \<Rightarrow> bytes"
  so_from_slice :: "bytes \<Rightarrow> 't option"
  so_body_to_vec :: "'b \<Rightarrow> bytes"
  so_body_from_slice :: "bytes \<Rightarrow> 'b option"
  so_body_operations :: "'b \<Rightarrow> 'id \<Rightarrow> 'op list"
  so_apply :: "'t \<Rightarrow> ('g, 'id, 'hd) ecg \<Rightarrow> 'op \<Rightarrow> 't"

type_synonym chan = nat

record 'd world =
  peer_order :: "nat \<Rightarrow> nat list"
  request_order :: "nat \<Rightarrow> nat list"
  alive :: "chan \<Rightarrow> bool"
  peer_state :: "'d \<rightharpoonup> chan"

text \<open>\<open>SliceRandom::shuffle\<close>: the order is a list of positions.\<close>

definition shuffle_with :: "(nat \<Rightarrow> nat list) \<Rightarrow> 'a list \<Rightarrow> 'a list" where
  "shuffle_with order xs = map ((!) xs) (order (length xs))"

section \<open>State\<close>

text \<open>\<open>StoreSyncCommand\<close> of \<open>store_peer/v0.rs\<close>: what the store tells the task of a peer to request.\<close>

datatype ('g, 'id, 'hd) store_sync_command =
    MetadataHeaderRequest
  | MerkleRequest "range list"
  | InitialStateBlockRequest "range list"
  | ECGSyncRequest "('g, 'id, 'hd) ecg"

datatype 'a peer_status = Known | Initializing | Syncing 'a

record outgoing_peer_status =
  sender_peer :: chan
  is_outstanding :: bool

record peer_info =
  incoming_status :: "unit peer_status"
  outgoing_status :: "outgoing_peer_status peer_status"

record ('id, 't) decrypted_state =
  latest_state :: 't
  latest_headers :: "'id set"

datatype ('h, 'g, 'id, 'hd, 't) state_machine =
    DownloadingMetadata 'h
  | DownloadingMerkle "'h metadata_header" "'h potential merkle_tree"
  | DownloadingInitialState "'h metadata_header" "'h merkle_tree" "bytes option list"
  | SyncingStore "'h metadata_header" "'h merkle_tree" bytes "('g, 'id, 'hd) ecg" "('id, 't) decrypted_state"

datatype ('g, 'id, 'hd, 't) state_update =
    Downloading nat
  | Snapshot 't "('g, 'id, 'hd) ecg"

text \<open>
  What the task sends. \<open>ReplyX c (Some r)\<close> answers request \<open>c\<close> (\<open>Ok(r)\<close>), \<open>ReplyX c None\<close>
  tells it to wait (\<open>Err(recv_chan)\<close>), \<open>WakeX c m\<close> is the message on that second channel.
\<close>

datatype ('h, 'd, 'g, 'id, 'hd, 't) effect =
    PeerCommand chan "('g, 'id, 'hd) store_sync_command"
  | ReplyMetadata chan "'h metadata_header option"
  | WakeMetadata chan "'h metadata_header option"
  | ReplyMerkle chan "'h list option"
  | WakeMerkle chan "'h list option"
  | ReplyBlocks chan "bytes option list option"
  | WakeBlocks chan "bytes option list option"
  | EcgState chan "('g, 'id, 'hd) ecg"
  | Update chan "('g, 'id, 'hd, 't) state_update"
  | ReplySync chan bool
  | RequestStoreSync chan 'h 'd

record ('h, 'd, 'g, 'id, 'hd, 't) store =
  peers :: "('d, peer_info) btree"
  state_machine :: "('h, 'g, 'id, 'hd, 't) state_machine"
  metadata_subscribers :: "('d, chan) btree"
  merkle_subscribers :: "('d, range list \<times> chan) btree"
  block_subscribers :: "('d, range list \<times> chan) btree"
  ecg_subscribers :: "('d, chan) btree"
  listeners :: "chan list"
  outbox :: "('h, 'd, 'g, 'id, 'hd, 't) effect list"

text \<open>\<open>UnboundedSender::send(..).expect(..)\<close> and \<open>oneshot::Sender::send(..).expect(..)\<close>\<close>

definition emit ::
    "'d world \<Rightarrow> chan \<Rightarrow> ('h, 'd, 'g, 'id, 'hd, 't) effect \<Rightarrow> ('h, 'd, 'g, 'id, 'hd, 't) store
     \<Rightarrow> ('h, 'd, 'g, 'id, 'hd, 't) store res" where
  "emit W c e st = (if alive W c then Ret (st\<lparr>outbox := outbox st @ [e]\<rparr>) else Panic ExpectFailed)"

definition fresh_store :: "('h, 'g, 'id, 'hd, 't) state_machine \<Rightarrow> ('h, 'd, 'g, 'id, 'hd, 't) store" where
  "fresh_store sm =
     \<lparr>peers = [], state_machine = sm, metadata_subscribers = [], merkle_subscribers = [],
      block_subscribers = [], ecg_subscribers = [], listeners = [], outbox = []\<rparr>"

text \<open>\<open>State::new_syncing\<close>; \<open>rnd\<close> is the random nonce of the metadata.\<close>

definition new_syncing ::
    "('s, 'h, 'g, 'id, 'hd, 't, 'b, 'op) store_ops \<Rightarrow> bytes \<Rightarrow> 't \<Rightarrow> ('h, 'd, 'g, 'id, 'hd, 't) store res" where
  "new_syncing E rnd initial_state =
     bindR (metadata_body_new (so_hash E) (so_to_vec E) initial_state) (\<lambda>init_body.
     bindR (metadata_generate rnd (so_type_ident E) init_body) (\<lambda>store_header.
     let ds = \<lparr>latest_state = initial_state, latest_headers = {}\<rparr>;
         (tree, bs) = metadata_build init_body
     in Ret (fresh_store (SyncingStore store_header tree bs (ecg_new (so_dag E)) ds))))"

definition new_downloading :: "'h \<Rightarrow> ('h, 'd, 'g, 'id, 'hd, 't) store" where
  "new_downloading sid = fresh_store (DownloadingMetadata sid)"

definition store_id_of ::
    "('s, 'h, 'g, 'id, 'hd, 't, 'b, 'op) store_ops \<Rightarrow> ('h, 'd, 'g, 'id, 'hd, 't) store \<Rightarrow> 'h" where
  "store_id_of E st =
     (case state_machine st of
        DownloadingMetadata sid \<Rightarrow> sid
      | DownloadingMerkle md _ \<Rightarrow> store_id (so_hash E) md
      | DownloadingInitialState md _ _ \<Rightarrow> store_id (so_hash E) md
      | SyncingStore md _ _ _ _ \<Rightarrow> store_id (so_hash E) md)"

section \<open>Peers\<close>

definition is_ready_for_sync :: "peer_info \<Rightarrow> bool" where
  "is_ready_for_sync i =
     (case outgoing_status i of Syncing s \<Rightarrow> \<not> is_outstanding s | _ \<Rightarrow> False)"

definition is_known :: "'a peer_status \<Rightarrow> bool" where
  "is_known s = (case s of Known \<Rightarrow> True | _ \<Rightarrow> False)"

definition insert_known_peer ::
    "('h, 'd :: linorder, 'g, 'id, 'hd, 't) store \<Rightarrow> 'd \<Rightarrow> ('h, 'd, 'g, 'id, 'hd, 't) store" where
  "insert_known_peer st peer =
     st\<lparr>peers := bt_or_insert peer \<lparr>incoming_status = Known, outgoing_status = Known\<rparr> (peers st)\<rparr>"

text \<open>\<open>direction_lambda\<close>, the field of \<open>PeerInfo\<close> to update, is its reader and its writer.\<close>

definition update_peer_to_initializing ::
    "(peer_info \<Rightarrow> 'a peer_status) \<Rightarrow> ('a peer_status \<Rightarrow> peer_info \<Rightarrow> peer_info)
     \<Rightarrow> ('h, 'd :: linorder, 'g, 'id, 'hd, 't) store \<Rightarrow> 'd \<Rightarrow> ('h, 'd, 'g, 'id, 'hd, 't) store res" where
  "update_peer_to_initializing rd wr st peer =
     (case map_of (peers st) peer of
        None \<Rightarrow> Panic ExplicitPanic
      | Some info \<Rightarrow>
          if is_known (rd info) then Ret (st\<lparr>peers := bt_insert peer (wr Initializing info) (peers st)\<rparr>)
          else Panic ExplicitPanic)"

definition update_peer_to_initializing_outgoing ::
    "('h, 'd :: linorder, 'g, 'id, 'hd, 't) store \<Rightarrow> 'd \<Rightarrow> ('h, 'd, 'g, 'id, 'hd, 't) store res" where
  "update_peer_to_initializing_outgoing =
     update_peer_to_initializing outgoing_status (\<lambda>s info. info\<lparr>outgoing_status := s\<rparr>)"

definition update_peer_to_initializing_incoming ::
    "('h, 'd :: linorder, 'g, 'id, 'hd, 't) store \<Rightarrow> 'd \<Rightarrow> ('h, 'd, 'g, 'id, 'hd, 't) store res" where
  "update_peer_to_initializing_incoming =
     update_peer_to_initializing incoming_status (\<lambda>s info. info\<lparr>incoming_status := s\<rparr>)"

definition update_peer_to_syncing ::
    "(peer_info \<Rightarrow> 'a peer_status) \<Rightarrow> ('a peer_status \<Rightarrow> peer_info \<Rightarrow> peer_info)
     \<Rightarrow> ('h, 'd :: linorder, 'g, 'id, 'hd, 't) store \<Rightarrow> 'd \<Rightarrow> 'a \<Rightarrow> ('h, 'd, 'g, 'id, 'hd, 't) store res" where
  "update_peer_to_syncing rd wr st peer sender_m =
     (case map_of (peers st) peer of
        None \<Rightarrow> Panic ExplicitPanic
      | Some info \<Rightarrow>
          (case rd info of
             Initializing \<Rightarrow> Ret (st\<lparr>peers := bt_insert peer (wr (Syncing sender_m) info) (peers st)\<rparr>)
           | Known \<Rightarrow> Panic ExplicitPanic
           | Syncing _ \<Rightarrow> Panic ExplicitPanic))"

definition update_peer_to_syncing_incoming ::
    "('h, 'd :: linorder, 'g, 'id, 'hd, 't) store \<Rightarrow> 'd \<Rightarrow> ('h, 'd, 'g, 'id, 'hd, 't) store res" where
  "update_peer_to_syncing_incoming st peer =
     update_peer_to_syncing incoming_status (\<lambda>s info. info\<lparr>incoming_status := s\<rparr>) st peer ()"

definition update_peer_to_syncing_outgoing ::
    "('h, 'd :: linorder, 'g, 'id, 'hd, 't) store \<Rightarrow> 'd \<Rightarrow> outgoing_peer_status
     \<Rightarrow> ('h, 'd, 'g, 'id, 'hd, 't) store res" where
  "update_peer_to_syncing_outgoing st peer sender =
     update_peer_to_syncing outgoing_status (\<lambda>s info. info\<lparr>outgoing_status := s\<rparr>) st peer sender"

definition update_outgoing_peer_to_ready ::
    "('h, 'd :: linorder, 'g, 'id, 'hd, 't) store \<Rightarrow> 'd \<Rightarrow> ('h, 'd, 'g, 'id, 'hd, 't) store res" where
  "update_outgoing_peer_to_ready st peer =
     (case map_of (peers st) peer of
        None \<Rightarrow> Panic ExplicitPanic
      | Some info \<Rightarrow>
          (case outgoing_status info of
             Initializing \<Rightarrow> Panic ExplicitPanic
           | Known \<Rightarrow> Panic ExplicitPanic
           | Syncing status \<Rightarrow>
               Ret (st\<lparr>peers := bt_insert peer
                         (info\<lparr>outgoing_status := Syncing (status\<lparr>is_outstanding := False\<rparr>)\<rparr>) (peers st)\<rparr>)))"

section \<open>Sending requests to peers\<close>

definition send_command ::
    "'d world \<Rightarrow> ('h, 'd :: linorder, 'g, 'id, 'hd, 't) store \<Rightarrow> 'd \<times> ('g, 'id, 'hd) store_sync_command
     \<Rightarrow> ('h, 'd, 'g, 'id, 'hd, 't) store res" where
  "send_command W st p =
     (case map_of (peers st) (fst p) of
        None \<Rightarrow> Panic Unreachable
      | Some i \<Rightarrow>
          (case outgoing_status i of
             Syncing s \<Rightarrow>
               emit W (sender_peer s) (PeerCommand (sender_peer s) (snd p))
                 (st\<lparr>peers := bt_insert (fst p)
                       (i\<lparr>outgoing_status := Syncing (s\<lparr>is_outstanding := True\<rparr>)\<rparr>) (peers st)\<rparr>)
           | _ \<Rightarrow> Panic Unreachable))"

definition ready_peers :: "('h, 'd, 'g, 'id, 'hd, 't) store \<Rightarrow> 'd list" where
  "ready_peers st = map fst (filter (\<lambda>p. is_ready_for_sync (snd p)) (peers st))"

text \<open>\<open>iter().enumerate().filter_map(..)\<close>: the positions without a block\<close>

definition needed_blocks :: "bytes option list \<Rightarrow> nat list" where
  "needed_blocks initial_state = [i \<leftarrow> [0 ..< length initial_state]. initial_state ! i = None]"

text \<open>The commands \<open>send_sync_requests\<close> hands out, each with the peer it goes to.\<close>

definition sync_commands ::
    "'d world \<Rightarrow> ('h, 'g, 'id, 'hd, 't) state_machine \<Rightarrow> 'd list
     \<Rightarrow> ('d \<times> ('g, 'id, 'hd) store_sync_command) list res" where
  "sync_commands W sm ps =
     (case sm of
        DownloadingMetadata _ \<Rightarrow> Ret (map (\<lambda>p. (p, MetadataHeaderRequest)) (take 1 ps))
      | DownloadingMerkle _ t \<Rightarrow>
          (let needed = chunks merkle_request_limit (missing_indices t) in
           if needed = [] then Panic ExplicitPanic
           else Ret (map (\<lambda>(p, is). (p, MerkleRequest (compress_consecutive_into_ranges is)))
                       (zip ps (shuffle_with (request_order W) needed))))
      | DownloadingInitialState _ _ initial_state \<Rightarrow>
          (let needed = chunks block_request_limit (needed_blocks initial_state) in
           if needed = [] then Panic ExplicitPanic
           else Ret (map (\<lambda>(p, is). (p, InitialStateBlockRequest (compress_consecutive_into_ranges is)))
                       (zip ps (shuffle_with (request_order W) needed))))
      | SyncingStore _ _ _ ecg _ \<Rightarrow> Ret (map (\<lambda>p. (p, ECGSyncRequest ecg)) ps))"

definition send_sync_requests ::
    "'d world \<Rightarrow> ('h, 'd :: linorder, 'g, 'id, 'hd, 't) store \<Rightarrow> ('h, 'd, 'g, 'id, 'hd, 't) store res" where
  "send_sync_requests W st =
     (let ps = shuffle_with (peer_order W) (ready_peers st) in
      bindR (sync_commands W (state_machine st) ps) (\<lambda>cmds. foldR (send_command W) st cmds))"

end
