(* ===== verification/StoreHandlers.thy ===== *)
theory StoreHandlers
  imports Store
begin

text \<open>
  The handlers of \<open>ossa-core/src/store/mod.rs\<close>: what the store answers to a peer's requests,
  what it does with what peers send, the transitions of its state machine, and
  \<open>run_handler\<close>, one function per command. A handler that inserts hashes into a partial tree
  is in \<open>res option\<close> like \<open>set_node\<close>.
\<close>

section \<open>Serving a peer\<close>

definition metadata_of :: "('h, 'd, 'g, 'id, 'hd, 't) store \<Rightarrow> 'h metadata_header option" where
  "metadata_of st =
     (case state_machine st of
        DownloadingMetadata _ \<Rightarrow> None
      | DownloadingMerkle md _ \<Rightarrow> Some md
      | DownloadingInitialState md _ _ \<Rightarrow> Some md
      | SyncingStore md _ _ _ _ \<Rightarrow> Some md)"

definition merkle_tree_of :: "('h, 'd, 'g, 'id, 'hd, 't) store \<Rightarrow> 'h merkle_tree option" where
  "merkle_tree_of st =
     (case state_machine st of
        DownloadingMetadata _ \<Rightarrow> None
      | DownloadingMerkle _ _ \<Rightarrow> None
      | DownloadingInitialState _ t _ \<Rightarrow> Some t
      | SyncingStore _ t _ _ _ \<Rightarrow> Some t)"

definition handle_merkle_peer_request_helper :: "'h merkle_tree \<Rightarrow> range list \<Rightarrow> 'h list res" where
  "handle_merkle_peer_request_helper t node_ids = mapR (\<lambda>i. expect (merkle_get t i)) (expand_ranges node_ids)"

definition handle_peer_request_range_helper :: "'a list \<Rightarrow> range list \<Rightarrow> 'a list res" where
  "handle_peer_request_range_helper xs ids =
     mapR (\<lambda>i. expect (if i < length xs then Some (xs ! i) else None)) (expand_ranges ids)"

text \<open>\<open>initial_state[start..end]\<close>: a slice whose start is after its end panics.\<close>

definition block_slice :: "bytes \<Rightarrow> nat \<Rightarrow> bytes res" where
  "block_slice bs i =
     bindR (mul_u64 i block_size) (\<lambda>start.
     bindR (mul_u64 (i + 1) block_size) (\<lambda>e.
     let stop = min e (length bs) in
     if start \<le> stop then Ret (take (stop - start) (drop start bs)) else Panic IndexOutOfBounds))"

definition handle_block_peer_request_helper ::
    "('h, 'g, 'id, 'hd, 't) state_machine \<Rightarrow> range list \<Rightarrow> bytes option list option res" where
  "handle_block_peer_request_helper sm block_ids =
     (case sm of
        DownloadingMetadata _ \<Rightarrow> Ret None
      | DownloadingMerkle _ _ \<Rightarrow> Ret None
      | DownloadingInitialState _ _ initial_state \<Rightarrow>
          bindR (handle_peer_request_range_helper initial_state block_ids) (\<lambda>bs. Ret (Some bs))
      | SyncingStore _ _ initial_state _ _ \<Rightarrow>
          bindR (mapR (\<lambda>i. bindR (block_slice initial_state i) (\<lambda>b. Ret (Some b))) (expand_ranges block_ids))
            (\<lambda>bs. Ret (Some bs)))"

definition handle_metadata_peer_request ::
    "'d world \<Rightarrow> ('h, 'd :: linorder, 'g, 'id, 'hd, 't) store \<Rightarrow> 'd \<Rightarrow> chan
     \<Rightarrow> ('h, 'd, 'g, 'id, 'hd, 't) store res" where
  "handle_metadata_peer_request W st peer c =
     (case metadata_of st of
        Some md \<Rightarrow> emit W c (ReplyMetadata c (Some md)) st
      | None \<Rightarrow>
          bindR (emit W c (ReplyMetadata c None) st) (\<lambda>st.
          Ret (st\<lparr>metadata_subscribers := bt_insert peer c (metadata_subscribers st)\<rparr>)))"

definition handle_merkle_peer_request ::
    "'d world \<Rightarrow> ('h, 'd :: linorder, 'g, 'id, 'hd, 't) store \<Rightarrow> 'd \<Rightarrow> range list \<Rightarrow> chan
     \<Rightarrow> ('h, 'd, 'g, 'id, 'hd, 't) store res" where
  "handle_merkle_peer_request W st peer node_ids c =
     (case merkle_tree_of st of
        Some t \<Rightarrow>
          bindR (handle_merkle_peer_request_helper t node_ids) (\<lambda>node_hashes.
          emit W c (ReplyMerkle c (Some node_hashes)) st)
      | None \<Rightarrow>
          bindR (emit W c (ReplyMerkle c None) st) (\<lambda>st.
          Ret (st\<lparr>merkle_subscribers := bt_insert peer (node_ids, c) (merkle_subscribers st)\<rparr>)))"

definition handle_block_peer_request ::
    "'d world \<Rightarrow> ('h, 'd :: linorder, 'g, 'id, 'hd, 't) store \<Rightarrow> 'd \<Rightarrow> range list \<Rightarrow> chan
     \<Rightarrow> ('h, 'd, 'g, 'id, 'hd, 't) store res" where
  "handle_block_peer_request W st peer block_ids c =
     bindR (handle_block_peer_request_helper (state_machine st) block_ids) (\<lambda>blocks.
     case blocks of
       Some bs \<Rightarrow> emit W c (ReplyBlocks c (Some bs)) st
     | None \<Rightarrow>
         bindR (emit W c (ReplyBlocks c None) st) (\<lambda>st.
         Ret (st\<lparr>block_subscribers := bt_insert peer (block_ids, c) (block_subscribers st)\<rparr>)))"

definition handle_ecg_subscribe ::
    "'d world \<Rightarrow> ('h, 'd :: linorder, 'g, 'id, 'hd, 't) store \<Rightarrow> 'd \<Rightarrow> 'id set option \<Rightarrow> chan
     \<Rightarrow> ('h, 'd, 'g, 'id, 'hd, 't) store res" where
  "handle_ecg_subscribe W st peer their_tips c =
     (let respond_immediately =
        (case state_machine st of
           SyncingStore _ _ _ ecg _ \<Rightarrow>
             (case their_tips of
                Some ts \<Rightarrow> if tips ecg \<noteq> ts then Some ecg else None
              | None \<Rightarrow> Some ecg)
         | _ \<Rightarrow> None)
      in case respond_immediately of
           Some ecg \<Rightarrow> emit W c (EcgState c ecg) st
         | None \<Rightarrow> Ret (st\<lparr>ecg_subscribers := bt_insert peer c (ecg_subscribers st)\<rparr>))"

section \<open>Telling listeners and subscribers\<close>

definition tell_listener ::
    "'d world \<Rightarrow> 't \<Rightarrow> ('g, 'id, 'hd) ecg \<Rightarrow> ('h, 'd, 'g, 'id, 'hd, 't) store \<Rightarrow> chan
     \<Rightarrow> ('h, 'd, 'g, 'id, 'hd, 't) store res" where
  "tell_listener W latest ecg st l = emit W l (Update l (Snapshot latest ecg)) st"

definition tell_ecg_subscriber ::
    "'d world \<Rightarrow> ('g, 'id, 'hd) ecg \<Rightarrow> 'd option \<Rightarrow> ('h, 'd :: linorder, 'g, 'id, 'hd, 't) store \<Rightarrow> 'd \<times> chan
     \<Rightarrow> ('h, 'd, 'g, 'id, 'hd, 't) store res" where
  "tell_ecg_subscriber W ecg from_peer st p =
     (if Some (fst p) \<noteq> from_peer then emit W (snd p) (EcgState (snd p) ecg) st
      else Ret (st\<lparr>ecg_subscribers := bt_insert (fst p) (snd p) (ecg_subscribers st)\<rparr>))"

definition update_listeners ::
    "'d world \<Rightarrow> ('h, 'd :: linorder, 'g, 'id, 'hd, 't) store \<Rightarrow> 't \<Rightarrow> ('g, 'id, 'hd) ecg \<Rightarrow> 'd option
     \<Rightarrow> ('h, 'd, 'g, 'id, 'hd, 't) store res" where
  "update_listeners W st latest ecg from_peer =
     bindR (foldR (tell_listener W latest ecg) st (listeners st)) (\<lambda>st.
     foldR (tell_ecg_subscriber W ecg from_peer) (st\<lparr>ecg_subscribers := []\<rparr>) (ecg_subscribers st))"

section \<open>Transitions of the state machine\<close>

text \<open>\<open>sub.send(Some(blocks))\<close> for the peers that waited for blocks\<close>

definition wake_block_subscriber ::
    "'d world \<Rightarrow> ('h, 'd :: linorder, 'g, 'id, 'hd, 't) store \<Rightarrow> 'd \<times> range list \<times> chan
     \<Rightarrow> ('h, 'd, 'g, 'id, 'hd, 't) store res" where
  "wake_block_subscriber W st p =
     (case p of (_, block_ids, c) \<Rightarrow>
        bindR (handle_block_peer_request_helper (state_machine st) block_ids) (\<lambda>m.
        bindR (expect m) (\<lambda>bs. emit W c (WakeBlocks c (Some bs)) st)))"

definition update_state_to_syncing ::
    "('s, 'h, 'g, 'id, 'hd, 't, 'b, 'op) store_ops \<Rightarrow> 'd world \<Rightarrow> ('h, 'd :: linorder, 'g, 'id, 'hd, 't) store \<Rightarrow> 'd
     \<Rightarrow> ('h, 'd, 'g, 'id, 'hd, 't) store res" where
  "update_state_to_syncing E W st peer =
     (case state_machine st of
        DownloadingInitialState md t initial_state \<Rightarrow>
          (let ecg = ecg_new (so_dag E); bs = concat (map (case_option [] (\<lambda>b. b)) initial_state) in
           case so_from_slice E bs of
             None \<Rightarrow> Panic TodoHit
           | Some latest \<Rightarrow>
               let st = st\<lparr>state_machine :=
                 SyncingStore md t bs ecg \<lparr>latest_state = latest, latest_headers = {}\<rparr>\<rparr> in
               bindR (update_listeners W st latest ecg (Some peer)) (\<lambda>st.
               foldR (wake_block_subscriber W) (st\<lparr>block_subscribers := []\<rparr>) (block_subscribers st)))
      | _ \<Rightarrow> Panic Unreachable)"

definition wake_merkle_subscriber ::
    "'d world \<Rightarrow> 'd \<Rightarrow> 'h merkle_tree \<Rightarrow> ('h, 'd :: linorder, 'g, 'id, 'hd, 't) store \<Rightarrow> 'd \<times> range list \<times> chan
     \<Rightarrow> ('h, 'd, 'g, 'id, 'hd, 't) store res" where
  "wake_merkle_subscriber W peer t st p =
     (case p of (sub_peer, node_ids, c) \<Rightarrow>
        bindR (if sub_peer = peer then Ret None
               else bindR (handle_merkle_peer_request_helper t node_ids) (\<lambda>hs. Ret (Some hs))) (\<lambda>msg.
        emit W c (WakeMerkle c msg) st))"

definition update_state_to_downloading_initial_state ::
    "('s, 'h, 'g, 'id, 'hd, 't, 'b, 'op) store_ops \<Rightarrow> 'd world \<Rightarrow> ('h, 'd :: linorder, 'g, 'id, 'hd, 't) store \<Rightarrow> 'd
     \<Rightarrow> ('h, 'd, 'g, 'id, 'hd, 't) store res" where
  "update_state_to_downloading_initial_state E W st peer =
     (case state_machine st of
        DownloadingMerkle md partial_tree \<Rightarrow>
          (case try_complete partial_tree of
             None \<Rightarrow> Ret st
           | Some t \<Rightarrow>
               let st = st\<lparr>state_machine := DownloadingInitialState md t (replicate (block_count md) None)\<rparr> in
               bindR (foldR (wake_merkle_subscriber W peer t) (st\<lparr>merkle_subscribers := []\<rparr>)
                        (merkle_subscribers st)) (\<lambda>st.
               if md_initial_state_size md = 0 then update_state_to_syncing E W st peer else Ret st))
      | _ \<Rightarrow> Panic ExplicitPanic)"

definition wake_metadata_subscriber ::
    "'d world \<Rightarrow> 'd \<Rightarrow> 'h metadata_header \<Rightarrow> ('h, 'd :: linorder, 'g, 'id, 'hd, 't) store \<Rightarrow> 'd \<times> chan
     \<Rightarrow> ('h, 'd, 'g, 'id, 'hd, 't) store res" where
  "wake_metadata_subscriber W peer md st p =
     emit W (snd p) (WakeMetadata (snd p) (if fst p = peer then None else Some md)) st"

definition handle_received_metadata ::
    "('s, 'h, 'g, 'id, 'hd, 't, 'b, 'op) store_ops \<Rightarrow> 'd world \<Rightarrow> ('h, 'd :: linorder, 'g, 'id, 'hd, 't) store \<Rightarrow> 'd
     \<Rightarrow> 'h metadata_header \<Rightarrow> ('h, 'd, 'g, 'id, 'hd, 't) store res" where
  "handle_received_metadata E W st peer md =
     bindR (update_outgoing_peer_to_ready st peer) (\<lambda>st.
     if \<not> validate_store_id (so_hash E) md (store_id_of E st) then Ret st
     else
       bindR (new_with_capacity (md_merkle_root md) (block_count md)) (\<lambda>t.
       let st = st\<lparr>state_machine := DownloadingMerkle md t\<rparr> in
       bindR (foldR (wake_metadata_subscriber W peer md) (st\<lparr>metadata_subscribers := []\<rparr>)
                (metadata_subscribers st)) (\<lambda>st.
       if block_count md \<le> 1 then update_state_to_downloading_initial_state E W st peer else Ret st)))"

definition handle_received_merkle_hashes ::
    "('s, 'h, 'g, 'id, 'hd, 't, 'b, 'op) store_ops \<Rightarrow> 'd world \<Rightarrow> ('h, 'd :: linorder, 'g, 'id, 'hd, 't) store \<Rightarrow> 'd
     \<Rightarrow> range list \<Rightarrow> 'h list \<Rightarrow> ('h, 'd, 'g, 'id, 'hd, 't) store res option" where
  "handle_received_merkle_hashes E W st peer node_ids their_node_hashes =
     bindL (Some (update_outgoing_peer_to_ready st peer)) (\<lambda>st.
     let node_ids = expand_ranges node_ids in
     if length node_ids \<noteq> length their_node_hashes then Some (Ret st)
     else case state_machine st of
       DownloadingMerkle md partial_tree \<Rightarrow>
         bindL (set_hashes (so_hash E) partial_tree (zip node_ids their_node_hashes)) (\<lambda>t.
         Some (update_state_to_downloading_initial_state E W
                 (st\<lparr>state_machine := DownloadingMerkle md t\<rparr>) peer))
     | _ \<Rightarrow> Some (Ret st))"

text \<open>The body of the loop over the received blocks.\<close>

definition set_block ::
    "('s, 'h) hash_ops \<Rightarrow> 'h merkle_tree \<Rightarrow> bytes option list \<Rightarrow> nat \<times> bytes option \<Rightarrow> bytes option list res" where
  "set_block K t initial_state p =
     (case p of
        (i, None) \<Rightarrow> Ret initial_state
      | (i, Some their_block) \<Rightarrow>
          bindR (index initial_state i) (\<lambda>block.
          if block = None then
            bindR (validate_chunk K t i their_block) (\<lambda>ok.
            Ret (if ok then initial_state[i := Some their_block] else initial_state))
          else Ret initial_state))"

definition handle_received_initial_state_blocks ::
    "('s, 'h, 'g, 'id, 'hd, 't, 'b, 'op) store_ops \<Rightarrow> 'd world \<Rightarrow> ('h, 'd :: linorder, 'g, 'id, 'hd, 't) store \<Rightarrow> 'd
     \<Rightarrow> range list \<Rightarrow> bytes option list \<Rightarrow> ('h, 'd, 'g, 'id, 'hd, 't) store res" where
  "handle_received_initial_state_blocks E W st peer block_ids their_blocks =
     bindR (update_outgoing_peer_to_ready st peer) (\<lambda>st.
     let block_ids = expand_ranges block_ids in
     if length block_ids \<noteq> length their_blocks then Ret st
     else case state_machine st of
       DownloadingInitialState md t initial_state \<Rightarrow>
         bindR (foldR (set_block (so_hash E) t) initial_state (zip block_ids their_blocks)) (\<lambda>bs.
         let st = st\<lparr>state_machine := DownloadingInitialState md t bs\<rparr> in
         if list_ex (\<lambda>b. b = None) bs then Ret st else update_state_to_syncing E W st peer)
     | _ \<Rightarrow> Ret st)"

section \<open>Operations\<close>

definition apply_operations ::
    "('s, 'h, 'g, 'id, 'hd, 't, 'b, 'op) store_ops \<Rightarrow> ('id, 't) decrypted_state \<Rightarrow> ('g, 'id, 'hd) ecg \<Rightarrow> 'hd \<Rightarrow> 'b
     \<Rightarrow> ('id, 't) decrypted_state" where
  "apply_operations E ds ecg operation_header operation_body =
     foldl (\<lambda>ds op. ds\<lparr>latest_state := so_apply E (latest_state ds) ecg op\<rparr>) ds
       (so_body_operations E operation_body (get_header_id (so_header E) operation_header))"

text \<open>The body of the loop over the received operations.\<close>

definition receive_operation ::
    "('s, 'h, 'g, 'id, 'hd, 't, 'b, 'op) store_ops \<Rightarrow> ('g, 'id, 'hd) ecg \<times> ('id, 't) decrypted_state
     \<Rightarrow> 'hd \<times> bytes \<Rightarrow> (('g, 'id, 'hd) ecg \<times> ('id, 't) decrypted_state) res" where
  "receive_operation E s p =
     bindR (expect (so_body_from_slice E (snd p))) (\<lambda>operations.
     bindR (insert_header (so_dag E) (so_header E) (fst s) (fst p) (snd p)) (\<lambda>(success, ecg).
     Ret (ecg, if success then apply_operations E (snd s) ecg (fst p) operations else snd s)))"

definition handle_received_ecg_operations ::
    "('s, 'h, 'g, 'id, 'hd, 't, 'b, 'op) store_ops \<Rightarrow> 'd world \<Rightarrow> ('h, 'd :: linorder, 'g, 'id, 'hd, 't) store \<Rightarrow> 'd
     \<Rightarrow> ('hd \<times> bytes) list \<Rightarrow> ('h, 'd, 'g, 'id, 'hd, 't) store res" where
  "handle_received_ecg_operations E W st peer ops =
     bindR (update_outgoing_peer_to_ready st peer) (\<lambda>st.
     case state_machine st of
       SyncingStore md t initial_state ecg ds \<Rightarrow>
         bindR (foldR (receive_operation E) (ecg, ds) ops) (\<lambda>(ecg, ds).
         update_listeners W (st\<lparr>state_machine := SyncingStore md t initial_state ecg ds\<rparr>)
           (latest_state ds) ecg (Some peer))
     | _ \<Rightarrow> Panic Unreachable)"

section \<open>The loop of the task\<close>

text \<open>\<open>manage_peers\<close>: ask the managers of the known peers for a stream to sync this store on.\<close>

definition contact_peer ::
    "('s, 'h, 'g, 'id, 'hd, 't, 'b, 'op) store_ops \<Rightarrow> 'd world \<Rightarrow> ('h, 'd :: linorder, 'g, 'id, 'hd, 't) store
     \<Rightarrow> 'd \<times> chan \<Rightarrow> ('h, 'd, 'g, 'id, 'hd, 't) store res" where
  "contact_peer E W st p =
     bindR (update_peer_to_initializing_outgoing st (fst p)) (\<lambda>st.
     emit W (snd p) (RequestStoreSync (snd p) (store_id_of E st) (fst p)) st)"

definition manage_peers ::
    "('s, 'h, 'g, 'id, 'hd, 't, 'b, 'op) store_ops \<Rightarrow> 'd world \<Rightarrow> ('h, 'd :: linorder, 'g, 'id, 'hd, 't) store
     \<Rightarrow> ('h, 'd, 'g, 'id, 'hd, 't) store res" where
  "manage_peers E W st =
     (let known = map fst (filter (\<lambda>p. is_known (outgoing_status (snd p))) (peers st));
          ps = List.map_filter (\<lambda>d. map_option (\<lambda>c. (d, c)) (peer_state W d)) known
      in foldR (contact_peer E W) st ps)"

datatype ('hd, 'b) store_command =
    Apply 'hd 'b
  | SubscribeState chan

datatype ('h, 'd, 'id, 'hd) untyped_store_command =
    RegisterPeers "'d list"
  | SyncWithPeer 'd chan
  | RegisterOutgoingPeerSyncing 'd chan
  | HandleMetadataPeerRequest 'd chan
  | HandleMerklePeerRequest 'd "range list" chan
  | HandleBlockPeerRequest 'd "range list" chan
  | RegisterIncomingPeerSyncing 'd
  | ReceivedMetadata 'd "'h metadata_header"
  | ReceivedMerkleHashes 'd "range list" "'h list"
  | ReceivedInitialStateBlocks 'd "range list" "bytes option list"
  | ReceivedECGOperations 'd "('hd \<times> bytes) list"
  | SubscribeECG 'd "'id set option" chan

definition percent_downloaded :: "'h metadata_header \<Rightarrow> bytes option list \<Rightarrow> nat res" where
  "percent_downloaded md initial_state =
     (if md_initial_state_size md = 0 then Ret 0
      else
        let downloaded = length (filter (\<lambda>p. p \<noteq> None) initial_state) in
        bindR (mul_u64 100 downloaded) (\<lambda>n.
        bindR (mul_u64 n block_size) (\<lambda>n.
        Ret (n div unat (md_initial_state_size md)))))"

definition current_update :: "('h, 'g, 'id, 'hd, 't) state_machine \<Rightarrow> ('g, 'id, 'hd, 't) state_update res" where
  "current_update sm =
     (case sm of
        DownloadingMetadata _ \<Rightarrow> Ret (Downloading 0)
      | DownloadingMerkle _ _ \<Rightarrow> Ret (Downloading 0)
      | DownloadingInitialState md _ initial_state \<Rightarrow>
          bindR (percent_downloaded md initial_state) (\<lambda>percent. Ret (Downloading percent))
      | SyncingStore _ _ _ ecg ds \<Rightarrow> Ret (Snapshot (latest_state ds) ecg))"

definition handle_store_command ::
    "('s, 'h, 'g, 'id, 'hd, 't, 'b, 'op) store_ops \<Rightarrow> 'd world \<Rightarrow> ('h, 'd :: linorder, 'g, 'id, 'hd, 't) store
     \<Rightarrow> ('hd, 'b) store_command \<Rightarrow> ('h, 'd, 'g, 'id, 'hd, 't) store res" where
  "handle_store_command E W st cmd =
     (case cmd of
        Apply operation_header operation_body \<Rightarrow>
          (case state_machine st of
             SyncingStore md t initial_state ecg ds \<Rightarrow>
               bindR (insert_header (so_dag E) (so_header E) ecg operation_header
                        (so_body_to_vec E operation_body)) (\<lambda>(success, ecg).
               if \<not> success then Panic TodoHit
               else
                 let ds = apply_operations E ds ecg operation_header operation_body in
                 bindR (update_listeners W st (latest_state ds) ecg None) (\<lambda>st.
                 Ret (st\<lparr>state_machine := SyncingStore md t initial_state ecg ds\<rparr>)))
           | _ \<Rightarrow> Ret st)
      | SubscribeState l \<Rightarrow>
          bindR (current_update (state_machine st)) (\<lambda>u.
          bindR (emit W l (Update l u) st) (\<lambda>st.
          Ret (st\<lparr>listeners := listeners st @ [l]\<rparr>))))"

text \<open>
  \<open>SyncWithPeer\<close>: the answer is whether the store starts a task for the peer.
\<close>

definition sync_with_peer ::
    "'d world \<Rightarrow> ('h, 'd :: linorder, 'g, 'id, 'hd, 't) store \<Rightarrow> 'd \<Rightarrow> chan
     \<Rightarrow> ('h, 'd, 'g, 'id, 'hd, 't) store res" where
  "sync_with_peer W st peer c =
     (let st = insert_known_peer st peer in
      case map_of (peers st) peer of
        None \<Rightarrow> Panic Unreachable
      | Some status \<Rightarrow>
          if is_known (incoming_status status) then
            bindR (update_peer_to_initializing_incoming st peer) (\<lambda>st. emit W c (ReplySync c True) st)
          else emit W c (ReplySync c False) st)"

definition handle_untyped_command ::
    "('s, 'h, 'g, 'id, 'hd, 't, 'b, 'op) store_ops \<Rightarrow> 'd world \<Rightarrow> ('h, 'd :: linorder, 'g, 'id, 'hd, 't) store
     \<Rightarrow> ('h, 'd, 'id, 'hd) untyped_store_command \<Rightarrow> ('h, 'd, 'g, 'id, 'hd, 't) store res option" where
  "handle_untyped_command E W st cmd =
     (case cmd of
        RegisterPeers ps \<Rightarrow> Some (manage_peers E W (foldl insert_known_peer st ps))
      | SyncWithPeer peer c \<Rightarrow> Some (sync_with_peer W st peer c)
      | RegisterOutgoingPeerSyncing peer send_peer \<Rightarrow>
          Some (bindR (update_peer_to_syncing_outgoing st peer
                         \<lparr>sender_peer = send_peer, is_outstanding = False\<rparr>) (send_sync_requests W))
      | RegisterIncomingPeerSyncing peer \<Rightarrow> Some (update_peer_to_syncing_incoming st peer)
      | HandleMetadataPeerRequest peer c \<Rightarrow> Some (handle_metadata_peer_request W st peer c)
      | HandleMerklePeerRequest peer request c \<Rightarrow> Some (handle_merkle_peer_request W st peer request c)
      | HandleBlockPeerRequest peer request c \<Rightarrow> Some (handle_block_peer_request W st peer request c)
      | ReceivedMetadata peer md \<Rightarrow>
          Some (bindR (handle_received_metadata E W st peer md) (send_sync_requests W))
      | ReceivedMerkleHashes peer rs hs \<Rightarrow>
          bindL (handle_received_merkle_hashes E W st peer rs hs) (\<lambda>st. Some (send_sync_requests W st))
      | ReceivedInitialStateBlocks peer rs bs \<Rightarrow>
          Some (bindR (handle_received_initial_state_blocks E W st peer rs bs) (send_sync_requests W))
      | ReceivedECGOperations peer ops \<Rightarrow>
          Some (bindR (handle_received_ecg_operations E W st peer ops) (send_sync_requests W))
      | SubscribeECG peer ts c \<Rightarrow> Some (handle_ecg_subscribe W st peer ts c))"

text \<open>
  One turn of \<open>run_handler\<close>: a command from either queue. Any interleaving of the two queues
  is a list of commands.
\<close>

datatype ('h, 'd, 'id, 'hd, 'b) command =
    Typed "('hd, 'b) store_command"
  | Untyped "('h, 'd, 'id, 'hd) untyped_store_command"

definition run_command ::
    "('s, 'h, 'g, 'id, 'hd, 't, 'b, 'op) store_ops \<Rightarrow> ('h, 'd :: linorder, 'g, 'id, 'hd, 't) store
     \<Rightarrow> 'd world \<times> ('h, 'd, 'id, 'hd, 'b) command \<Rightarrow> ('h, 'd, 'g, 'id, 'hd, 't) store res option" where
  "run_command E st p =
     (case p of
        (W, Typed cmd) \<Rightarrow> Some (handle_store_command E W st cmd)
      | (W, Untyped cmd) \<Rightarrow> handle_untyped_command E W st cmd)"

definition run_handler ::
    "('s, 'h, 'g, 'id, 'hd, 't, 'b, 'op) store_ops \<Rightarrow> ('h, 'd :: linorder, 'g, 'id, 'hd, 't) store
     \<Rightarrow> ('d world \<times> ('h, 'd, 'id, 'hd, 'b) command) list \<Rightarrow> ('h, 'd, 'g, 'id, 'hd, 't) store res option" where
  "run_handler E st cmds = foldL (run_command E) st cmds"

end
