(* ===== verification/StoreInvariant.thy ===== *)
theory StoreInvariant
  imports StoreHandlers
begin

text \<open>
  What the task of \<open>ossa-core/src/store/mod.rs\<close> keeps true. \<open>sm_ok\<close> is the invariant of the
  state machine, the two \<open>Invariant:\<close> comments of the code among it; every command keeps it.
\<close>

section \<open>The invariant\<close>

definition tree_of :: "('s, 'h) hash_ops \<Rightarrow> 'h metadata_header \<Rightarrow> 'h merkle_tree \<Rightarrow> bool" where
  "tree_of K md t \<longleftrightarrow>
     branches_ok K (nodes t) \<and> nodes t ! 0 = md_merkle_root md \<and> length (nodes t) = 2 * block_count md - 1"

definition blocks_validated :: "('s, 'h) hash_ops \<Rightarrow> 'h merkle_tree \<Rightarrow> nat \<Rightarrow> bytes option list \<Rightarrow> bool" where
  "blocks_validated K t n bs \<longleftrightarrow>
     length bs = n \<and> (\<forall>i < n. \<forall>b. bs ! i = Some b \<longrightarrow> validate_chunk K t i b = Ret True)"

text \<open>The graph and the CRDT state after a log of received operations.\<close>

definition replay ::
    "('s, 'h, 'g, 'id, 'hd, 't, 'b, 'op) store_ops \<Rightarrow> 't \<Rightarrow> ('hd \<times> bytes) list
     \<Rightarrow> (('g, 'id, 'hd) ecg \<times> ('id, 't) decrypted_state) res" where
  "replay E x log = foldR (receive_operation E) (ecg_new (so_dag E), \<lparr>latest_state = x, latest_headers = {}\<rparr>) log"

text \<open>The nonce and the type id are \<open>[u8; 32]\<close>.\<close>

definition wf_metadata :: "'h metadata_header \<Rightarrow> bool" where
  "wf_metadata md \<longleftrightarrow> length (md_nonce md) = 32 \<and> length (md_store_type md) = 32"

definition merkle_ok :: "('s, 'h) hash_ops \<Rightarrow> 'h \<Rightarrow> 'h metadata_header \<Rightarrow> 'h potential merkle_tree \<Rightarrow> bool" where
  "merkle_ok K sid md t \<longleftrightarrow>
     wf_metadata md \<and> validate_store_id K md sid \<and> 0 < block_count md \<and>
     partial_ok K {} (md_merkle_root md) (nodes t) \<and> length (nodes t) = 2 * block_count md - 1"

definition initial_ok ::
    "('s, 'h) hash_ops \<Rightarrow> 'h \<Rightarrow> 'h metadata_header \<Rightarrow> 'h merkle_tree \<Rightarrow> bytes option list \<Rightarrow> bool" where
  "initial_ok K sid md t bs \<longleftrightarrow>
     wf_metadata md \<and> validate_store_id K md sid \<and> 0 < block_count md \<and> tree_of K md t \<and> blocks_validated K t (block_count md) bs"

definition syncing_ok ::
    "('s, 'h, 'g, 'id, 'hd, 't, 'b, 'op) store_ops \<Rightarrow> 'h \<Rightarrow> 'h metadata_header \<Rightarrow> 'h merkle_tree \<Rightarrow> bytes
     \<Rightarrow> ('g, 'id, 'hd) ecg \<Rightarrow> ('id, 't) decrypted_state \<Rightarrow> bool" where
  "syncing_ok E sid md t init ecg ds \<longleftrightarrow>
     (\<exists>bs. initial_ok (so_hash E) sid md t (map Some bs) \<and> init = concat bs) \<and>
     (\<exists>x log. so_from_slice E init = Some x \<and> replay E x log = Ret (ecg, ds))"

definition sm_ok ::
    "('s, 'h, 'g, 'id, 'hd, 't, 'b, 'op) store_ops \<Rightarrow> 'h \<Rightarrow> ('h, 'g, 'id, 'hd, 't) state_machine \<Rightarrow> bool" where
  "sm_ok E sid sm =
     (case sm of
        DownloadingMetadata s \<Rightarrow> s = sid
      | DownloadingMerkle md t \<Rightarrow> merkle_ok (so_hash E) sid md t \<and> missing_indices t \<noteq> []
      | DownloadingInitialState md t bs \<Rightarrow> initial_ok (so_hash E) sid md t bs \<and> None \<in> set bs
      | SyncingStore md t init ecg ds \<Rightarrow> syncing_ok E sid md t init ecg ds)"

definition store_ok ::
    "('s, 'h, 'g, 'id, 'hd, 't, 'b, 'op) store_ops \<Rightarrow> 'h \<Rightarrow> ('h, 'd :: linorder, 'g, 'id, 'hd, 't) store \<Rightarrow> bool" where
  "store_ok E sid st \<longleftrightarrow> sm_ok E sid (state_machine st) \<and> bt_ok (peers st)"

lemma store_ok_id: "sm_ok E sid (state_machine st) \<Longrightarrow> store_id_of E st = sid"
  by (auto simp: sm_ok_def store_id_of_def merkle_ok_def initial_ok_def syncing_ok_def validate_store_id_def
      split: state_machine.splits)

lemma block_count_fits: "2 * block_count md \<le> u64_max"
proof -
  have "unat (md_initial_state_size md) < 2 ^ 64" using unsigned_less [of "md_initial_state_size md"] by simp
  then show ?thesis by (simp add: block_count_def block_size_def u64_max_def)
qed

lemma block_count_0: "block_count md = 0 \<longleftrightarrow> md_initial_state_size md = 0"
proof -
  have "block_count md = 0 \<longleftrightarrow> unat (md_initial_state_size md) + block_size - 1 < block_size"
    by (simp add: block_count_def div_eq_0_iff block_size_def)
  also have "\<dots> \<longleftrightarrow> unat (md_initial_state_size md) = 0" by (auto simp: block_size_def)
  finally show ?thesis by (simp add: unat_eq_zero)
qed

section \<open>What sending leaves alone\<close>

text \<open>\<open>kept\<close>: peers, state machine and listeners are the same, the outbox has grown.\<close>

definition kept :: "('h, 'd, 'g, 'id, 'hd, 't) store \<Rightarrow> ('h, 'd, 'g, 'id, 'hd, 't) store \<Rightarrow> bool" where
  "kept st st' \<longleftrightarrow>
     peers st' = peers st \<and> state_machine st' = state_machine st \<and> listeners st' = listeners st \<and>
     (\<exists>es. outbox st' = outbox st @ es)"

named_theorems keeps "operations that only send"

lemma kept_refl [simp]: "kept st st"
  by (simp add: kept_def)

lemma kept_trans: "kept a b \<Longrightarrow> kept b c \<Longrightarrow> kept a c"
  by (auto simp: kept_def)

lemma emit_Ret [simp]:
  "emit W c e st = Ret st' \<longleftrightarrow> alive W c \<and> st' = st\<lparr>outbox := outbox st @ [e]\<rparr>"
  by (auto simp: emit_def)

lemma emit_kept [keeps]: "emit W c e st = Ret st' \<Longrightarrow> kept st st'"
  by (simp add: kept_def)

lemma kept_subscribers [simp]:
  "kept st (st\<lparr>metadata_subscribers := a\<rparr>)" "kept st (st\<lparr>merkle_subscribers := b\<rparr>)"
  "kept st (st\<lparr>block_subscribers := c\<rparr>)" "kept st (st\<lparr>ecg_subscribers := d\<rparr>)"
  by (simp_all add: kept_def)

text \<open>\<open>updates l es\<close>: what was sent to the listener \<open>l\<close>. \<open>silent\<close>: sending that tells no listener.\<close>

definition updates :: "chan \<Rightarrow> ('h, 'd, 'g, 'id, 'hd, 't) effect list \<Rightarrow> ('g, 'id, 'hd, 't) state_update list" where
  "updates l es = List.map_filter (\<lambda>e. case e of Update c u \<Rightarrow> if c = l then Some u else None | _ \<Rightarrow> None) es"

lemma updates_simps [simp]:
  "updates l [] = []" "updates l (es @ fs) = updates l es @ updates l fs"
  "updates l (e # es) = (case e of Update c u \<Rightarrow> if c = l then [u] else [] | _ \<Rightarrow> []) @ updates l es"
  by (simp_all add: updates_def List.map_filter_def split: effect.split)

definition silent :: "('h, 'd, 'g, 'id, 'hd, 't) store \<Rightarrow> ('h, 'd, 'g, 'id, 'hd, 't) store \<Rightarrow> bool" where
  "silent st st' \<longleftrightarrow> kept st st' \<and> (\<forall>l. updates l (outbox st') = updates l (outbox st))"

lemma silent_kept: "silent st st' \<Longrightarrow> kept st st'"
  by (simp add: silent_def)

lemma silent_refl [simp]: "silent st st"
  by (simp add: silent_def)

lemma silent_trans: "silent a b \<Longrightarrow> silent b c \<Longrightarrow> silent a c"
  unfolding silent_def using kept_trans by metis

lemma silent_subscribers [simp]:
  "silent st (st\<lparr>metadata_subscribers := a\<rparr>)" "silent st (st\<lparr>merkle_subscribers := b\<rparr>)"
  "silent st (st\<lparr>block_subscribers := c\<rparr>)" "silent st (st\<lparr>ecg_subscribers := d\<rparr>)"
  by (simp_all add: silent_def)

lemma foldR_silent:
  assumes "foldR f s xs = Ret s'" and "\<And>s x s'. f s x = Ret s' \<Longrightarrow> silent s s'"
  shows "silent s s'"
proof (rule foldR_returned [OF assms(1), of "silent s"])
  show "silent s b" if "silent s a" "f a x = Ret b" for a x b
    using silent_trans [OF that(1) assms(2) [OF that(2)]] .
qed simp

lemma foldR_kept:
  assumes "foldR f s xs = Ret s'" and "\<And>s x s'. f s x = Ret s' \<Longrightarrow> kept s s'"
  shows "kept s s'"
proof (rule foldR_returned [OF assms(1), of "kept s"])
  show "kept s b" if "kept s a" "f a x = Ret b" for a x b
    using kept_trans [OF that(1) assms(2) [OF that(2)]] .
qed simp

lemma tell_kept [keeps]:
  "tell_listener W latest ecg st l = Ret st' \<Longrightarrow> kept st st'"
  "tell_ecg_subscriber W ecg from_peer st p = Ret st' \<Longrightarrow> kept st st'"
  by (auto simp: tell_listener_def tell_ecg_subscriber_def kept_def split: if_splits)

lemma tell_ecg_silent: "tell_ecg_subscriber W ecg from_peer st p = Ret st' \<Longrightarrow> silent st st'"
  by (auto simp: tell_ecg_subscriber_def silent_def kept_def split: if_splits)

lemma update_listeners_kept [keeps]:
  assumes "update_listeners W st latest ecg from_peer = Ret st'"
  shows "kept st st'"
proof -
  from assms obtain s where
    s: "foldR (tell_listener W latest ecg) st (listeners st) = Ret s"
      "foldR (tell_ecg_subscriber W ecg from_peer) (s\<lparr>ecg_subscribers := []\<rparr>) (ecg_subscribers s) = Ret st'"
    by (auto simp: update_listeners_def)
  have a: "kept st s" by (rule foldR_kept [OF s(1)]) (rule tell_kept(1))
  have b: "kept (s\<lparr>ecg_subscribers := []\<rparr>) st'" by (rule foldR_kept [OF s(2)]) (rule tell_kept(2))
  show ?thesis by (rule kept_trans [OF kept_trans [OF a kept_subscribers(4)] b])
qed

lemma wake_silent:
  "wake_block_subscriber W st q = Ret st' \<Longrightarrow> silent st st'"
  "wake_merkle_subscriber W peer t st q = Ret st' \<Longrightarrow> silent st st'"
  "wake_metadata_subscriber W peer md st p = Ret st' \<Longrightarrow> silent st st'"
  by (auto simp: wake_block_subscriber_def wake_merkle_subscriber_def wake_metadata_subscriber_def silent_def kept_def
      split: prod.splits)

lemma serve_silent:
  "handle_metadata_peer_request W st peer c = Ret st' \<Longrightarrow> silent st st'"
  "handle_merkle_peer_request W st peer rs c = Ret st' \<Longrightarrow> silent st st'"
  "handle_block_peer_request W st peer rs c = Ret st' \<Longrightarrow> silent st st'"
  "handle_ecg_subscribe W st peer ts c = Ret st' \<Longrightarrow> silent st st'"
  by (auto simp: handle_metadata_peer_request_def handle_merkle_peer_request_def handle_block_peer_request_def
      handle_ecg_subscribe_def silent_def kept_def Let_def split: option.splits)

lemmas wake_kept [keeps] = wake_silent [THEN silent_kept]

lemmas serve_kept [keeps] = serve_silent [THEN silent_kept]

section \<open>Transitions\<close>

lemma all_Some: "None \<notin> set bs \<Longrightarrow> \<exists>cs. bs = map Some cs"
  by (metis ex_map_conv not_None_eq)

lemma update_state_to_syncing_ok:
  assumes "update_state_to_syncing E W st peer = Ret st'"
    and "state_machine st = DownloadingInitialState md t bs" and "initial_ok (so_hash E) sid md t bs" "None \<notin> set bs"
  shows "sm_ok E sid (state_machine st') \<and> peers st' = peers st \<and> (\<exists>init ecg ds. state_machine st' = SyncingStore md t init ecg ds)"
proof -
  from all_Some [OF assms(4)] obtain cs where cs: "bs = map Some cs" by blast
  have "map (case_option [] (\<lambda>b. b)) bs = cs" by (simp add: cs comp_def)
  with assms(1,2) obtain x s1 where
    x: "so_from_slice E (concat cs) = Some x"
    and s1: "update_listeners W (st\<lparr>state_machine := SyncingStore md t (concat cs) (ecg_new (so_dag E))
        \<lparr>latest_state = x, latest_headers = {}\<rparr>\<rparr>) x (ecg_new (so_dag E)) (Some peer) = Ret s1"
    and st': "foldR (wake_block_subscriber W) (s1\<lparr>block_subscribers := []\<rparr>) (block_subscribers s1) = Ret st'"
    by (auto simp: update_state_to_syncing_def Let_def split: option.splits)
  let ?sm = "SyncingStore md t (concat cs) (ecg_new (so_dag E)) \<lparr>latest_state = x, latest_headers = {}\<rparr>"
  have b: "kept (s1\<lparr>block_subscribers := []\<rparr>) st'" by (rule foldR_kept [OF st']) (rule wake_kept(1))
  have "kept (st\<lparr>state_machine := ?sm\<rparr>) st'"
    by (rule kept_trans [OF kept_trans [OF update_listeners_kept [OF s1] kept_subscribers(3)] b])
  then have "state_machine st' = ?sm" "peers st' = peers st" by (simp_all add: kept_def)
  moreover have "sm_ok E sid ?sm"
    unfolding sm_ok_def syncing_ok_def state_machine.case
    by (intro conjI exI [of _ cs] exI [of _ x] exI [of _ "[]"]) (use assms(3) cs x in \<open>simp_all add: replay_def\<close>)
  ultimately show ?thesis by simp
qed

lemma update_state_to_downloading_initial_state_ok:
  assumes "update_state_to_downloading_initial_state E W st peer = Ret st'"
    and "state_machine st = DownloadingMerkle md p" and ok: "merkle_ok (so_hash E) sid md p"
  shows "sm_ok E sid (state_machine st') \<and> peers st' = peers st"
proof (cases "try_complete p")
  case None
  with try_complete_iff [of "so_hash E" "md_merkle_root md" p] ok have "missing_indices p \<noteq> []"
    by (auto simp: merkle_ok_def)
  with None assms show ?thesis
    by (auto simp: update_state_to_downloading_initial_state_def sm_ok_def)
next
  case (Some t)
  let ?sm = "DownloadingInitialState md t (replicate (block_count md) None)"
  have pos: "0 < block_count md" and val: "wf_metadata md" "validate_store_id (so_hash E) md sid"
    and p: "partial_ok (so_hash E) {} (md_merkle_root md) (nodes p)" "length (nodes p) = 2 * block_count md - 1"
    using ok by (auto simp: merkle_ok_def)
  from pos block_count_0 [of md] have "md_initial_state_size md \<noteq> 0" by auto
  with Some assms(1,2) have
    "foldR (wake_merkle_subscriber W peer t) (st\<lparr>state_machine := ?sm, merkle_subscribers := []\<rparr>)
       (merkle_subscribers st) = Ret st'"
    by (simp add: update_state_to_downloading_initial_state_def Let_def)
  from foldR_kept [OF this wake_kept(2)] have "state_machine st' = ?sm" "peers st' = peers st"
    by (simp_all add: kept_def)
  moreover have "sm_ok E sid ?sm"
    using try_complete_tree [OF p(1) Some] p(2) val pos
    by (simp add: sm_ok_def initial_ok_def tree_of_def blocks_validated_def)
  ultimately show ?thesis by simp
qed

section \<open>Received data\<close>

text \<open>\<open>peers_moved\<close>: only the status of peers has changed, and no listener was told anything.\<close>

definition peers_moved :: "('h, 'd :: linorder, 'g, 'id, 'hd, 't) store \<Rightarrow> ('h, 'd, 'g, 'id, 'hd, 't) store \<Rightarrow> bool" where
  "peers_moved st st' \<longleftrightarrow> state_machine st' = state_machine st \<and> listeners st' = listeners st \<and>
     (\<forall>l. updates l (outbox st') = updates l (outbox st)) \<and> (bt_ok (peers st) \<longrightarrow> bt_ok (peers st'))"

lemma silent_moved: "silent st st' \<Longrightarrow> peers_moved st st'"
  by (simp add: silent_def kept_def peers_moved_def)

lemma peers_moved_refl [simp]: "peers_moved st st"
  by (simp add: peers_moved_def)

lemma peers_moved_trans: "peers_moved a b \<Longrightarrow> peers_moved b c \<Longrightarrow> peers_moved a c"
  by (simp add: peers_moved_def)

lemma peers_moved_ok: "store_ok E sid st \<Longrightarrow> peers_moved st st' \<Longrightarrow> store_ok E sid st'"
  by (simp add: store_ok_def peers_moved_def)

lemma foldR_moved:
  assumes "foldR f s xs = Ret s'" and "\<And>s x s'. f s x = Ret s' \<Longrightarrow> peers_moved s s'"
  shows "peers_moved s s'"
proof (rule foldR_returned [OF assms(1), of "peers_moved s"])
  show "peers_moved s b" if "peers_moved s a" "f a x = Ret b" for a x b
    using peers_moved_trans [OF that(1) assms(2) [OF that(2)]] .
qed simp

lemma insert_known_moved: "peers_moved st (insert_known_peer st peer)"
  by (auto simp: peers_moved_def insert_known_peer_def bt_or_insert_def bt_ok_insert split: option.split)

lemma status_moved:
  "update_peer_to_initializing rd wr st peer = Ret st' \<Longrightarrow> peers_moved st st'"
  "update_peer_to_syncing rd wr st peer a = Ret st' \<Longrightarrow> peers_moved st st'"
  "update_outgoing_peer_to_ready st peer = Ret st' \<Longrightarrow> peers_moved st st'"
  "send_command W st p = Ret st' \<Longrightarrow> peers_moved st st'"
  by (auto simp: update_peer_to_initializing_def update_peer_to_syncing_def update_outgoing_peer_to_ready_def
      send_command_def peers_moved_def bt_ok_insert split: option.splits peer_status.splits if_splits)

lemma send_sync_requests_moved: "send_sync_requests W st = Ret st' \<Longrightarrow> peers_moved st st'"
  by (auto simp: send_sync_requests_def Let_def intro: foldR_moved status_moved(4))

lemma contact_peer_moved:
  assumes "contact_peer E W st p = Ret st'"
  shows "peers_moved st st'"
proof -
  from assms obtain s where "update_peer_to_initializing_outgoing st (fst p) = Ret s" "silent s st'"
    by (auto simp: contact_peer_def silent_def kept_def)
  then show ?thesis
    unfolding update_peer_to_initializing_outgoing_def
    by (rule peers_moved_trans [OF status_moved(1) silent_moved])
qed

lemma handle_received_metadata_ok:
  assumes st: "store_ok E sid st" and wf: "wf_metadata md" and r: "handle_received_metadata E W st peer md = Ret st'"
  shows "store_ok E sid st'"
proof -
  from r obtain s where s: "update_outgoing_peer_to_ready st peer = Ret s"
    by (auto simp: handle_received_metadata_def)
  then have s_ok: "store_ok E sid s" by (rule peers_moved_ok [OF st status_moved(3)])
  show ?thesis
  proof (cases "validate_store_id (so_hash E) md sid")
    case False
    have "store_id_of E s = sid" using s_ok by (simp add: store_ok_def store_ok_id)
    with r s False have "st' = s" by (simp add: handle_received_metadata_def)
    with s_ok show ?thesis by simp
  next
    case True
    from s_ok have sid: "store_id_of E s = sid" and bt: "bt_ok (peers s)"
      by (auto simp: store_ok_def store_ok_id)
    from r s True sid obtain t u where t: "new_with_capacity (md_merkle_root md) (block_count md) = Ret t"
      and u: "foldR (wake_metadata_subscriber W peer md)
        (s\<lparr>state_machine := DownloadingMerkle md t, metadata_subscribers := []\<rparr>) (metadata_subscribers s) = Ret u"
      and st': "(if block_count md \<le> 1 then update_state_to_downloading_initial_state E W u peer else Ret u) = Ret st'"
      by (auto simp: handle_received_metadata_def Let_def)
    have pos: "0 < block_count md"
      using t by (cases "block_count md")
        (auto simp: new_with_capacity_def node_count_for_leaf_count_def mul_u64_def sub_u64_def)
    from partial_new [OF pos block_count_fits, of "md_merkle_root md" "so_hash E"] t True pos wf
    have m: "merkle_ok (so_hash E) sid md t" by (auto simp: merkle_ok_def)
    have "kept (s\<lparr>state_machine := DownloadingMerkle md t, metadata_subscribers := []\<rparr>) u"
      by (rule foldR_kept [OF u]) (rule wake_kept(3))
    then have u_sm: "state_machine u = DownloadingMerkle md t" "peers u = peers s" by (simp_all add: kept_def)
    show ?thesis
    proof (cases "block_count md \<le> 1")
      case True
      with st' have "update_state_to_downloading_initial_state E W u peer = Ret st'" by simp
      from update_state_to_downloading_initial_state_ok [OF this u_sm(1) m] u_sm(2) bt show ?thesis
        by (simp add: store_ok_def)
    next
      case False
      have "nodes t ! 1 = PNone" "1 < length (nodes t)"
        using t False block_count_fits [of md]
        by (auto simp: new_with_capacity_def node_count_for_leaf_count_def mul_u64_def sub_u64_def store_at_def)
      then have "1 \<in> set (missing_indices t)" by (simp add: missing_indices_def)
      then have "missing_indices t \<noteq> []" by auto
      with False st' u_sm m bt show ?thesis by (simp add: store_ok_def sm_ok_def)
    qed
  qed
qed

lemma handle_received_merkle_hashes_ok:
  assumes st: "store_ok E sid st" and r: "handle_received_merkle_hashes E W st peer rs hs = Some (Ret st')"
  shows "store_ok E sid st'"
proof -
  from r obtain s where s: "update_outgoing_peer_to_ready st peer = Ret s"
    by (auto simp: handle_received_merkle_hashes_def)
  then have s_ok: "store_ok E sid s" by (rule peers_moved_ok [OF st status_moved(3)])
  show ?thesis
  proof (cases "length (expand_ranges rs) = length hs \<and> (\<exists>md p. state_machine s = DownloadingMerkle md p)")
    case False
    then have "st' = s" using r s
      by (auto simp: handle_received_merkle_hashes_def Let_def split: if_splits state_machine.splits)
    with s_ok show ?thesis by simp
  next
    case True
    then obtain md p where sm: "state_machine s = DownloadingMerkle md p" by blast
    with s_ok have p: "merkle_ok (so_hash E) sid md p" by (simp add: store_ok_def sm_ok_def)
    from r s True sm obtain t where t: "set_hashes (so_hash E) p (zip (expand_ranges rs) hs) = Some (Ret t)"
      and st': "update_state_to_downloading_initial_state E W (s\<lparr>state_machine := DownloadingMerkle md t\<rparr>) peer = Ret st'"
      by (auto simp: handle_received_merkle_hashes_def Let_def)
    have "merkle_ok (so_hash E) sid md t"
      using set_hashes_ok [of "so_hash E" "md_merkle_root md" p "zip (expand_ranges rs) hs"] t p
      by (auto simp: merkle_ok_def)
    from update_state_to_downloading_initial_state_ok [OF st' _ this] s_ok show ?thesis by (simp add: store_ok_def)
  qed
qed

lemma set_block_validated:
  assumes "set_block K t bs p = Ret bs'" and "blocks_validated K t n bs"
  shows "blocks_validated K t n bs'"
proof -
  obtain i m where p: "p = (i, m)" by force
  show ?thesis
  proof (cases m)
    case None
    with assms p show ?thesis by (simp add: set_block_def)
  next
    case (Some b)
    with assms p have "bs' = bs \<or> (i < length bs \<and> validate_chunk K t i b = Ret True \<and> bs' = bs[i := Some b])"
      by (auto simp: set_block_def index_def split: if_splits)
    with assms(2) show ?thesis by (auto simp: blocks_validated_def nth_list_update split: if_splits)
  qed
qed

lemma handle_received_initial_state_blocks_ok:
  assumes st: "store_ok E sid st" and r: "handle_received_initial_state_blocks E W st peer rs bs = Ret st'"
  shows "store_ok E sid st'"
proof -
  from r obtain s where s: "update_outgoing_peer_to_ready st peer = Ret s"
    by (auto simp: handle_received_initial_state_blocks_def)
  then have s_ok: "store_ok E sid s" by (rule peers_moved_ok [OF st status_moved(3)])
  show ?thesis
  proof (cases "length (expand_ranges rs) = length bs \<and> (\<exists>md t cs. state_machine s = DownloadingInitialState md t cs)")
    case False
    then have "st' = s" using r s
      by (auto simp: handle_received_initial_state_blocks_def Let_def split: if_splits state_machine.splits)
    with s_ok show ?thesis by simp
  next
    case True
    then obtain md t cs where sm: "state_machine s = DownloadingInitialState md t cs" by blast
    with s_ok have p: "initial_ok (so_hash E) sid md t cs" and bt: "bt_ok (peers s)"
      by (auto simp: store_ok_def sm_ok_def)
    from r s True sm obtain ds where ds: "foldR (set_block (so_hash E) t) cs (zip (expand_ranges rs) bs) = Ret ds"
      and st': "(if list_ex (\<lambda>b. b = None) ds then Ret (s\<lparr>state_machine := DownloadingInitialState md t ds\<rparr>)
        else update_state_to_syncing E W (s\<lparr>state_machine := DownloadingInitialState md t ds\<rparr>) peer) = Ret st'"
      by (auto simp: handle_received_initial_state_blocks_def Let_def)
    have "blocks_validated (so_hash E) t (block_count md) ds"
      by (rule foldR_returned [OF ds]) (use p set_block_validated in \<open>auto simp: initial_ok_def\<close>)
    with p have v: "initial_ok (so_hash E) sid md t ds" by (simp add: initial_ok_def)
    show ?thesis
    proof (cases "None \<in> set ds")
      case True
      then have "list_ex (\<lambda>b. b = None) ds" by (auto simp: list_ex_iff)
      with st' True v bt show ?thesis by (auto simp: store_ok_def sm_ok_def)
    next
      case False
      then have "\<not> list_ex (\<lambda>b. b = None) ds" by (auto simp: list_ex_iff)
      with st' have "update_state_to_syncing E W (s\<lparr>state_machine := DownloadingInitialState md t ds\<rparr>) peer = Ret st'"
        by simp
      from update_state_to_syncing_ok [OF this _ v False] bt show ?thesis by (simp add: store_ok_def)
    qed
  qed
qed

section \<open>Operations\<close>

lemma replay_append:
  "replay E x log = Ret (ecg, ds) \<Longrightarrow> replay E x (log @ ops) = foldR (receive_operation E) (ecg, ds) ops"
  by (simp add: replay_def foldR_append)

lemma syncing_ok_replay:
  assumes "syncing_ok E sid md t init ecg ds" and "foldR (receive_operation E) (ecg, ds) ops = Ret (ecg', ds')"
  shows "syncing_ok E sid md t init ecg' ds'"
proof -
  from assms(1) obtain x log where "so_from_slice E init = Some x" "replay E x log = Ret (ecg, ds)"
    by (auto simp: syncing_ok_def)
  with replay_append [OF this(2), of ops] assms(2)
  have "\<exists>x log. so_from_slice E init = Some x \<and> replay E x log = Ret (ecg', ds')" by auto
  with assms(1) show ?thesis by (simp add: syncing_ok_def)
qed

lemma handle_received_ecg_operations_ok:
  assumes st: "store_ok E sid st" and r: "handle_received_ecg_operations E W st peer ops = Ret st'"
  shows "store_ok E sid st'"
proof -
  from r obtain s where s: "update_outgoing_peer_to_ready st peer = Ret s"
    by (auto simp: handle_received_ecg_operations_def)
  then have s_ok: "store_ok E sid s" by (rule peers_moved_ok [OF st status_moved(3)])
  from r s obtain md t init ecg ds where sm: "state_machine s = SyncingStore md t init ecg ds"
    by (auto simp: handle_received_ecg_operations_def split: state_machine.splits)
  from r s sm obtain ecg' ds' where
    f: "foldR (receive_operation E) (ecg, ds) ops = Ret (ecg', ds')"
    and u: "update_listeners W (s\<lparr>state_machine := SyncingStore md t init ecg' ds'\<rparr>) (latest_state ds') ecg' (Some peer) = Ret st'"
    by (auto simp: handle_received_ecg_operations_def)
  from s_ok sm have "syncing_ok E sid md t init ecg ds" by (simp add: store_ok_def sm_ok_def)
  from syncing_ok_replay [OF this f] update_listeners_kept [OF u] s_ok
  show ?thesis by (simp add: store_ok_def sm_ok_def kept_def)
qed

text \<open>
  Serialization of operation bodies: parsing what was serialized gives it back. With it, an
  operation applied here has the effect of the same operation received from a peer.
\<close>

definition body_roundtrip :: "('s, 'h, 'g, 'id, 'hd, 't, 'b, 'op) store_ops \<Rightarrow> bool" where
  "body_roundtrip E \<longleftrightarrow> (\<forall>b. so_body_from_slice E (so_body_to_vec E b) = Some b)"

lemma handle_store_command_ok:
  assumes st: "store_ok E sid st" and bodies: "body_roundtrip E" and r: "handle_store_command E W st cmd = Ret st'"
  shows "store_ok E sid st'"
proof (cases cmd)
  case (SubscribeState l)
  with r st show ?thesis by (auto simp: handle_store_command_def store_ok_def)
next
  case (Apply hdr b)
  show ?thesis
  proof (cases "\<exists>md t init ecg ds. state_machine st = SyncingStore md t init ecg ds")
    case False
    with r st Apply show ?thesis by (auto simp: handle_store_command_def split: state_machine.splits)
  next
    case True
    then obtain md t init ecg ds where sm: "state_machine st = SyncingStore md t init ecg ds" by blast
    let ?raw = "so_body_to_vec E b"
    from r Apply sm obtain ecg' s where
      ins: "insert_header (so_dag E) (so_header E) ecg hdr ?raw = Ret (True, ecg')"
      and u: "update_listeners W st (latest_state (apply_operations E ds ecg' hdr b)) ecg' None = Ret s"
      and st': "st' = s\<lparr>state_machine := SyncingStore md t init ecg' (apply_operations E ds ecg' hdr b)\<rparr>"
      by (auto simp: handle_store_command_def Let_def split: if_splits)
    have "foldR (receive_operation E) (ecg, ds) [(hdr, ?raw)] = Ret (ecg', apply_operations E ds ecg' hdr b)"
      using ins bodies by (simp add: receive_operation_def body_roundtrip_def)
    moreover have "syncing_ok E sid md t init ecg ds" using st sm by (simp add: store_ok_def sm_ok_def)
    ultimately have "syncing_ok E sid md t init ecg' (apply_operations E ds ecg' hdr b)" by (rule syncing_ok_replay [rotated])
    with st' update_listeners_kept [OF u] st show ?thesis by (simp add: store_ok_def sm_ok_def kept_def)
  qed
qed

section \<open>Runs\<close>

lemma foldl_moved: "(\<And>s x. peers_moved s (f s x)) \<Longrightarrow> peers_moved s (foldl f s xs)"
proof (induction xs arbitrary: s)
  case (Cons x xs)
  from Cons.prems Cons.IH [OF Cons.prems] show ?case by (simp add: peers_moved_trans [of s "f s x"])
qed simp

lemma manage_peers_moved: "manage_peers E W st = Ret st' \<Longrightarrow> peers_moved st st'"
  by (auto simp: manage_peers_def Let_def intro: foldR_moved contact_peer_moved)

lemma sync_with_peer_moved:
  assumes "sync_with_peer W st peer c = Ret st'"
  shows "peers_moved st st'"
proof -
  let ?s = "insert_known_peer st peer"
  from assms obtain info where info: "map_of (peers ?s) peer = Some info"
    by (auto simp: sync_with_peer_def Let_def split: option.splits)
  show ?thesis
  proof (cases "is_known (incoming_status info)")
    case True
    with assms info obtain s where s: "update_peer_to_initializing_incoming ?s peer = Ret s" "silent s st'"
      by (auto simp: sync_with_peer_def Let_def silent_def kept_def)
    from s(1) have "peers_moved ?s s" unfolding update_peer_to_initializing_incoming_def by (rule status_moved(1))
    from peers_moved_trans [OF peers_moved_trans [OF insert_known_moved this] silent_moved [OF s(2)]] show ?thesis .
  next
    case False
    with assms info have "silent ?s st'" by (auto simp: sync_with_peer_def Let_def silent_def kept_def)
    from peers_moved_trans [OF insert_known_moved silent_moved [OF this]] show ?thesis .
  qed
qed

fun wf_command :: "('h, 'd, 'id, 'hd, 'b) command \<Rightarrow> bool" where
  "wf_command (Untyped (ReceivedMetadata _ md)) = wf_metadata md"
| "wf_command _ = True"

lemma handle_untyped_command_ok:
  assumes st: "store_ok E sid st" and wf: "wf_command (Untyped cmd)" and r: "handle_untyped_command E W st cmd = Some (Ret st')"
  shows "store_ok E sid st'"
proof -
  have send: "store_ok E sid st'" if "store_ok E sid s" "send_sync_requests W s = Ret st'" for s
    using peers_moved_ok [OF that(1) send_sync_requests_moved [OF that(2)]] .
  show ?thesis
  proof (cases cmd)
    case (RegisterPeers ps)
    with r have "manage_peers E W (foldl insert_known_peer st ps) = Ret st'" by (simp add: handle_untyped_command_def)
    from peers_moved_trans [OF foldl_moved [OF insert_known_moved] manage_peers_moved [OF this]]
    show ?thesis by (rule peers_moved_ok [OF st])
  next
    case (SyncWithPeer peer c)
    with r have "sync_with_peer W st peer c = Ret st'" by (simp add: handle_untyped_command_def)
    from peers_moved_ok [OF st sync_with_peer_moved [OF this]] show ?thesis .
  next
    case (RegisterOutgoingPeerSyncing peer c)
    with r obtain s where "update_peer_to_syncing_outgoing st peer \<lparr>sender_peer = c, is_outstanding = False\<rparr> = Ret s"
      "send_sync_requests W s = Ret st'" by (auto simp: handle_untyped_command_def)
    from peers_moved_ok [OF st status_moved(2) [OF this(1) [unfolded update_peer_to_syncing_outgoing_def]]] this(2)
    show ?thesis by (rule send)
  next
    case (RegisterIncomingPeerSyncing peer)
    with r have "update_peer_to_syncing_incoming st peer = Ret st'" by (simp add: handle_untyped_command_def)
    from peers_moved_ok [OF st status_moved(2) [OF this [unfolded update_peer_to_syncing_incoming_def]]] show ?thesis .
  next
    case (ReceivedMetadata peer md)
    with r obtain s where "handle_received_metadata E W st peer md = Ret s" "send_sync_requests W s = Ret st'"
      by (auto simp: handle_untyped_command_def)
    from handle_received_metadata_ok [OF st _ this(1)] this(2) wf ReceivedMetadata show ?thesis by (auto intro: send)
  next
    case (ReceivedMerkleHashes peer rs hs)
    with r obtain s where "handle_received_merkle_hashes E W st peer rs hs = Some (Ret s)" "send_sync_requests W s = Ret st'"
      by (auto simp: handle_untyped_command_def)
    from handle_received_merkle_hashes_ok [OF st this(1)] this(2) show ?thesis by (rule send)
  next
    case (ReceivedInitialStateBlocks peer rs bs)
    with r obtain s where "handle_received_initial_state_blocks E W st peer rs bs = Ret s" "send_sync_requests W s = Ret st'"
      by (auto simp: handle_untyped_command_def)
    from handle_received_initial_state_blocks_ok [OF st this(1)] this(2) show ?thesis by (rule send)
  next
    case (ReceivedECGOperations peer ops)
    with r obtain s where "handle_received_ecg_operations E W st peer ops = Ret s" "send_sync_requests W s = Ret st'"
      by (auto simp: handle_untyped_command_def)
    from handle_received_ecg_operations_ok [OF st this(1)] this(2) show ?thesis by (rule send)
  qed (use r st in \<open>auto simp: handle_untyped_command_def intro: peers_moved_ok silent_moved serve_silent\<close>)
qed

lemma run_command_ok:
  assumes "store_ok E sid st" "body_roundtrip E" "wf_command (snd c)" "run_command E st c = Some (Ret st')"
  shows "store_ok E sid st'"
proof -
  obtain W cmd where c: "c = (W, cmd)" by force
  show ?thesis
  proof (cases cmd)
    case (Typed x)
    with assms(4) c have "handle_store_command E W st x = Ret st'" by (simp add: run_command_def)
    from handle_store_command_ok [OF assms(1,2) this] show ?thesis .
  next
    case (Untyped x)
    with assms(4) c have "handle_untyped_command E W st x = Some (Ret st')" by (simp add: run_command_def)
    from handle_untyped_command_ok [OF assms(1) _ this] assms(3) c Untyped show ?thesis by simp
  qed
qed

lemma run_handler_ok:
  assumes "store_ok E sid st" "body_roundtrip E" "\<forall>c \<in> set cs. wf_command (snd c)" "run_handler E st cs = Some (Ret st')"
  shows "store_ok E sid st'"
  using assms unfolding run_handler_def
proof (induction cs arbitrary: st)
  case (Cons c cs)
  from Cons.prems(4) obtain s where s: "run_command E st c = Some (Ret s)" "foldL (run_command E) s cs = Some (Ret st')"
    by auto
  from run_command_ok [OF Cons.prems(1,2) _ s(1)] Cons.prems(3) have "store_ok E sid s" by simp
  with Cons.IH [of s] Cons.prems(2,3) s(2) show ?case by simp
qed simp

lemma new_downloading_ok: "store_ok E sid (new_downloading sid)"
  by (simp add: new_downloading_def fresh_store_def store_ok_def sm_ok_def bt_ok_def)

end
