(* ===== verification/StoreProperties.thy ===== *)
theory StoreProperties
  imports StoreInvariant "HOL-Library.Code_Target_Nat"
begin

text \<open>
  What the task of \<open>ossa-core/src/store/mod.rs\<close> promises: a download ends in the published
  state, requests go to idle peers only and cover what is missing, waiting peers are answered,
  local and received operations have the same effect.
\<close>

section \<open>A hash without collisions\<close>

definition stream_hash :: "('s, 'h) hash_ops \<Rightarrow> bytes list \<Rightarrow> 'h" where
  "stream_hash K xs = hash_finalize K (foldl (hash_update K) (hash_new K) xs)"

definition collision_free :: "('s, 'h) hash_ops \<Rightarrow> bool" where
  "collision_free K \<longleftrightarrow>
     (\<forall>xs ys. stream_hash K xs = stream_hash K ys \<longrightarrow> concat xs = concat ys) \<and>
     (\<forall>a b xs ys. hash_bytes K a @ xs = hash_bytes K b @ ys \<longrightarrow> a = b)"

lemma collision_freeD:
  assumes "collision_free K"
  shows "stream_hash K xs = stream_hash K ys \<Longrightarrow> concat xs = concat ys"
    and "hash_bytes K a @ us = hash_bytes K b @ vs \<Longrightarrow> a = b \<and> us = vs"
  using assms unfolding collision_free_def by (blast, metis same_append_eq)

lemma hash_chunk_stream: "hash_chunk K c = stream_hash K [c]"
  by (simp add: hash_chunk_def stream_hash_def Let_def)

lemma hash_pair_stream: "hash_pair K a b = stream_hash K [hash_bytes K a, hash_bytes K b]"
  by (simp add: hash_pair_def stream_hash_def Let_def)

lemma hash_chunk_inj: "collision_free K \<Longrightarrow> hash_chunk K c = hash_chunk K d \<Longrightarrow> c = d"
  unfolding hash_chunk_stream by (drule (1) collision_freeD(1)) simp

lemma hash_pair_inj:
  assumes K: "collision_free K" and eq: "hash_pair K a b = hash_pair K c d"
  shows "a = c \<and> b = d"
proof -
  from collision_freeD(1) [OF K eq [unfolded hash_pair_stream]]
  have "hash_bytes K a @ hash_bytes K b = hash_bytes K c @ hash_bytes K d" by simp
  from collision_freeD(2) [OF K this] have "a = c" "hash_bytes K b @ [] = hash_bytes K d @ []" by simp_all
  from collision_freeD(2) [OF K this(2)] this(1) show ?thesis by simp
qed

lemma store_id_inj:
  assumes K: "collision_free K" and wf: "wf_metadata md" "wf_metadata md'" and eq: "store_id K md = store_id K md'"
  shows "md = (md' :: 'h metadata_header)"
proof -
  let ?ss = "\<lambda>m :: 'h metadata_header. [md_nonce m, [as_byte (md_protocol_version m)], md_store_type m,
      to_be_bytes (md_initial_state_size m), hash_bytes K (md_merkle_root m)]"
  have len: "length (to_be_bytes w) = 8" for w by (simp add: to_be_bytes_def)
  have "concat (?ss md) = concat (?ss md')"
    by (rule collision_freeD(1) [OF K]) (use eq in \<open>simp add: store_id_stream stream_hash_def\<close>)
  then have "md_nonce md = md_nonce md' \<and> md_store_type md = md_store_type md' \<and>
      to_be_bytes (md_initial_state_size md) = to_be_bytes (md_initial_state_size md') \<and>
      hash_bytes K (md_merkle_root md) @ [] = hash_bytes K (md_merkle_root md') @ []"
    using wf len by (simp add: append_eq_append_conv wf_metadata_def)
  then have "md_nonce md = md_nonce md'" "md_store_type md = md_store_type md'"
    "md_initial_state_size md = md_initial_state_size md'" "md_merkle_root md = md_merkle_root md'"
    using collision_freeD(2) [OF K] by (simp_all add: to_be_bytes_inj)
  moreover have "md_protocol_version md = md_protocol_version md'"
    by (cases "md_protocol_version md"; cases "md_protocol_version md'") simp
  ultimately show ?thesis by simp
qed

lemma plain_collision_free: "collision_free plain_hash"
proof -
  have "foldl (hash_update plain_hash) s xs = s @ concat xs" for s xs
    by (induction xs arbitrary: s) (simp_all add: plain_hash_def)
  then have "stream_hash plain_hash xs = concat xs" for xs
    by (simp add: stream_hash_def) (simp add: plain_hash_def)
  moreover have "a = b" if "hash_bytes plain_hash a @ xs = hash_bytes plain_hash b @ ys" for a b xs ys
    using that enc_node_prefix [of a xs b ys] by (simp add: plain_hash_def)
  ultimately show ?thesis by (simp add: collision_free_def)
qed

section \<open>The publisher\<close>

lemma new_syncing_state:
  assumes "so_to_vec E x \<noteq> []" "length (so_to_vec E x) \<le> u64_max"
  shows "\<exists>st md t. new_syncing E rnd x = Ret (st :: ('h, 'd :: linorder, 'g, 'id, 'hd, 't) store) \<and> peers st = [] \<and>
    state_machine st = SyncingStore md t (so_to_vec E x) (ecg_new (so_dag E)) \<lparr>latest_state = x, latest_headers = {}\<rparr> \<and>
    from_chunks (so_hash E) (chunks block_size (so_to_vec E x)) = Ret t \<and>
    tree_over (so_hash E) (map (hash_chunk (so_hash E)) (chunks block_size (so_to_vec E x))) t \<and>
    block_count md = length (chunks block_size (so_to_vec E x)) \<and>
    0 < block_count md \<and> 2 * block_count md \<le> u64_max \<and> md_merkle_root md = nodes t ! 0 \<and>
    md_nonce md = rnd \<and> md_store_type md = so_type_ident E"
proof -
  let ?bs = "so_to_vec E x" let ?cs = "chunks block_size ?bs"
  have pos: "0 < block_size" by (simp add: block_size_def)
  have n: "length ?cs = (length ?bs + block_size - 1) div block_size" by (rule length_chunks [OF pos])
  have ne: "?cs \<noteq> []" using assms(1) by (cases ?bs) auto
  have small: "2 * length ?cs \<le> u64_max" using assms(2) unfolding n by (simp add: block_size_def u64_max_def)
  obtain t where t: "from_chunks (so_hash E) ?cs = Ret t" "tree_over (so_hash E) (map (hash_chunk (so_hash E)) ?cs) t"
    using from_chunks_tree [OF ne small, of "so_hash E"] by blast
  have "nodes t \<noteq> []" using t(2) ne by (cases ?cs) (auto simp: tree_over_def)
  then have root: "merkle_root t = Ret (nodes t ! 0)" by (simp add: merkle_root_def)
  have size: "unat (of_nat (length ?bs) :: u64) = length ?bs"
    using assms(2) by (simp add: unat_of_nat take_bit_eq_mod u64_max_def)
  let ?md = "\<lparr>md_nonce = rnd, md_protocol_version = latest_version, md_store_type = so_type_ident E,
      md_initial_state_size = of_nat (length ?bs), md_merkle_root = nodes t ! 0\<rparr>"
  let ?sm = "SyncingStore ?md t ?bs (ecg_new (so_dag E)) \<lparr>latest_state = x, latest_headers = {}\<rparr>"
  have st: "new_syncing E rnd x = Ret (fresh_store ?sm :: ('h, 'd, 'g, 'id, 'hd, 't) store)"
    using t(1) root by (simp add: new_syncing_def metadata_body_new_def metadata_generate_def metadata_build_def Let_def)
  have count: "block_count ?md = length ?cs" using size n by (simp add: block_count_def)
  show ?thesis
    unfolding count [symmetric] using st t ne small count
    by (intro exI [of _ "fresh_store ?sm"] exI [of _ ?md] exI [of _ t]) (simp add: fresh_store_def)
qed

lemma new_syncing_ok:
  assumes "so_to_vec E x \<noteq> []" "length (so_to_vec E x) \<le> u64_max" "so_from_slice E (so_to_vec E x) = Some x"
    and "length rnd = 32" "length (so_type_ident E) = 32"
  shows "\<exists>st :: ('h, 'd :: linorder, 'g, 'id, 'hd, 't) store. new_syncing E rnd x = Ret st \<and> store_ok E (store_id_of E st) st"
proof -
  let ?bs = "so_to_vec E x" let ?cs = "chunks block_size ?bs"
  from new_syncing_state [OF assms(1,2), of rnd] obtain st :: "('h, 'd, 'g, 'id, 'hd, 't) store" and md t where
    st: "new_syncing E rnd x = Ret st" "peers st = []"
      "state_machine st = SyncingStore md t ?bs (ecg_new (so_dag E)) \<lparr>latest_state = x, latest_headers = {}\<rparr>"
    and t: "tree_over (so_hash E) (map (hash_chunk (so_hash E)) ?cs) t"
    and md: "block_count md = length ?cs" "0 < block_count md" "md_merkle_root md = nodes t ! 0"
      "md_nonce md = rnd" "md_store_type md = so_type_ident E" by blast
  have "blocks_validated (so_hash E) t (block_count md) (map Some ?cs)"
    using validate_chunk_tree [OF t] md(1) by (auto simp: blocks_validated_def)
  moreover have "tree_of (so_hash E) md t" using t md by (simp add: tree_of_def tree_over_def)
  ultimately have "initial_ok (so_hash E) (store_id (so_hash E) md) md t (map Some ?cs)"
    using md assms(4,5) by (simp add: initial_ok_def wf_metadata_def validate_store_id_def)
  moreover have "concat ?cs = ?bs" by (rule concat_chunks) (simp add: block_size_def)
  ultimately have "syncing_ok E (store_id (so_hash E) md) md t ?bs (ecg_new (so_dag E)) \<lparr>latest_state = x, latest_headers = {}\<rparr>"
    unfolding syncing_ok_def
    by (intro conjI exI [of _ ?cs] exI [of _ x] exI [of _ "[]"]) (use assms(3) in \<open>simp_all add: replay_def\<close>)
  then have "store_ok E (store_id_of E st) st"
    using st(2,3) by (simp add: store_ok_def sm_ok_def store_id_of_def bt_ok_def)
  with st(1) show ?thesis by blast
qed

section \<open>Downloads\<close>

text \<open>Two trees over the same metadata are the same tree, and validated blocks the same blocks.\<close>

lemma tree_of_unique:
  assumes "collision_free K" "tree_of K md t" "tree_of K md u" "0 < block_count md"
  shows "t = u"
proof -
  have t: "branches_ok K (nodes t)" "length (nodes t) = 2 * block_count md - 1"
    and u: "branches_ok K (nodes u)" "length (nodes u) = 2 * block_count md - 1"
    and root: "nodes t ! 0 = nodes u ! 0" using assms(2,3) by (simp_all add: tree_of_def)
  have odd: "odd (length (nodes t))" using t(2) assms(4) by simp
  have "nodes t = nodes u"
  proof (rule branches_unique [OF t(1) u(1) _ root odd])
    show "length (nodes t) = length (nodes u)" using t u by simp
    fix i a b assume i: "i < length (nodes t) div 2" and h: "hash_pair K a b = nodes t ! i"
    from i odd have "i < (length (nodes t) + 1) div 2 - 1" by presburger
    with t(1) have "nodes t ! i = hash_pair K (nodes t ! (2 * i + 1)) (nodes t ! (2 * i + 2))"
      unfolding branches_ok_def by blast
    with h show "a = nodes t ! (2 * i + 1) \<and> b = nodes t ! (2 * i + 2)"
      using hash_pair_inj [OF assms(1)] by metis
  qed
  then show ?thesis by simp
qed

lemma validated_unique:
  assumes "collision_free K" "blocks_validated K t n (map Some bs)" "blocks_validated K t n (map Some cs)"
  shows "bs = cs"
proof (rule nth_equalityI)
  show "length bs = length cs" using assms by (simp add: blocks_validated_def)
  fix i assume i: "i < length bs"
  with assms have "validate_chunk K t i (bs ! i) = Ret True" "validate_chunk K t i (cs ! i) = Ret True"
    by (auto simp: blocks_validated_def)
  then have "hash_chunk K (bs ! i) = hash_chunk K (cs ! i)" by (auto simp: validate_chunk_def)
  then show "bs ! i = cs ! i" by (rule hash_chunk_inj [OF assms(1)])
qed

lemma syncing_unique:
  assumes K: "collision_free (so_hash E)" and a: "syncing_ok E sid md t init ecg ds"
    and b: "syncing_ok E sid md' t' init' ecg' ds'"
  shows "md' = md \<and> t' = t \<and> init' = init"
proof -
  let ?K = "so_hash E"
  from a obtain bs where bs: "initial_ok ?K sid md t (map Some bs)" "init = concat bs" by (auto simp: syncing_ok_def)
  from b obtain cs where cs: "initial_ok ?K sid md' t' (map Some cs)" "init' = concat cs" by (auto simp: syncing_ok_def)
  have md: "md' = md"
    by (rule store_id_inj [OF K]) (use bs(1) cs(1) in \<open>auto simp: initial_ok_def validate_store_id_def\<close>)
  have t: "t' = t"
    by (rule tree_of_unique [OF K]) (use bs(1) cs(1) md in \<open>auto simp: initial_ok_def\<close>)
  have "cs = bs" by (rule validated_unique [OF K]) (use bs(1) cs(1) md t in \<open>auto simp: initial_ok_def\<close>)
  with md t bs(2) cs(2) show ?thesis by simp
qed

text \<open>C1. A download ends in the published store: when a store that was created for a published id
  reaches the syncing state, after any commands from any peers in any order, its metadata, its
  Merkle tree and its initial state are the publisher's, and its graph and CRDT state come from
  the published value by the operations it has received, in the order it received them. The hash
  has no collisions and the serializer gives back what was serialized.\<close>

theorem download_is_authentic:
  assumes K: "collision_free (so_hash E)" and bodies: "body_roundtrip E"
    and x: "so_to_vec E x \<noteq> []" "length (so_to_vec E x) \<le> u64_max" "so_from_slice E (so_to_vec E x) = Some x"
      "length rnd = 32" "length (so_type_ident E) = 32"
    and pub: "new_syncing E rnd x = Ret (pub :: ('h, 'd :: linorder, 'g, 'id, 'hd, 't) store)"
    and run: "run_handler E (new_downloading (store_id_of E pub)) cs = Some (Ret st)" "\<forall>c \<in> set cs. wf_command (snd c)"
    and synced: "state_machine st = SyncingStore md t init ecg ds"
  shows "metadata_of pub = Some md \<and> merkle_tree_of pub = Some t \<and> init = so_to_vec E x \<and>
    (\<exists>log. replay E x log = Ret (ecg, ds))"
proof -
  let ?sid = "store_id_of E pub"
  from new_syncing_ok [OF x, where ?'d = 'd] pub have pub_ok: "store_ok E ?sid pub" by auto
  from new_syncing_state [OF x(1,2), where ?'d = 'd, of rnd] pub obtain pmd pt where
    sm: "state_machine pub = SyncingStore pmd pt (so_to_vec E x) (ecg_new (so_dag E)) \<lparr>latest_state = x, latest_headers = {}\<rparr>"
    by auto
  from run_handler_ok [OF new_downloading_ok bodies run(2,1)] synced
  have st: "syncing_ok E ?sid md t init ecg ds" by (simp add: store_ok_def sm_ok_def)
  have p: "syncing_ok E ?sid pmd pt (so_to_vec E x) (ecg_new (so_dag E)) \<lparr>latest_state = x, latest_headers = {}\<rparr>"
    using pub_ok sm by (simp add: store_ok_def sm_ok_def)
  from syncing_unique [OF K p st] st x(3) sm show ?thesis
    by (auto simp: metadata_of_def merkle_tree_of_def syncing_ok_def)
qed

text \<open>
  For the witnesses: a store over byte strings. The state is the list of bytes written to it, an
  operation body a list of bytes to append, devices are numbers.
\<close>

definition demo_ops ::
    "(bytes, bytes, u32 list_graph, u32, test_header, bytes, bytes, u8) store_ops" where
  "demo_ops =
     \<lparr>so_hash = plain_hash, so_dag = list_dag, so_header = test_header_ops, so_type_ident = replicate 32 2,
      so_to_vec = (\<lambda>x. x), so_from_slice = (\<lambda>bs. Some bs), so_body_to_vec = (\<lambda>b. b),
      so_body_from_slice = (\<lambda>bs. Some bs), so_body_operations = (\<lambda>b h. b),
      so_apply = (\<lambda>s ecg op. s @ [op])\<rparr>"

definition demo_world :: "nat world" where
  "demo_world = \<lparr>peer_order = (\<lambda>n. [0 ..< n]), request_order = (\<lambda>n. rev [0 ..< n]), alive = (\<lambda>c. True),
     peer_state = (\<lambda>d. Some (100 + d))\<rparr>"

definition demo_start :: "(bytes, nat, u32 list_graph, u32, test_header, bytes) store" where
  "demo_start = new_downloading (store_id plain_hash demo_metadata)"

definition demo_commands :: "(nat world \<times> (bytes, nat, u32, test_header, bytes) command) list" where
  "demo_commands = map (\<lambda>c. (demo_world, Untyped c))
     [RegisterPeers [7], RegisterOutgoingPeerSyncing 7 5, ReceivedMetadata 7 demo_metadata,
      ReceivedInitialStateBlocks 7 [(0, 1)] [Some [1, 2, 3]],
      ReceivedECGOperations 7 [(th 1 [], [9]), (th 2 [1], [8])]]"

lemma demo_run:
  "\<exists>st md t ecg ds. run_handler demo_ops demo_start demo_commands = Some (Ret st) \<and>
     state_machine st = SyncingStore md t [1, 2, 3] ecg ds \<and> latest_state ds = [1, 2, 3, 9, 8]"
proof -
  have "case run_handler demo_ops demo_start demo_commands of
      Some (Ret st) \<Rightarrow> (case state_machine st of SyncingStore md t bs ecg ds \<Rightarrow> bs = [1, 2, 3] \<and> latest_state ds = [1, 2, 3, 9, 8] | _ \<Rightarrow> False)
    | _ \<Rightarrow> False" by code_simp
  then show ?thesis by (auto split: option.splits res.splits state_machine.splits)
qed

lemma demo_ops_simps [simp]:
  "so_hash demo_ops = plain_hash" "so_to_vec demo_ops = (\<lambda>x. x)" "so_from_slice demo_ops = Some"
  "so_type_ident demo_ops = replicate 32 2" "body_roundtrip demo_ops" "collision_free (so_hash demo_ops)"
  by (simp_all add: demo_ops_def body_roundtrip_def plain_collision_free)

lemma demo_publisher:
  "\<exists>pub :: (bytes, nat, u32 list_graph, u32, test_header, bytes) store.
     new_syncing demo_ops (replicate 32 1) [1, 2, 3] = Ret pub \<and> metadata_of pub = Some demo_metadata"
proof -
  have "case new_syncing demo_ops (replicate 32 1) [1, 2, 3] :: (bytes, nat, u32 list_graph, u32, test_header, bytes) store res
      of Ret pub \<Rightarrow> metadata_of pub = Some demo_metadata | _ \<Rightarrow> False" by code_simp
  then show ?thesis by (auto split: res.splits)
qed

lemma store_id_of_metadata: "metadata_of st = Some md \<Longrightarrow> store_id_of E st = store_id (so_hash E) md"
  by (auto simp: metadata_of_def store_id_of_def split: state_machine.splits)

lemma download_is_authentic_witness:
  "\<exists>st md t init ecg ds. run_handler demo_ops demo_start demo_commands = Some (Ret st) \<and>
     state_machine st = SyncingStore md t init ecg ds \<and> init = [1, 2, 3] \<and>
     (\<exists>log. replay demo_ops [1, 2, 3] log = Ret (ecg, ds))"
proof -
  obtain pub :: "(bytes, nat, u32 list_graph, u32, test_header, bytes) store" where
    pub: "new_syncing demo_ops (replicate 32 1) [1, 2, 3] = Ret pub" "metadata_of pub = Some demo_metadata"
    using demo_publisher by blast
  obtain st md t ecg ds where
    st: "run_handler demo_ops demo_start demo_commands = Some (Ret st)" "state_machine st = SyncingStore md t [1, 2, 3] ecg ds"
    using demo_run by blast
  have start: "demo_start = new_downloading (store_id_of demo_ops pub)"
    by (simp add: demo_start_def store_id_of_metadata [OF pub(2)])
  have wf: "\<forall>c \<in> set demo_commands. wf_command (snd c)"
    by (simp add: demo_commands_def wf_metadata_def demo_metadata_def)
  from download_is_authentic [OF _ _ _ _ _ _ _ pub(1) st(1) [unfolded start] wf st(2)] st
  show ?thesis by (auto simp: u64_max_def plain_collision_free)
qed

section \<open>Invariants of a run\<close>

text \<open>C2. The invariants of the state machine hold after any commands: the store keeps the id it was
  created for, a store that downloads its Merkle tree misses a node, one that downloads its
  initial state misses a block and has only blocks that match the tree, the tree is consistent
  with the metadata's root, and a syncing store's CRDT state is what its operations make of its
  initial state.\<close>

theorem store_invariant:
  assumes "run_handler E (new_downloading sid) cs = Some (Ret st)" and "\<forall>c \<in> set cs. wf_command (snd c)"
    and "body_roundtrip E"
  shows "store_id_of E st = sid \<and>
    (case state_machine st of
       DownloadingMetadata s \<Rightarrow> True
     | DownloadingMerkle md t \<Rightarrow> missing_indices t \<noteq> [] \<and> partial_ok (so_hash E) {} (md_merkle_root md) (nodes t)
     | DownloadingInitialState md t bs \<Rightarrow>
         None \<in> set bs \<and> length bs = block_count md \<and> tree_of (so_hash E) md t \<and>
         blocks_validated (so_hash E) t (block_count md) bs
     | SyncingStore md t init ecg ds \<Rightarrow>
         tree_of (so_hash E) md t \<and> (\<exists>x log. so_from_slice E init = Some x \<and> replay E x log = Ret (ecg, ds)))"
proof -
  from run_handler_ok [OF new_downloading_ok assms(3,2,1)] have ok: "sm_ok E sid (state_machine st)"
    by (simp add: store_ok_def)
  then show ?thesis
    using store_ok_id [OF ok]
    by (cases "state_machine st")
      (auto simp: sm_ok_def merkle_ok_def initial_ok_def syncing_ok_def blocks_validated_def)
qed

lemma store_invariant_witness:
  "\<exists>st. run_handler demo_ops demo_start demo_commands = Some (Ret st) \<and>
     store_id_of demo_ops st = store_id plain_hash demo_metadata"
proof -
  obtain st where st: "run_handler demo_ops demo_start demo_commands = Some (Ret st)" using demo_run by blast
  have wf: "\<forall>c \<in> set demo_commands. wf_command (snd c)"
    by (simp add: demo_commands_def wf_metadata_def demo_metadata_def)
  from store_invariant [OF st [unfolded demo_start_def] wf] st show ?thesis by simp
qed

section \<open>Requests\<close>

lemma set_chunks: "0 < n \<Longrightarrow> \<Union> (set ` set (chunks n xs)) = set xs"
  using concat_chunks [of n xs] by (metis set_concat)

lemma chunks_short: "0 < n \<Longrightarrow> c \<in> set (chunks n xs) \<Longrightarrow> c \<noteq> [] \<and> length c \<le> n"
  by (induction n xs rule: chunks.induct) auto

definition shuffles :: "'d world \<Rightarrow> bool" where
  "shuffles W \<longleftrightarrow> (\<forall>n. mset (peer_order W n) = mset [0 ..< n] \<and> mset (request_order W n) = mset [0 ..< n])"

lemma mset_shuffle:
  assumes "mset (ord (length xs)) = mset [0 ..< length xs]"
  shows "mset (shuffle_with ord xs) = mset xs"
proof -
  have "mset (shuffle_with ord xs) = image_mset ((!) xs) (mset [0 ..< length xs])"
    unfolding shuffle_with_def mset_map assms ..
  also have "\<dots> = mset (map ((!) xs) [0 ..< length xs])" by (rule mset_map [symmetric])
  finally show ?thesis by (simp only: map_nth)
qed

lemma set_shuffle: "mset (ord (length xs)) = mset [0 ..< length xs] \<Longrightarrow> set (shuffle_with ord xs) = set xs"
  using mset_shuffle mset_eq_setD by blast

lemma distinct_shuffle: "mset (ord (length xs)) = mset [0 ..< length xs] \<Longrightarrow> distinct (shuffle_with ord xs) = distinct xs"
  using mset_shuffle mset_eq_imp_distinct_iff by blast

text \<open>What sending a command makes of a peer's status, and the channel it goes to.\<close>

definition mark_outstanding :: "peer_info \<Rightarrow> peer_info" where
  "mark_outstanding i =
     (case outgoing_status i of
        Syncing s \<Rightarrow> i\<lparr>outgoing_status := Syncing (s\<lparr>is_outstanding := True\<rparr>)\<rparr>
      | _ \<Rightarrow> i)"

definition sender_of :: "('h, 'd, 'g, 'id, 'hd, 't) store \<Rightarrow> 'd \<Rightarrow> chan" where
  "sender_of st p =
     (case map_of (peers st) p of
        None \<Rightarrow> 0
      | Some i \<Rightarrow> (case outgoing_status i of Syncing s \<Rightarrow> sender_peer s | _ \<Rightarrow> 0))"

definition ready :: "('h, 'd, 'g, 'id, 'hd, 't) store \<Rightarrow> 'd \<Rightarrow> bool" where
  "ready st p \<longleftrightarrow> (\<exists>i. map_of (peers st) p = Some i \<and> is_ready_for_sync i)"

lemma ready_peers_set: "bt_ok (peers st) \<Longrightarrow> set (ready_peers st) = {p. ready st p}"
proof -
  assume ok: "bt_ok (peers st)"
  then have d: "distinct (map fst (peers st))" by (simp add: bt_ok_def strict_sorted_iff)
  then show ?thesis by (auto simp: ready_peers_def ready_def map_of_eq_Some_iff image_iff)
qed

lemma distinct_ready_peers: "bt_ok (peers st) \<Longrightarrow> distinct (ready_peers st)"
  by (simp add: ready_peers_def bt_ok_def strict_sorted_iff distinct_map_filter)

lemma send_commands:
  assumes "distinct (map fst cmds)" and "\<And>p. p \<in> fst ` set cmds \<Longrightarrow> ready st p \<and> alive W (sender_of st p)"
  shows "\<exists>st'. foldR (send_command W) st cmds = Ret st' \<and> state_machine st' = state_machine st \<and>
    outbox st' = outbox st @ map (\<lambda>(p, c). PeerCommand (sender_of st p) c) cmds \<and>
    (\<forall>p. map_of (peers st') p =
       (if p \<in> fst ` set cmds then map_option mark_outstanding (map_of (peers st) p) else map_of (peers st) p))"
  using assms
proof (induction cmds arbitrary: st)
  case (Cons pc cmds)
  obtain p c where pc: "pc = (p, c)" by force
  from Cons.prems(2) [of p] pc obtain i where i: "map_of (peers st) p = Some i" "is_ready_for_sync i"
    by (auto simp: ready_def)
  then obtain s where "outgoing_status i = Syncing s"
    by (auto simp: is_ready_for_sync_def split: peer_status.splits)
  with i Cons.prems(2) [of p] pc
  have i: "map_of (peers st) p = Some i" "outgoing_status i = Syncing s" "alive W (sender_peer s)"
    by (auto simp: sender_of_def)
  let ?st = "st\<lparr>peers := bt_insert p (mark_outstanding i) (peers st),
      outbox := outbox st @ [PeerCommand (sender_peer s) c]\<rparr>"
  have sender: "sender_of st p = sender_peer s" using i by (simp add: sender_of_def)
  have step: "send_command W st pc = Ret ?st"
    using i by (simp add: send_command_def pc emit_def mark_outstanding_def)
  have p: "p \<notin> fst ` set cmds" and d: "distinct (map fst cmds)" using Cons.prems(1) pc by auto
  have same: "map_of (peers ?st) q = map_of (peers st) q" if "q \<noteq> p" for q using that by (simp add: bt_simps)
  have rest: "ready ?st q \<and> alive W (sender_of ?st q)" "sender_of ?st q = sender_of st q" if "q \<in> fst ` set cmds" for q
  proof -
    have "q \<noteq> p" using that p by force
    with Cons.prems(2) [of q] that same [of q]
    show "ready ?st q \<and> alive W (sender_of ?st q)" "sender_of ?st q = sender_of st q"
      by (simp_all add: ready_def sender_of_def)
  qed
  have "\<exists>st'. foldR (send_command W) ?st cmds = Ret st' \<and> state_machine st' = state_machine ?st \<and>
      outbox st' = outbox ?st @ map (\<lambda>(p, c). PeerCommand (sender_of ?st p) c) cmds \<and>
      (\<forall>p. map_of (peers st') p =
         (if p \<in> fst ` set cmds then map_option mark_outstanding (map_of (peers ?st) p) else map_of (peers ?st) p))"
    by (rule Cons.IH [OF d rest(1)])
  then obtain st' where st': "foldR (send_command W) ?st cmds = Ret st'"
    "state_machine st' = state_machine ?st"
    "outbox st' = outbox ?st @ map (\<lambda>(p, c). PeerCommand (sender_of ?st p) c) cmds"
    "\<forall>q. map_of (peers st') q =
       (if q \<in> fst ` set cmds then map_option mark_outstanding (map_of (peers ?st) q) else map_of (peers ?st) q)"
    by (elim exE conjE) (rule that)
  have "map (\<lambda>(p, c). PeerCommand (sender_of ?st p) c) cmds = map (\<lambda>(p, c). PeerCommand (sender_of st p) c) cmds"
    using rest(2) by (intro map_cong) force+
  with st'(3) have out: "outbox st' = outbox st @ map (\<lambda>(p, c). PeerCommand (sender_of st p) c) (pc # cmds)"
    by (simp add: pc sender)
  have "map_of (peers st') q = (if q \<in> fst ` set (pc # cmds) then map_option mark_outstanding (map_of (peers st) q)
      else map_of (peers st) q)" for q
    using st'(4) [rule_format, of q] p i(1) by (auto simp: pc bt_simps)
  with st' step out show ?case by (intro exI [of _ st']) simp
qed simp

text \<open>The requests for a list of indices, cut into chunks and handed to peers.\<close>

fun requested :: "('g, 'id, 'hd) store_sync_command \<Rightarrow> nat list" where
  "requested (MerkleRequest rs) = expand_ranges rs"
| "requested (InitialStateBlockRequest rs) = expand_ranges rs"
| "requested _ = []"

definition chunk_requests ::
    "(range list \<Rightarrow> ('g, 'id, 'hd) store_sync_command) \<Rightarrow> 'd list \<Rightarrow> nat list list
     \<Rightarrow> ('d \<times> ('g, 'id, 'hd) store_sync_command) list" where
  "chunk_requests C ps iss = map (\<lambda>(p, is). (p, C (compress_consecutive_into_ranges is))) (zip ps iss)"

lemma chunk_requests_fst: "map fst (chunk_requests C ps iss) = take (length iss) ps"
proof -
  have "map fst (chunk_requests C ps iss) = map fst (zip ps iss)" by (auto simp: chunk_requests_def)
  then show ?thesis by (simp add: map_fst_zip_take take_map min_def)
qed

lemma chunk_requests_indices:
  assumes "\<And>rs. requested (C rs) = expand_ranges rs"
  shows "concat (map (requested \<circ> snd) (chunk_requests C ps iss)) = concat (take (length ps) iss)"
proof -
  have "map (requested \<circ> snd) (chunk_requests C ps iss) = map snd (zip ps iss)"
    by (auto simp: chunk_requests_def assms expand_compressed)
  then show ?thesis by (simp add: map_snd_zip_take min_def)
qed

lemma chunk_requests_exact:
  assumes C: "\<And>rs. requested (C rs) = expand_ranges rs" and n: "0 < n" and d: "distinct xs"
    and sh: "mset iss = mset (chunks n xs)"
  shows "distinct (concat (map (requested \<circ> snd) (chunk_requests C ps iss)))"
    and "set (concat (map (requested \<circ> snd) (chunk_requests C ps iss))) \<subseteq> set xs"
    and "length xs \<le> n * length ps \<Longrightarrow> set (concat (map (requested \<circ> snd) (chunk_requests C ps iss))) = set xs"
    and "(p, c) \<in> set (chunk_requests C ps iss) \<Longrightarrow> requested c \<noteq> [] \<and> length (requested c) \<le> n"
    and "(p, c) \<in> set (chunk_requests C ps iss) \<Longrightarrow> \<exists>rs. c = C rs"
proof -
  have m: "mset (concat iss) = mset xs"
    using sh concat_chunks [OF n, of xs] by (metis mset_concat mset_map sum_mset_sum_list)
  have sub: "set (concat (take k iss)) \<subseteq> set xs" for k
    using mset_eq_setD [OF m] set_take_subset [of k iss] by auto
  have "distinct (concat iss)" using m d mset_eq_imp_distinct_iff by blast
  moreover have "concat iss = concat (take (length ps) iss) @ concat (drop (length ps) iss)"
    by (simp flip: concat_append)
  ultimately show "distinct (concat (map (requested \<circ> snd) (chunk_requests C ps iss)))"
    unfolding chunk_requests_indices [of C, OF C] by (metis distinct_append)
  show "set (concat (map (requested \<circ> snd) (chunk_requests C ps iss))) \<subseteq> set xs"
    unfolding chunk_requests_indices [of C, OF C] by (rule sub)
  show "set (concat (map (requested \<circ> snd) (chunk_requests C ps iss))) = set xs" if "length xs \<le> n * length ps"
  proof -
    have "length iss = (length xs + n - 1) div n" using mset_eq_length [OF sh] length_chunks [OF n] by simp
    also have "\<dots> \<le> (n * length ps + (n - 1)) div n" using that n by (intro div_le_mono) linarith
    also have "\<dots> = length ps + (n - 1) div n" by (rule div_mult_self4) (use n in simp)
    also have "\<dots> = length ps" using n by simp
    finally have "take (length ps) iss = iss" by simp
    then show ?thesis unfolding chunk_requests_indices [of C, OF C] using mset_eq_setD [OF m] by simp
  qed
  assume pc: "(p, c) \<in> set (chunk_requests C ps iss)"
  then obtain js where js: "js \<in> set iss" "c = C (compress_consecutive_into_ranges js)"
    by (auto simp: chunk_requests_def dest: set_zip_rightD)
  with mset_eq_setD [OF sh] chunks_short [OF n] show "requested c \<noteq> [] \<and> length (requested c) \<le> n"
    by (simp add: C expand_compressed)
  show "\<exists>rs. c = C rs" using js by blast
qed

text \<open>The indices a downloading store needs, the request for them and how many fit in one.\<close>

definition wanted ::
    "('h, 'g, 'id, 'hd, 't) state_machine \<Rightarrow> (nat list \<times> (range list \<Rightarrow> ('g, 'id, 'hd) store_sync_command) \<times> nat) option" where
  "wanted sm =
     (case sm of
        DownloadingMerkle _ t \<Rightarrow> Some (missing_indices t, MerkleRequest, merkle_request_limit)
      | DownloadingInitialState _ _ bs \<Rightarrow> Some (needed_blocks bs, InitialStateBlockRequest, block_request_limit)
      | _ \<Rightarrow> None)"

lemma limits_pos: "0 < merkle_request_limit" "0 < block_request_limit"
  by (simp_all add: merkle_request_limit_def block_request_limit_def)

lemma sync_commands_shape:
  assumes sm: "sm_ok E sid sm" and W: "shuffles W"
  shows "\<exists>cmds. sync_commands W sm ps = Ret cmds \<and> (\<exists>k. map fst cmds = take k ps) \<and> (cmds = [] \<longleftrightarrow> ps = []) \<and>
    (case wanted sm of
       Some (is, C, n) \<Rightarrow>
         (\<exists>iss. cmds = chunk_requests C ps iss \<and> mset iss = mset (chunks n is)) \<and> distinct is \<and> 0 < n
     | None \<Rightarrow> True) \<and>
    (case sm of
       DownloadingMetadata _ \<Rightarrow> cmds = map (\<lambda>p. (p, MetadataHeaderRequest)) (take 1 ps)
     | SyncingStore _ _ _ ecg _ \<Rightarrow> cmds = map (\<lambda>p. (p, ECGSyncRequest ecg)) ps
     | _ \<Rightarrow> True)"
proof -
  have chunked: "\<exists>k. map fst (chunk_requests C ps (shuffle_with (request_order W) (chunks n is))) = take k ps"
    "mset (shuffle_with (request_order W) (chunks n is)) = mset (chunks n is)"
    "is \<noteq> [] \<Longrightarrow> chunk_requests C ps (shuffle_with (request_order W) (chunks n is)) = [] \<longleftrightarrow> ps = []"
    "is \<noteq> [] \<Longrightarrow> chunks n is \<noteq> []" for C n and "is" :: "nat list"
  proof -
    show "\<exists>k. map fst (chunk_requests C ps (shuffle_with (request_order W) (chunks n is))) = take k ps"
      by (auto simp: chunk_requests_fst)
    show m: "mset (shuffle_with (request_order W) (chunks n is)) = mset (chunks n is)"
      using W by (intro mset_shuffle) (simp add: shuffles_def)
    show ne: "chunks n is \<noteq> []" if "is \<noteq> []" using that by (cases "is") auto
    show "chunk_requests C ps (shuffle_with (request_order W) (chunks n is)) = [] \<longleftrightarrow> ps = []" if "is \<noteq> []"
    proof -
      have "shuffle_with (request_order W) (chunks n is) \<noteq> []" using ne [OF that] mset_eq_length [OF m] by auto
      then show ?thesis by (simp add: chunk_requests_def zip_eq_Nil_iff)
    qed
  qed
  show ?thesis
  proof (cases sm)
    case (DownloadingMetadata s)
    then show ?thesis by (intro exI [of _ "map (\<lambda>p. (p, MetadataHeaderRequest)) (take 1 ps)"])
      (auto simp: sync_commands_def comp_def wanted_def)
  next
    case (SyncingStore md t bs ecg ds)
    then show ?thesis by (intro exI [of _ "map (\<lambda>p. (p, ECGSyncRequest ecg)) ps"])
      (auto simp: sync_commands_def comp_def wanted_def intro: exI [of _ "length ps"])
  next
    case (DownloadingMerkle md t)
    let ?cmds = "chunk_requests MerkleRequest ps (shuffle_with (request_order W) (chunks merkle_request_limit (missing_indices t)))"
    have ne: "missing_indices t \<noteq> []" using sm DownloadingMerkle by (simp add: sm_ok_def)
    have "sync_commands W sm ps = Ret ?cmds"
      using chunked(4) [OF ne] by (simp add: DownloadingMerkle sync_commands_def chunk_requests_def Let_def)
    moreover have "distinct (missing_indices t)" by (simp add: missing_indices_def)
    ultimately show ?thesis
      using DownloadingMerkle chunked(1) [of MerkleRequest merkle_request_limit "missing_indices t"] chunked(2) [of merkle_request_limit "missing_indices t"] chunked(3) [OF ne, of MerkleRequest merkle_request_limit]
      by (intro exI [of _ ?cmds]) (auto simp: wanted_def limits_pos)
  next
    case (DownloadingInitialState md t bs)
    let ?cmds = "chunk_requests InitialStateBlockRequest ps (shuffle_with (request_order W) (chunks block_request_limit (needed_blocks bs)))"
    have "None \<in> set bs" using sm DownloadingInitialState by (simp add: sm_ok_def)
    then obtain i where "i < length bs" "bs ! i = None" by (metis in_set_conv_nth)
    then have "i \<in> set (needed_blocks bs)" by (simp add: needed_blocks_def)
    then have ne: "needed_blocks bs \<noteq> []" by auto
    have "sync_commands W sm ps = Ret ?cmds"
      using chunked(4) [OF ne] by (simp add: DownloadingInitialState sync_commands_def chunk_requests_def Let_def)
    moreover have "distinct (needed_blocks bs)" by (simp add: needed_blocks_def)
    ultimately show ?thesis
      using DownloadingInitialState chunked(1) [of InitialStateBlockRequest block_request_limit "needed_blocks bs"] chunked(2) [of block_request_limit "needed_blocks bs"] chunked(3) [OF ne, of InitialStateBlockRequest block_request_limit]
      by (intro exI [of _ ?cmds]) (auto simp: wanted_def limits_pos)
  qed
qed

text \<open>Sending requests never hits the panics for violated invariants, and it sends to idle peers
  only: each command goes to a different peer that syncs and has no request outstanding, on that
  peer's channel; these peers are then outstanding and all others as they were. Nobody is asked
  exactly when nobody is idle. A store without metadata asks one peer for it, a syncing store
  sends its graph to every idle peer.\<close>

theorem requests_go_to_idle_peers:
  assumes st: "store_ok E sid st" and W: "shuffles W" and alive: "\<And>p. ready st p \<Longrightarrow> alive W (sender_of st p)"
  shows "\<exists>st' cmds. send_sync_requests W st = Ret st' \<and> state_machine st' = state_machine st \<and>
    outbox st' = outbox st @ map (\<lambda>(p, c). PeerCommand (sender_of st p) c) cmds \<and>
    distinct (map fst cmds) \<and> (\<forall>p \<in> fst ` set cmds. ready st p \<and> \<not> ready st' p) \<and>
    (\<forall>p. p \<notin> fst ` set cmds \<longrightarrow> map_of (peers st') p = map_of (peers st) p) \<and>
    (cmds = [] \<longleftrightarrow> (\<forall>p. \<not> ready st p)) \<and>
    (case state_machine st of
       DownloadingMetadata _ \<Rightarrow> length cmds \<le> 1 \<and> snd ` set cmds \<subseteq> {MetadataHeaderRequest}
     | SyncingStore _ _ _ ecg _ \<Rightarrow> snd ` set cmds \<subseteq> {ECGSyncRequest ecg} \<and> fst ` set cmds = {p. ready st p}
     | _ \<Rightarrow> True)"
proof -
  let ?ps = "shuffle_with (peer_order W) (ready_peers st)"
  have sm: "sm_ok E sid (state_machine st)" and bt: "bt_ok (peers st)" using st by (auto simp: store_ok_def)
  have ps: "set ?ps = {p. ready st p}" "distinct ?ps"
    using W set_shuffle [of "peer_order W" "ready_peers st"] distinct_shuffle [of "peer_order W" "ready_peers st"]
      ready_peers_set [OF bt] distinct_ready_peers [OF bt] by (auto simp: shuffles_def)
  from sync_commands_shape [OF sm W, of ?ps] obtain cmds k where
    cmds: "sync_commands W (state_machine st) ?ps = Ret cmds" "map fst cmds = take k ?ps" "cmds = [] \<longleftrightarrow> ?ps = []"
    and shape: "case state_machine st of
       DownloadingMetadata _ \<Rightarrow> cmds = map (\<lambda>p. (p, MetadataHeaderRequest)) (take 1 ?ps)
     | SyncingStore _ _ _ ecg _ \<Rightarrow> cmds = map (\<lambda>p. (p, ECGSyncRequest ecg)) ?ps
     | _ \<Rightarrow> True" by blast
  have d: "distinct (map fst cmds)" using cmds(2) ps(2) by simp
  have sub: "fst ` set cmds \<subseteq> {p. ready st p}"
    using arg_cong [OF cmds(2), of set] set_take_subset [of k ?ps] ps(1) by auto
  then have r: "ready st p \<and> alive W (sender_of st p)" if "p \<in> fst ` set cmds" for p
    using that alive by force
  have "\<exists>st'. foldR (send_command W) st cmds = Ret st' \<and> state_machine st' = state_machine st \<and>
      outbox st' = outbox st @ map (\<lambda>(p, c). PeerCommand (sender_of st p) c) cmds \<and>
      (\<forall>p. map_of (peers st') p =
         (if p \<in> fst ` set cmds then map_option mark_outstanding (map_of (peers st) p) else map_of (peers st) p))"
    by (rule send_commands [OF d r])
  then obtain st' where
    st': "foldR (send_command W) st cmds = Ret st'" "state_machine st' = state_machine st"
      "outbox st' = outbox st @ map (\<lambda>(p, c). PeerCommand (sender_of st p) c) cmds"
    and ps': "\<forall>p. map_of (peers st') p =
       (if p \<in> fst ` set cmds then map_option mark_outstanding (map_of (peers st) p) else map_of (peers st) p)"
    by (elim exE conjE) (rule that)
  have "send_sync_requests W st = Ret st'" using cmds(1) st'(1) by (simp add: send_sync_requests_def Let_def)
  moreover have "\<not> ready st' p" if "p \<in> fst ` set cmds" for p
    using that ps' by (auto simp: ready_def mark_outstanding_def is_ready_for_sync_def split: peer_status.splits)
  moreover have "cmds = [] \<longleftrightarrow> (\<forall>p. \<not> ready st p)" using cmds(3) ps(1) by (metis empty_Collect_eq set_empty)
  moreover have "case state_machine st of
       DownloadingMetadata _ \<Rightarrow> length cmds \<le> 1 \<and> snd ` set cmds \<subseteq> {MetadataHeaderRequest}
     | SyncingStore _ _ _ ecg _ \<Rightarrow> snd ` set cmds \<subseteq> {ECGSyncRequest ecg} \<and> fst ` set cmds = {p. ready st p}
     | _ \<Rightarrow> True"
    using shape ps(1) by (cases "state_machine st") (auto simp: image_image)
  ultimately show ?thesis using st'(2,3) ps' d sub by (intro exI [of _ st'] exI [of _ cmds]) auto
qed


text \<open>For the witnesses: a store that misses two nodes of its tree and has one idle peer.\<close>

definition two_blocks :: "bytes metadata_header" where
  "two_blocks = demo_metadata\<lparr>md_initial_state_size := 20000\<rparr>"

definition two_nodes :: "bytes potential merkle_tree" where
  "two_nodes = \<lparr>nodes = [Verified (md_merkle_root two_blocks), PNone, PNone]\<rparr>"

definition idle_store :: "(bytes, nat, u32 list_graph, u32, test_header, bytes) store" where
  "idle_store = (fresh_store (DownloadingMerkle two_blocks two_nodes))
     \<lparr>peers := [(7, \<lparr>incoming_status = Known, outgoing_status = Syncing \<lparr>sender_peer = 5, is_outstanding = False\<rparr>\<rparr>)]\<rparr>"

lemma idle_store_simps:
  "state_machine idle_store = DownloadingMerkle two_blocks two_nodes" "missing_indices two_nodes = [1, 2]"
  "block_count two_blocks = 2" "wf_metadata two_blocks" "length (nodes two_nodes) = 3" "bt_ok (peers idle_store)"
proof -
  show "missing_indices two_nodes = [1, 2]" "block_count two_blocks = 2" by code_simp+
  show "wf_metadata two_blocks" by (simp add: wf_metadata_def two_blocks_def demo_metadata_def)
qed (simp_all add: idle_store_def fresh_store_def two_nodes_def bt_ok_def)

lemma idle_store_ok: "store_ok demo_ops (store_id plain_hash two_blocks) idle_store"
proof -
  have new: "new_with_capacity (md_merkle_root two_blocks) 2 = Ret two_nodes" by code_simp
  have fits: "2 * 2 \<le> u64_max" by (simp add: u64_max_def)
  from partial_new [OF _ fits, of "md_merkle_root two_blocks" plain_hash] new
  have "partial_ok plain_hash {} (md_merkle_root two_blocks) (nodes two_nodes)" by simp
  then show ?thesis by (simp add: store_ok_def sm_ok_def merkle_ok_def idle_store_simps validate_store_id_def)
qed

lemma demo_world_shuffles: "shuffles demo_world"
  by (simp add: shuffles_def demo_world_def)

lemma requests_go_to_idle_peers_witness:
  "\<exists>st'. send_sync_requests demo_world idle_store = Ret st' \<and> outbox st' \<noteq> [] \<and> ready idle_store 7"
proof -
  have r: "ready idle_store 7" by (simp add: ready_def idle_store_def is_ready_for_sync_def)
  from requests_go_to_idle_peers [OF idle_store_ok demo_world_shuffles] r show ?thesis
    by (auto simp: demo_world_def)
qed


end
