(* ===== verification/StoreBehaviour.thy ===== *)
theory StoreBehaviour
  imports StoreProperties
begin

text \<open>
  The behaviour of single commands of the task of \<open>ossa-core/src/store/mod.rs\<close>: serving blocks,
  waking peers and listeners, applying operations, the status of peers, and the panics a command
  can run into.
\<close>

section \<open>Serving\<close>

lemma nth_chunks:
  assumes "0 < n" "i < length (chunks n xs)"
  shows "chunks n xs ! i = take n (drop (i * n) xs) \<and> i * n < length xs"
  using assms
proof (induction n xs arbitrary: i rule: chunks.induct)
  case (2 n x xs)
  show ?case
  proof (cases i)
    case 0
    with "2.prems" show ?thesis by (cases n) simp_all
  next
    case (Suc j)
    with "2.prems" have j: "j < length (chunks n (drop (n - 1) xs))" by simp
    from "2.IH" [OF "2.prems"(1) j] Suc "2.prems"(1) show ?thesis
      by (cases n) (simp_all add: add.commute add.left_commute less_diff_conv)
  qed
qed simp

lemma block_slice_chunk:
  assumes i: "i < length (chunks block_size bs)" and small: "length bs \<le> u64_max - block_size"
  shows "block_slice bs i = Ret (chunks block_size bs ! i)"
proof -
  have pos: "0 < block_size" by (simp add: block_size_def)
  from nth_chunks [OF pos i] have c: "chunks block_size bs ! i = take block_size (drop (i * block_size) bs)"
    and start: "i * block_size < length bs" by auto
  have m1: "mul_u64 i block_size = Ret (i * block_size)" using start small by (simp add: mul_u64_def)
  have m2: "mul_u64 (i + 1) block_size = Ret (i * block_size + block_size)"
    using start small by (simp add: mul_u64_def)
  let ?stop = "min (i * block_size + block_size) (length bs)"
  have "i * block_size \<le> ?stop" using start by simp
  moreover have "take (?stop - i * block_size) (drop (i * block_size) bs) = take block_size (drop (i * block_size) bs)"
    by (auto simp: min_def)
  ultimately show ?thesis using c m1 m2 by (simp add: block_slice_def Let_def)
qed



text \<open>A request for a node or block that does not exist ends the task: the helpers index with
  \<open>expect\<close>, so one out-of-range index from a peer panics whatever the other indices are, when the
  store has the tree.\<close>

theorem out_of_range_request_panics:
  assumes "merkle_tree_of st = Some t" and "i \<in> set (expand_ranges rs)" and "length (nodes t) \<le> i"
  shows "handle_merkle_peer_request W st peer rs c = Panic ExpectFailed"
proof -
  have "mapR (\<lambda>i. expect (merkle_get t i)) is = Panic ExpectFailed" if "i \<in> set is" for "is"
    using that assms(3)
  proof (induction "is")
    case (Cons j js)
    then show ?case by (cases "merkle_get t j"; cases "j = i") (auto simp: merkle_get_def split: if_splits)
  qed simp
  with assms show ?thesis by (simp add: handle_merkle_peer_request_def handle_merkle_peer_request_helper_def)
qed

lemma out_of_range_request_panics_witness:
  "handle_merkle_peer_request demo_world
     (fresh_store (DownloadingInitialState demo_metadata \<lparr>nodes = [[1]]\<rparr> [None]) ::
       (bytes, nat, u32 list_graph, u32, test_header, bytes) store) 7 [(0, 2)] 9 = Panic ExpectFailed"
  by (rule out_of_range_request_panics [of _ "\<lparr>nodes = [[1]]\<rparr>" 1])
    (simp_all add: merkle_tree_of_def fresh_store_def upt_rec)

section \<open>Waking those who wait\<close>

lemma foldR_emit:
  assumes "\<And>s x. f s x = emit W (ch x) (e x) s" and "\<And>x. x \<in> set xs \<Longrightarrow> alive W (ch x)"
  shows "foldR f s xs = Ret (s\<lparr>outbox := outbox s @ map e xs\<rparr>)"
  using assms(2)
proof (induction xs arbitrary: s)
  case (Cons x xs)
  then have "f s x = Ret (s\<lparr>outbox := outbox s @ [e x]\<rparr>)" by (simp add: assms(1) emit_def)
  with Cons.IH [of "s\<lparr>outbox := outbox s @ [e x]\<rparr>"] Cons.prems show ?case by simp
qed simp

lemma bt_insert_last:
  "bt_ok m \<Longrightarrow> (\<And>x. x \<in> fst ` set m \<Longrightarrow> x < k) \<Longrightarrow> bt_insert k v m = m @ [(k, v)]"
  by (induction m) (fastforce simp: bt_ok_def)+

text \<open>
  The subscribers one by one: those who did not cause the update are told and dropped, the one
  who did is put back.
\<close>

lemma tell_ecg_subscribers:
  assumes "bt_ok subs" and "\<And>p c. (p, c) \<in> set subs \<Longrightarrow> Some p \<noteq> from \<Longrightarrow> alive W c"
    and "bt_ok (ecg_subscribers s @ subs)"
  shows "foldR (tell_ecg_subscriber W ecg from) s subs =
    Ret (s\<lparr>ecg_subscribers := ecg_subscribers s @ filter (\<lambda>p. Some (fst p) = from) subs,
          outbox := outbox s @ map (\<lambda>p. EcgState (snd p) ecg) (filter (\<lambda>p. Some (fst p) \<noteq> from) subs)\<rparr>)"
  using assms
proof (induction subs arbitrary: s)
  case (Cons pc subs)
  obtain p c where pc: "pc = (p, c)" by force
  have ok: "bt_ok subs" using Cons.prems(1) by (simp add: bt_ok_def)
  have later: "\<And>q d. (q, d) \<in> set subs \<Longrightarrow> Some q \<noteq> from \<Longrightarrow> alive W d" using Cons.prems(2) by force
  show ?case
  proof (cases "Some p = from")
    case True
    have ins: "bt_insert p c (ecg_subscribers s) = ecg_subscribers s @ [(p, c)]"
      by (rule bt_insert_last) (use Cons.prems(3) pc in \<open>auto simp: bt_ok_def sorted_wrt_append\<close>)
    have "bt_ok (ecg_subscribers (s\<lparr>ecg_subscribers := ecg_subscribers s @ [(p, c)]\<rparr>) @ subs)"
      using Cons.prems(3) pc by simp
    from Cons.IH [OF ok later this] True ins show ?thesis by (simp add: pc tell_ecg_subscriber_def)
  next
    case False
    then have "alive W c" using Cons.prems(2) [of p c] pc by simp
    moreover have "bt_ok (ecg_subscribers (s\<lparr>outbox := outbox s @ [EcgState c ecg]\<rparr>) @ subs)"
      using Cons.prems(3) pc by (simp add: bt_ok_def sorted_wrt_append)
    ultimately show ?thesis using Cons.IH [OF ok later] False by (simp add: pc tell_ecg_subscriber_def emit_def)
  qed
qed simp

text \<open>C32. An update reaches everybody but its source: every listener gets a snapshot of the CRDT state
  and the graph, every waiting peer the graph, once and in order, except the peer the update came
  from, which alone stays subscribed.\<close>

theorem update_reaches_all_but_source:
  assumes "bt_ok (ecg_subscribers st)" and "\<And>l. l \<in> set (listeners st) \<Longrightarrow> alive W l"
    and "\<And>p c. (p, c) \<in> set (ecg_subscribers st) \<Longrightarrow> Some p \<noteq> from \<Longrightarrow> alive W c"
  shows "update_listeners W st latest ecg from =
    Ret (st\<lparr>ecg_subscribers := filter (\<lambda>p. Some (fst p) = from) (ecg_subscribers st),
           outbox := outbox st @ map (\<lambda>l. Update l (Snapshot latest ecg)) (listeners st) @
             map (\<lambda>p. EcgState (snd p) ecg) (filter (\<lambda>p. Some (fst p) \<noteq> from) (ecg_subscribers st))\<rparr>)"
proof -
  let ?s = "st\<lparr>outbox := outbox st @ map (\<lambda>l. Update l (Snapshot latest ecg)) (listeners st)\<rparr>"
  have l: "foldR (tell_listener W latest ecg) st (listeners st) = Ret ?s"
    by (rule foldR_emit [where ch = "\<lambda>l. l"]) (simp add: tell_listener_def, erule assms(2))
  have "foldR (tell_ecg_subscriber W ecg from) (?s\<lparr>ecg_subscribers := []\<rparr>) (ecg_subscribers st) =
      Ret (?s\<lparr>ecg_subscribers := [] @ filter (\<lambda>p. Some (fst p) = from) (ecg_subscribers st),
             outbox := outbox ?s @ map (\<lambda>p. EcgState (snd p) ecg) (filter (\<lambda>p. Some (fst p) \<noteq> from) (ecg_subscribers st))\<rparr>)"
    using tell_ecg_subscribers [OF assms(1,3), where s = "?s\<lparr>ecg_subscribers := []\<rparr>" and ecg = ecg] assms(1) by simp
  with l show ?thesis by (simp add: update_listeners_def)
qed

lemma update_reaches_all_but_source_witness:
  "\<exists>st'. update_listeners demo_world
     (demo_start\<lparr>listeners := [3], ecg_subscribers := [(7, 8), (9, 10)]\<rparr>) [] demo_ecg (Some 7) = Ret st' \<and>
     outbox st' = [Update 3 (Snapshot [] demo_ecg), EcgState 10 demo_ecg] \<and> ecg_subscribers st' = [(7, 8)]"
  using update_reaches_all_but_source
    [of "demo_start\<lparr>listeners := [3], ecg_subscribers := [(7, 8), (9, 10)]\<rparr>" demo_world "Some 7" "[]" demo_ecg]
  by (simp add: bt_ok_def demo_world_def demo_start_def new_downloading_def fresh_store_def)

section \<open>Received metadata\<close>

lemma update_ready:
  assumes "map_of (peers st) peer = Some info" "outgoing_status info = Syncing s"
  shows "\<exists>m. update_outgoing_peer_to_ready st peer = Ret (st\<lparr>peers := m\<rparr>)"
  by (intro exI, simp only: update_outgoing_peer_to_ready_def assms option.case peer_status.case)

text \<open>Metadata that matches the store id is taken in any state: whatever the store has downloaded
  or, when it syncs, whatever operations it has applied, it goes back to downloading the Merkle
  tree. The peers that wait for metadata are woken, the sender without the metadata.\<close>

theorem late_metadata_restarts_download:
  assumes peer: "map_of (peers st) peer = Some info" "outgoing_status info = Syncing s"
    and valid: "validate_store_id (so_hash E) md (store_id_of E st)" and blocks: "2 \<le> block_count md"
    and alive: "\<And>p c. (p, c) \<in> set (metadata_subscribers st) \<Longrightarrow> alive W c"
  shows "\<exists>st' t. handle_received_metadata E W st peer md = Ret st' \<and>
    state_machine st' = DownloadingMerkle md t \<and> missing_indices t = [1 ..< 2 * block_count md - 1] \<and>
    metadata_subscribers st' = [] \<and>
    outbox st' = outbox st @
      map (\<lambda>(p, c). WakeMetadata c (if p = peer then None else Some md)) (metadata_subscribers st)"
proof -
  from update_ready [OF peer] obtain m where r: "update_outgoing_peer_to_ready st peer = Ret (st\<lparr>peers := m\<rparr>)" ..
  have "0 < block_count md" using blocks by simp
  from partial_new [OF this block_count_fits, of "md_merkle_root md" "so_hash E"] obtain t where
    t: "new_with_capacity (md_merkle_root md) (block_count md) = Ret t" by blast
  then have ns: "nodes t = Verified (md_merkle_root md) # replicate (2 * block_count md - 2) PNone"
    using block_count_fits [of md] blocks
    by (auto simp: new_with_capacity_def node_count_for_leaf_count_def mul_u64_def sub_u64_def store_at_def
        replicate_Suc [symmetric] numeral_2_eq_2 Suc_diff_Suc simp del: replicate_Suc split: if_splits)
      (cases "block_count md"; simp)
  have missing: "missing_indices t = [1 ..< 2 * block_count md - 1]"
  proof -
    have "missing_indices t = filter (\<lambda>i. is_none (nodes t ! i)) (0 # [1 ..< 2 * block_count md - 1])"
      using blocks by (simp add: missing_indices_def ns upt_rec [of 0] Suc_diff_Suc numeral_2_eq_2)
    also have "\<dots> = filter (\<lambda>i. is_none (nodes t ! i)) [1 ..< 2 * block_count md - 1]" by (simp add: ns)
    also have "\<dots> = [1 ..< 2 * block_count md - 1]"
      by (rule filter_True) (auto simp: ns nth_Cons')
    finally show ?thesis .
  qed
  let ?s = "st\<lparr>peers := m, state_machine := DownloadingMerkle md t, metadata_subscribers := []\<rparr>"
  have "foldR (wake_metadata_subscriber W peer md) ?s (metadata_subscribers st) =
      Ret (?s\<lparr>outbox := outbox ?s @ map (\<lambda>p. WakeMetadata (snd p) (if fst p = peer then None else Some md)) (metadata_subscribers st)\<rparr>)"
    by (rule foldR_emit [where ch = snd]) (use alive in \<open>force simp: wake_metadata_subscriber_def\<close>)+
  with r t valid blocks missing show ?thesis
    by (simp add: handle_received_metadata_def Let_def store_id_of_def case_prod_unfold)
qed

text \<open>A store whose published state serializes to nothing cannot be downloaded: valid metadata that
  announces a size of zero makes the task panic in the arithmetic of the Merkle tree, before the
  code for the case without initial state is reached.\<close>

theorem empty_initial_state_panics:
  assumes peer: "map_of (peers st) peer = Some info" "outgoing_status info = Syncing s"
    and valid: "validate_store_id (so_hash E) md (store_id_of E st)" and size: "md_initial_state_size md = 0"
  shows "handle_received_metadata E W st peer md = Panic ArithOverflow"
proof -
  from update_ready [OF peer] obtain m where r: "update_outgoing_peer_to_ready st peer = Ret (st\<lparr>peers := m\<rparr>)" ..
  have "block_count md = 0" using size by (simp add: block_count_0)
  then have "new_with_capacity (md_merkle_root md) (block_count md) = Panic ArithOverflow"
    by (simp add: new_with_capacity_def node_count_for_leaf_count_def mul_u64_def sub_u64_def)
  with r valid show ?thesis by (simp add: handle_received_metadata_def store_id_of_def)
qed

text \<open>For the witnesses: a syncing store with an idle peer and a waiting one.\<close>

definition synced_store :: "bytes metadata_header \<Rightarrow> (bytes, nat, u32 list_graph, u32, test_header, bytes) store" where
  "synced_store md = idle_store\<lparr>state_machine := SyncingStore md \<lparr>nodes = [[1, 2, 3]]\<rparr> [1, 2, 3] demo_ecg
     \<lparr>latest_state = [1, 2, 3, 9, 8], latest_headers = {}\<rparr>, metadata_subscribers := [(9, 11)]\<rparr>"

lemma synced_store_simps:
  "store_id_of demo_ops (synced_store md) = store_id plain_hash md" "metadata_subscribers (synced_store md) = [(9, 11)]"
  "map_of (peers (synced_store md)) 7 =
     Some \<lparr>incoming_status = Known, outgoing_status = Syncing \<lparr>sender_peer = 5, is_outstanding = False\<rparr>\<rparr>"
  "state_machine (synced_store md) = SyncingStore md \<lparr>nodes = [[1, 2, 3]]\<rparr> [1, 2, 3] demo_ecg
     \<lparr>latest_state = [1, 2, 3, 9, 8], latest_headers = {}\<rparr>"
  by (simp_all add: synced_store_def idle_store_def store_id_of_def)

lemma late_metadata_restarts_download_witness:
  "\<exists>st' t. handle_received_metadata demo_ops demo_world (synced_store two_blocks) 7 two_blocks = Ret st' \<and>
     state_machine st' = DownloadingMerkle two_blocks t"
proof -
  have two: "2 \<le> block_count two_blocks" by (simp add: idle_store_simps)
  have valid: "validate_store_id (so_hash demo_ops) two_blocks (store_id_of demo_ops (synced_store two_blocks))"
    by (simp add: synced_store_simps validate_store_id_def)
  have alive: "alive demo_world c" for c by (simp add: demo_world_def)
  from late_metadata_restarts_download [OF synced_store_simps(3) _ valid two, where W = demo_world] alive
  show ?thesis by auto
qed

lemma empty_initial_state_panics_witness:
  "handle_received_metadata demo_ops demo_world (synced_store (demo_metadata\<lparr>md_initial_state_size := 0\<rparr>)) 7
     (demo_metadata\<lparr>md_initial_state_size := 0\<rparr>) = Panic ArithOverflow"
  by (rule empty_initial_state_panics [OF synced_store_simps(3)]) (simp_all add: synced_store_simps validate_store_id_def)

section \<open>Progress shown to the application\<close>

lemma filter_count: "None \<in> set bs \<Longrightarrow> length (filter (\<lambda>p. p \<noteq> None) bs) < length bs"
  by (induction bs) (auto simp: le_imp_less_Suc)

text \<open>The progress of a download is below one hundred percent, as the type's comment says: while
  blocks are missing the update a new listener gets is \<open>Downloading p\<close> with \<open>p < 100\<close>, and for
  sizes up to \<open>2 ^ 57\<close> bytes the arithmetic does not overflow.\<close>

theorem percent_below_hundred:
  assumes st: "store_ok E sid st" and sm: "state_machine st = DownloadingInitialState md t bs"
    and size: "unat (md_initial_state_size md) \<le> 2 ^ 57"
  shows "\<exists>p. current_update (state_machine st) = Ret (Downloading p) \<and> p < 100"
proof -
  let ?n = "unat (md_initial_state_size md)" and ?d = "length (filter (\<lambda>p. p \<noteq> None) bs)"
  have none: "None \<in> set bs" and len: "length bs = block_count md" and pos: "0 < block_count md"
    using st sm by (auto simp: store_ok_def sm_ok_def initial_ok_def blocks_validated_def)
  have n: "md_initial_state_size md \<noteq> 0" "0 < ?n" using pos block_count_0 [of md] by (auto simp: unat_gt_0)
  have "?d + 1 \<le> block_count md" using filter_count [OF none] len by simp
  then have "(?d + 1) * block_size \<le> block_count md * block_size" by (rule mult_le_mono1)
  also have "\<dots> \<le> ?n + block_size - 1" unfolding block_count_def by (rule div_times_less_eq_dividend)
  finally have lt: "?d * block_size < ?n" using n(2) by (simp add: block_size_def)
  then have bound: "100 * ?d * block_size < 100 * ?n" by simp
  also have "\<dots> \<le> u64_max" using size by (simp add: u64_max_def)
  finally have fits: "100 * ?d * block_size \<le> u64_max" by simp
  then have fits': "100 * ?d \<le> u64_max" by (simp add: block_size_def)
  have "100 * ?d * block_size div ?n < 100" using bound by (simp add: less_mult_imp_div_less)
  moreover have "mul_u64 100 ?d = Ret (100 * ?d)" "mul_u64 (100 * ?d) block_size = Ret (100 * ?d * block_size)"
    using fits fits' by (simp_all add: mul_u64_def)
  then have "percent_downloaded md bs = Ret (100 * ?d * block_size div ?n)"
    using n(1) by (simp only: percent_downloaded_def Let_def bindR.simps if_False)
  ultimately show ?thesis by (simp add: sm current_update_def)
qed

section \<open>Status of peers\<close>

text \<open>
  A peer's status only moves from known to initializing to syncing, in each direction, and a
  peer is never forgotten.
\<close>

fun status_rank :: "'a peer_status \<Rightarrow> nat" where
  "status_rank Known = 0"
| "status_rank Initializing = 1"
| "status_rank (Syncing _) = 2"

definition advances :: "('h, 'd, 'g, 'id, 'hd, 't) store \<Rightarrow> ('h, 'd, 'g, 'id, 'hd, 't) store \<Rightarrow> bool" where
  "advances st st' \<longleftrightarrow>
     (\<forall>p i. map_of (peers st) p = Some i \<longrightarrow>
        (\<exists>j. map_of (peers st') p = Some j \<and>
           status_rank (incoming_status i) \<le> status_rank (incoming_status j) \<and>
           status_rank (outgoing_status i) \<le> status_rank (outgoing_status j)))"

lemma advances_refl [simp]: "advances st st"
  by (simp add: advances_def)

lemma advances_trans: "advances a b \<Longrightarrow> advances b c \<Longrightarrow> advances a c"
  unfolding advances_def by (meson le_trans)

lemma advances_same: "peers st' = peers st \<Longrightarrow> advances st st'"
  by (simp add: advances_def)

lemma advances_insert:
  assumes "map_of (peers st) p = Some i" "peers st' = bt_insert p j (peers st)"
    "status_rank (incoming_status i) \<le> status_rank (incoming_status j)"
    "status_rank (outgoing_status i) \<le> status_rank (outgoing_status j)"
  shows "advances st st'"
  using assms by (auto simp: advances_def bt_simps)

lemma foldR_advances:
  assumes "foldR f s xs = Ret s'" and "\<And>s x s'. f s x = Ret s' \<Longrightarrow> advances s s'"
  shows "advances s s'"
proof (rule foldR_returned [OF assms(1), of "advances s"])
  show "advances s b" if "advances s a" "f a x = Ret b" for a x b
    using advances_trans [OF that(1) assms(2) [OF that(2)]] .
qed simp

lemma status_advances:
  "update_peer_to_initializing_outgoing st peer = Ret st' \<Longrightarrow> advances st st'"
  "update_peer_to_initializing_incoming st peer = Ret st' \<Longrightarrow> advances st st'"
  "update_peer_to_syncing_outgoing st peer a = Ret st' \<Longrightarrow> advances st st'"
  "update_peer_to_syncing_incoming st peer = Ret st' \<Longrightarrow> advances st st'"
  "update_outgoing_peer_to_ready st peer = Ret st' \<Longrightarrow> advances st st'"
  "send_command W st p = Ret st' \<Longrightarrow> advances st st'"
  by (auto simp: update_peer_to_initializing_outgoing_def update_peer_to_initializing_incoming_def
      update_peer_to_syncing_outgoing_def update_peer_to_syncing_incoming_def update_peer_to_initializing_def
      update_peer_to_syncing_def update_outgoing_peer_to_ready_def send_command_def is_known_def
      split: option.splits peer_status.splits if_splits intro: advances_insert)

lemma insert_known_advances: "advances st (insert_known_peer st peer)"
  by (auto simp: advances_def insert_known_peer_def bt_simps)

lemma kept_peers: "kept st st' \<Longrightarrow> peers st' = peers st"
  by (simp add: kept_def)

lemma update_state_to_syncing_peers:
  assumes "update_state_to_syncing E W st peer = Ret st'"
  shows "peers st' = peers st"
proof -
  from assms obtain md t bs where sm: "state_machine st = DownloadingInitialState md t bs"
    by (auto simp: update_state_to_syncing_def split: state_machine.splits)
  from assms sm obtain sm' x s1 where
    s1: "update_listeners W (st\<lparr>state_machine := sm'\<rparr>) x (ecg_new (so_dag E)) (Some peer) = Ret s1"
    and st': "foldR (wake_block_subscriber W) (s1\<lparr>block_subscribers := []\<rparr>) (block_subscribers s1) = Ret st'"
    by (auto simp: update_state_to_syncing_def Let_def split: option.splits)
  have b: "kept (s1\<lparr>block_subscribers := []\<rparr>) st'" by (rule foldR_kept [OF st']) (rule wake_kept(1))
  from kept_peers [OF update_listeners_kept [OF s1]] kept_peers [OF b] show ?thesis by simp
qed

lemma update_state_to_downloading_peers:
  assumes "update_state_to_downloading_initial_state E W st peer = Ret st'"
  shows "peers st' = peers st"
proof -
  from assms obtain md p where sm: "state_machine st = DownloadingMerkle md p"
    by (auto simp: update_state_to_downloading_initial_state_def split: state_machine.splits)
  show ?thesis
  proof (cases "try_complete p")
    case None
    with assms sm show ?thesis by (simp add: update_state_to_downloading_initial_state_def)
  next
    case (Some t)
    let ?s = "st\<lparr>state_machine := DownloadingInitialState md t (replicate (block_count md) None), merkle_subscribers := []\<rparr>"
    from assms sm Some obtain s1 where
      s1: "foldR (wake_merkle_subscriber W peer t) ?s (merkle_subscribers st) = Ret s1"
      and st': "(if md_initial_state_size md = 0 then update_state_to_syncing E W s1 peer else Ret s1) = Ret st'"
      by (auto simp: update_state_to_downloading_initial_state_def Let_def)
    have "kept ?s s1" by (rule foldR_kept [OF s1]) (rule wake_kept(2))
    then have "peers s1 = peers st" by (simp add: kept_def)
    with st' show ?thesis by (auto dest: update_state_to_syncing_peers split: if_splits)
  qed
qed

lemma handle_received_metadata_advances:
  assumes "handle_received_metadata E W st peer md = Ret st'"
  shows "advances st st'"
proof -
  from assms obtain s where s: "update_outgoing_peer_to_ready st peer = Ret s"
    by (auto simp: handle_received_metadata_def)
  show ?thesis
  proof (cases "validate_store_id (so_hash E) md (store_id_of E s)")
    case False
    with assms s show ?thesis using status_advances(5) [OF s] by (simp add: handle_received_metadata_def)
  next
    case True
    with assms s obtain t u where
      u: "foldR (wake_metadata_subscriber W peer md)
        (s\<lparr>state_machine := DownloadingMerkle md t, metadata_subscribers := []\<rparr>) (metadata_subscribers s) = Ret u"
      and st': "(if block_count md \<le> 1 then update_state_to_downloading_initial_state E W u peer else Ret u) = Ret st'"
      by (auto simp: handle_received_metadata_def Let_def)
    have "kept (s\<lparr>state_machine := DownloadingMerkle md t, metadata_subscribers := []\<rparr>) u"
      by (rule foldR_kept [OF u]) (rule wake_kept(3))
    then have "peers u = peers s" by (simp add: kept_def)
    with st' have "peers st' = peers s" by (auto dest: update_state_to_downloading_peers split: if_splits)
    from advances_trans [OF status_advances(5) [OF s] advances_same [OF this]] show ?thesis .
  qed
qed

lemma handle_received_merkle_hashes_advances:
  assumes "handle_received_merkle_hashes E W st peer rs hs = Some (Ret st')"
  shows "advances st st'"
proof -
  from assms obtain s where s: "update_outgoing_peer_to_ready st peer = Ret s"
    by (auto simp: handle_received_merkle_hashes_def)
  have "peers st' = peers s"
    using assms s by (auto simp: handle_received_merkle_hashes_def Let_def dest!: update_state_to_downloading_peers
        split: if_splits state_machine.splits)
  from advances_trans [OF status_advances(5) [OF s] advances_same [OF this]] show ?thesis .
qed

lemma handle_received_initial_state_blocks_advances:
  assumes "handle_received_initial_state_blocks E W st peer rs bs = Ret st'"
  shows "advances st st'"
proof -
  from assms obtain s where s: "update_outgoing_peer_to_ready st peer = Ret s"
    by (auto simp: handle_received_initial_state_blocks_def)
  have "peers st' = peers s"
    using assms s by (auto simp: handle_received_initial_state_blocks_def Let_def dest!: update_state_to_syncing_peers
        split: if_splits state_machine.splits)
  from advances_trans [OF status_advances(5) [OF s] advances_same [OF this]] show ?thesis .
qed

lemma handle_received_ecg_operations_advances:
  assumes "handle_received_ecg_operations E W st peer ops = Ret st'"
  shows "advances st st'"
proof -
  from assms obtain s where s: "update_outgoing_peer_to_ready st peer = Ret s"
    by (auto simp: handle_received_ecg_operations_def)
  have "peers st' = peers s"
    using assms s by (auto simp: handle_received_ecg_operations_def dest!: update_listeners_kept kept_peers
        split: state_machine.splits)
  from advances_trans [OF status_advances(5) [OF s] advances_same [OF this]] show ?thesis .
qed

lemma handle_store_command_peers:
  assumes "handle_store_command E W st cmd = Ret st'"
  shows "peers st' = peers st"
proof (cases cmd)
  case (Apply hdr b)
  with assms show ?thesis
    by (auto simp: handle_store_command_def Let_def dest!: update_listeners_kept kept_peers
        split: state_machine.splits if_splits)
next
  case (SubscribeState l)
  with assms show ?thesis by (auto simp: handle_store_command_def)
qed

lemma foldl_advances: "(\<And>s x. advances s (f s x)) \<Longrightarrow> advances s (foldl f s xs)"
proof (induction xs arbitrary: s)
  case (Cons x xs)
  from advances_trans [OF Cons.prems Cons.IH [OF Cons.prems]] show ?case by simp
qed simp

lemma contact_peer_advances: "contact_peer E W st p = Ret st' \<Longrightarrow> advances st st'"
  by (auto simp: contact_peer_def intro!: advances_trans [OF status_advances(1) advances_same])

lemma sync_with_peer_advances:
  assumes "sync_with_peer W st peer c = Ret st'"
  shows "advances st st'"
proof -
  let ?s = "insert_known_peer st peer"
  from assms have "(\<exists>u. update_peer_to_initializing_incoming ?s peer = Ret u \<and> peers st' = peers u) \<or> peers st' = peers ?s"
    by (auto simp: sync_with_peer_def Let_def split: option.splits if_splits)
  then have "advances ?s st'"
    using advances_trans [OF status_advances(2) advances_same] advances_same by blast
  with insert_known_advances show ?thesis by (rule advances_trans)
qed

lemma manage_peers_advances: "manage_peers E W st = Ret st' \<Longrightarrow> advances st st'"
  by (auto simp: manage_peers_def Let_def intro: foldR_advances contact_peer_advances)

lemma send_sync_requests_advances: "send_sync_requests W st = Ret st' \<Longrightarrow> advances st st'"
  by (auto simp: send_sync_requests_def Let_def intro: foldR_advances status_advances(6))

lemmas received_advances =
  handle_received_metadata_advances handle_received_initial_state_blocks_advances
  handle_received_ecg_operations_advances

lemma run_command_advances:
  assumes "run_command E st c = Some (Ret st')"
  shows "advances st st'"
proof -
  obtain W cmd where c: "c = (W, cmd)" by force
  show ?thesis
  proof (cases cmd)
    case (Typed x)
    with assms c have "handle_store_command E W st x = Ret st'" by (simp add: run_command_def)
    from advances_same [OF handle_store_command_peers [OF this]] show ?thesis .
  next
    case (Untyped x)
    with assms c have r: "handle_untyped_command E W st x = Some (Ret st')" by (simp add: run_command_def)
    show ?thesis
    proof (cases x)
      case (RegisterPeers ps)
      with r have "manage_peers E W (foldl insert_known_peer st ps) = Ret st'" by (simp add: handle_untyped_command_def)
      from advances_trans [OF foldl_advances [OF insert_known_advances] manage_peers_advances [OF this]] show ?thesis .
    next
      case (SyncWithPeer peer ch)
      with r show ?thesis by (simp add: handle_untyped_command_def sync_with_peer_advances)
    next
      case (RegisterOutgoingPeerSyncing peer ch)
      with r show ?thesis
        by (auto simp: handle_untyped_command_def intro: advances_trans status_advances(3) send_sync_requests_advances)
    next
      case (RegisterIncomingPeerSyncing peer)
      with r show ?thesis by (simp add: handle_untyped_command_def status_advances(4))
    next
      case (ReceivedMerkleHashes peer rs hs)
      with r obtain s where "handle_received_merkle_hashes E W st peer rs hs = Some (Ret s)" "send_sync_requests W s = Ret st'"
        by (auto simp: handle_untyped_command_def)
      from advances_trans [OF handle_received_merkle_hashes_advances [OF this(1)] send_sync_requests_advances [OF this(2)]]
      show ?thesis .
    qed (use r in \<open>auto simp: handle_untyped_command_def intro: advances_trans received_advances
          send_sync_requests_advances advances_same kept_peers serve_kept\<close>)
  qed
qed

text \<open>Whatever commands a store handles, no peer is forgotten and the status of a peer only moves
  forward, from known over initializing to syncing, in both directions: a peer that is
  initializing or syncing is never taken for one that can be contacted anew.\<close>

theorem peer_status_only_advances:
  assumes "run_handler E st cs = Some (Ret st')" and "map_of (peers st) p = Some i"
  shows "\<exists>j. map_of (peers st') p = Some j \<and>
    status_rank (incoming_status i) \<le> status_rank (incoming_status j) \<and>
    status_rank (outgoing_status i) \<le> status_rank (outgoing_status j)"
proof -
  have "advances st st'" using assms(1) unfolding run_handler_def
  proof (induction cs arbitrary: st)
    case (Cons c cs)
    from Cons.prems obtain s where s: "run_command E st c = Some (Ret s)" "foldL (run_command E) s cs = Some (Ret st')"
      by auto
    from advances_trans [OF run_command_advances [OF s(1)] Cons.IH [OF s(2)]] show ?case .
  qed simp
  with assms(2) show ?thesis by (simp add: advances_def)
qed

lemma peer_status_only_advances_witness:
  "\<exists>st' j. run_handler demo_ops idle_store [(demo_world, Untyped (SyncWithPeer 7 4))] = Some (Ret st') \<and>
     map_of (peers st') 7 = Some j \<and> status_rank (outgoing_status j) = 2"
proof -
  have peer: "map_of (peers idle_store) 7 =
      Some \<lparr>incoming_status = Known, outgoing_status = Syncing \<lparr>sender_peer = 5, is_outstanding = False\<rparr>\<rparr>"
    by (simp add: idle_store_def)
  have "case run_handler demo_ops idle_store [(demo_world, Untyped (SyncWithPeer 7 4))] of
      Some (Ret st') \<Rightarrow> True | _ \<Rightarrow> False" by code_simp
  then obtain st' where st': "run_handler demo_ops idle_store [(demo_world, Untyped (SyncWithPeer 7 4))] = Some (Ret st')"
    by (auto split: option.splits res.splits)
  from peer_status_only_advances [OF st' peer] obtain j where
    "map_of (peers st') 7 = Some j" "2 \<le> status_rank (outgoing_status j)" by auto
  moreover have "status_rank (outgoing_status j) \<le> 2" by (cases "outgoing_status j") simp_all
  ultimately show ?thesis using st' by auto
qed

lemma percent_below_hundred_witness:
  "\<exists>p. current_update (DownloadingInitialState demo_metadata \<lparr>nodes = [[1, 2, 3]]\<rparr> [None] ::
      (bytes, u32 list_graph, u32, test_header, bytes) state_machine) = Ret (Downloading p) \<and> p < 100"
proof -
  let ?sm = "DownloadingInitialState demo_metadata \<lparr>nodes = [[1, 2, 3]]\<rparr> [None] ::
      (bytes, u32 list_graph, u32, test_header, bytes) state_machine"
  let ?st = "fresh_store ?sm :: (bytes, nat, u32 list_graph, u32, test_header, bytes) store"
  have one: "block_count demo_metadata = 1" by code_simp
  have "store_ok demo_ops (store_id plain_hash demo_metadata) ?st"
    by (simp add: store_ok_def sm_ok_def initial_ok_def tree_of_def branches_ok_def blocks_validated_def fresh_store_def
        wf_metadata_def validate_store_id_def bt_ok_def one) (simp add: demo_metadata_def)
  from percent_below_hundred [OF this, of demo_metadata "\<lparr>nodes = [[1, 2, 3]]\<rparr>" "[None]"]
  show ?thesis by (simp add: fresh_store_def demo_metadata_def)
qed

end
