(* ===== verification/StorePeer.thy ===== *)
theory StorePeer
  imports StoreHandlers EcgSync
begin

text \<open>
  The task of one peer of a store, \<open>StoreSync\<close> in \<open>ossa-core/src/protocol/store_peer/v0.rs\<close>. On one
  side of a stream \<open>run_server\<close> has the initiative: it takes commands from its store, asks the
  other side, and hands the answer to its store. On the other side \<open>run_client\<close> takes requests
  from the stream, asks its store, and sends the answer back.

  \<open>recv_chan\<close> is the list of the commands the store sends until it closes the channel. The
  commands to the store are collected in order. What the store answers on the oneshot channels
  is an argument: \<open>Now\<close> an answer at once, \<open>Later\<close> one on the second channel, the other two a
  channel that was dropped.
\<close>

record ('d, 'g, 'id, 'hd) store_sync =
  sync_peer :: 'd
  recv_chan :: "('g, 'id, 'hd) store_sync_command list option"
  send_chan_open :: bool

definition new_server :: "'d \<Rightarrow> ('g, 'id, 'hd) store_sync_command list \<Rightarrow> bool \<Rightarrow> ('d, 'g, 'id, 'hd) store_sync" where
  "new_server peer cmds store_open = \<lparr>sync_peer = peer, recv_chan = Some cmds, send_chan_open = store_open\<rparr>"

definition new_client :: "'d \<Rightarrow> bool \<Rightarrow> ('d, 'g, 'id, 'hd) store_sync" where
  "new_client peer store_open = \<lparr>sync_peer = peer, recv_chan = None, send_chan_open = store_open\<rparr>"

text \<open>\<open>self.send_chan.send(cmd).expect(..)\<close>\<close>

definition tell_store ::
    "('d, 'g, 'id, 'hd) store_sync \<Rightarrow> ('h, 'd, 'id, 'hd) untyped_store_command list
     \<Rightarrow> ('h, 'd, 'id, 'hd) untyped_store_command \<Rightarrow> ('h, 'd, 'id, 'hd) untyped_store_command list res" where
  "tell_store self cmds cmd = (if send_chan_open self then Ret (cmds @ [cmd]) else Panic ExpectFailed)"

section \<open>The side with the initiative\<close>

record ('h, 'd, 'id, 'hd) server =
  server_ecg :: "'id initiator option"
  server_stream :: "('h, 'id, 'hd) store_sync_msg stream"
  server_told :: "('h, 'd, 'id, 'hd) untyped_store_command list"

text \<open>Send a request, receive its response; \<open>Wait\<close> and \<open>Reject\<close> are not handled yet.\<close>

definition ask ::
    "'id store_sync_request \<Rightarrow> (('h, 'id, 'hd) store_sync_msg \<Rightarrow> 'a store_sync_response option)
     \<Rightarrow> ('h, 'id, 'hd) store_sync_msg stream \<Rightarrow> ('a \<times> ('h, 'id, 'hd) store_sync_msg stream) res" where
  "ask q try_into s =
     bindR (send_expect Request s q) (\<lambda>s.
     bindR (receive_expect try_into s) (\<lambda>(result, s).
     case result of
       Response a \<Rightarrow> Ret (a, s)
     | Wait \<Rightarrow> Panic TodoHit
     | Reject \<Rightarrow> Panic TodoHit))"

definition server_turn ::
    "('d, 'g, 'id :: linorder, 'hd) store_sync \<Rightarrow> ('h, 'd, 'id, 'hd) server \<Rightarrow> ('g, 'id, 'hd) store_sync_command
     \<Rightarrow> ('h, 'd, 'id, 'hd) server res" where
  "server_turn self st cmd =
     (case cmd of
        MetadataHeaderRequest \<Rightarrow>
          bindR (ask MetadataHeader try_into_metadata_response (server_stream st)) (\<lambda>(metadata, s).
          bindR (tell_store self (server_told st) (ReceivedMetadata (sync_peer self) metadata)) (\<lambda>told.
          Ret (st\<lparr>server_stream := s, server_told := told\<rparr>)))
      | MerkleRequest ranges \<Rightarrow>
          bindR (ask (MerkleHashes ranges) try_into_merkle_response (server_stream st)) (\<lambda>(nodes, s).
          bindR (tell_store self (server_told st) (ReceivedMerkleHashes (sync_peer self) ranges nodes)) (\<lambda>told.
          Ret (st\<lparr>server_stream := s, server_told := told\<rparr>)))
      | InitialStateBlockRequest ranges \<Rightarrow>
          bindR (ask (InitialStateBlocks ranges) try_into_block_response (server_stream st)) (\<lambda>(blocks, s).
          bindR (tell_store self (server_told st) (ReceivedInitialStateBlocks (sync_peer self) ranges blocks)) (\<lambda>told.
          Ret (st\<lparr>server_stream := s, server_told := told\<rparr>)))
      | ECGSyncRequest ecg_state \<Rightarrow>
          bindR (case server_ecg st of
                   None \<Rightarrow> run_new (server_stream st) ecg_state
                 | Some ecg_sync \<Rightarrow> run_round_initiator ecg_sync (server_stream st) ecg_state)
            (\<lambda>((ecg_sync, operations), s).
          bindR (tell_store self (server_told st) (ReceivedECGOperations (sync_peer self) operations)) (\<lambda>told.
          Ret \<lparr>server_ecg = Some ecg_sync, server_stream = s, server_told = told\<rparr>)))"

definition run_server ::
    "('d, 'g, 'id :: linorder, 'hd) store_sync \<Rightarrow> ('h, 'id, 'hd) store_sync_msg stream
     \<Rightarrow> ('h, 'd, 'id, 'hd) server res" where
  "run_server self s =
     (case recv_chan self of
        None \<Rightarrow> Panic ExpectFailed
      | Some cmds \<Rightarrow>
          foldR (server_turn self) \<lparr>server_ecg = None, server_stream = s, server_told = []\<rparr> cmds)"

section \<open>The side that answers\<close>

datatype 'a reply = Now 'a | Later "'a option" | Dropped | LaterDropped

record ('h, 'd, 'id, 'hd) client =
  client_ecg :: "'id responder option"
  client_stream :: "('h, 'id, 'hd) store_sync_msg stream"
  client_told :: "('h, 'd, 'id, 'hd) untyped_store_command list"

text \<open>
  \<open>run_client_helper\<close>. \<open>build_response\<close> makes the message of the request's kind; the message to
  wait is always one about metadata.
\<close>

definition run_client_helper ::
    "('d, 'g, 'id, 'hd) store_sync \<Rightarrow> ('h, 'd, 'id, 'hd) client \<Rightarrow> ('h, 'd, 'id, 'hd) untyped_store_command
     \<Rightarrow> 'a reply \<Rightarrow> ('a store_sync_response \<Rightarrow> ('h, 'id, 'hd) store_sync_msg) \<Rightarrow> ('h, 'd, 'id, 'hd) client res" where
  "run_client_helper self st cmd reply build_response =
     bindR (tell_store self (client_told st) cmd) (\<lambda>told.
     case reply of
       Dropped \<Rightarrow> Panic ExpectFailed
     | Now response \<Rightarrow>
         bindR (send_expect build_response (client_stream st) (Response response)) (\<lambda>s.
         Ret (st\<lparr>client_stream := s, client_told := told\<rparr>))
     | LaterDropped \<Rightarrow>
         bindR (send_expect MetadataHeaderResponse (client_stream st) Wait) (\<lambda>s. Panic ExpectFailed)
     | Later res \<Rightarrow>
         bindR (send_expect MetadataHeaderResponse (client_stream st) Wait) (\<lambda>s.
         let response = (case res of Some r \<Rightarrow> Response r | None \<Rightarrow> Reject) in
         bindR (send_expect build_response s response) (\<lambda>s.
         Ret (st\<lparr>client_stream := s, client_told := told\<rparr>))))"

text \<open>
  What the store answers during one turn. \<open>states\<close> are the graphs it sends to the subscriptions of
  the turn, the first to \<open>request_ecg_state\<close>.
\<close>

record ('h, 'g, 'id, 'hd) store_replies =
  reply_chan :: chan
  metadata_reply :: "'h metadata_header reply"
  merkle_reply :: "'h list reply"
  blocks_reply :: "bytes option list reply"
  states :: "('g, 'id, 'hd) ecg list"

definition request_ecg_state ::
    "('g, 'id :: linorder) dag_ops \<Rightarrow> ('d, 'g, 'id, 'hd) store_sync
     \<Rightarrow> ('h, 'd, 'id, 'hd) untyped_store_command list \<Rightarrow> ('h, 'g, 'id, 'hd) store_replies \<Rightarrow> 'id responder
     \<Rightarrow> (('g, 'id, 'hd) ecg \<times> 'id responder \<times> ('h, 'd, 'id, 'hd) untyped_store_command list) res option" where
  "request_ecg_state D self told a responder =
     bindL (Some (tell_store self told (SubscribeECG (sync_peer self) None (reply_chan a)))) (\<lambda>told.
     bindL (Some (expect (if states a = [] then None else Some (hd (states a))))) (\<lambda>state.
     bindL (update_our_unknown D state responder) (\<lambda>responder.
     Some (Ret (state, responder, told)))))"

text \<open>
  One turn of \<open>run_client\<close>. \<open>None\<close> is a turn that does not end: the responder still waits for a
  state of the store.
\<close>

definition client_turn ::
    "('g, 'id :: linorder) dag_ops \<Rightarrow> ('d, 'g, 'id, 'hd) store_sync \<Rightarrow> ('h, 'd, 'id, 'hd) client
     \<Rightarrow> ('h, 'g, 'id, 'hd) store_replies \<Rightarrow> ('h, 'd, 'id, 'hd) client res option" where
  "client_turn D self st a =
     bindL (Some (receive_expect try_into_request (client_stream st))) (\<lambda>(request, s).
     let st = st\<lparr>client_stream := s\<rparr> in
     case request of
       MetadataHeader \<Rightarrow>
         Some (run_client_helper self st (HandleMetadataPeerRequest (sync_peer self) (reply_chan a))
           (metadata_reply a) MetadataHeaderResponse)
     | MerkleHashes ranges \<Rightarrow>
         Some (run_client_helper self st (HandleMerklePeerRequest (sync_peer self) ranges (reply_chan a))
           (merkle_reply a) MerkleResponse)
     | InitialStateBlocks ranges \<Rightarrow>
         Some (run_client_helper self st (HandleBlockPeerRequest (sync_peer self) ranges (reply_chan a))
           (blocks_reply a) BlocksResponse)
     | ECGInitialSync their_tips \<Rightarrow>
         if client_ecg st \<noteq> None then Some (Panic TodoHit)
         else
           bindL (request_ecg_state D self (client_told st) a responder_new) (\<lambda>(state, responder, told).
           bindL (run_initial D their_tips state (tl (states a)) (responder, client_stream st)) (\<lambda>(responded, responder, s).
           if responded
           then Some (Ret \<lparr>client_ecg = Some responder, client_stream = s, client_told = told\<rparr>) else None))
     | ECGSync their_tips known \<Rightarrow>
         (case client_ecg st of
            None \<Rightarrow> Some (Panic TodoHit)
          | Some responder \<Rightarrow>
              bindL (request_ecg_state D self (client_told st) a responder) (\<lambda>(state, responder, told).
              bindL (run_round_responder D their_tips known state (tl (states a)) (responder, client_stream st))
                (\<lambda>(responded, responder, s).
              if responded
              then Some (Ret \<lparr>client_ecg = Some responder, client_stream = s, client_told = told\<rparr>) else None))))"

text \<open>The loop of \<open>run_client\<close>, for as many turns as there are answers.\<close>

definition run_client ::
    "('g, 'id :: linorder) dag_ops \<Rightarrow> ('d, 'g, 'id, 'hd) store_sync \<Rightarrow> ('h, 'id, 'hd) store_sync_msg stream
     \<Rightarrow> ('h, 'g, 'id, 'hd) store_replies list \<Rightarrow> ('h, 'd, 'id, 'hd) client res option" where
  "run_client D self s answers =
     foldL (client_turn D self) \<lparr>client_ecg = None, client_stream = s, client_told = []\<rparr> answers"

section \<open>Requests and answers\<close>

text \<open>What a command of the store asks on the stream, and of the store on the other side\<close>

fun asks_for :: "('g, 'id, 'hd) store_sync_command \<Rightarrow> 'id store_sync_request option" where
  "asks_for MetadataHeaderRequest = Some MetadataHeader"
| "asks_for (MerkleRequest rs) = Some (MerkleHashes rs)"
| "asks_for (InitialStateBlockRequest rs) = Some (InitialStateBlocks rs)"
| "asks_for (ECGSyncRequest _) = None"

fun asks_store :: "'d \<Rightarrow> chan \<Rightarrow> 'id store_sync_request \<Rightarrow> ('h, 'd, 'id, 'hd) untyped_store_command option" where
  "asks_store p c MetadataHeader = Some (HandleMetadataPeerRequest p c)"
| "asks_store p c (MerkleHashes rs) = Some (HandleMerklePeerRequest p rs c)"
| "asks_store p c (InitialStateBlocks rs) = Some (HandleBlockPeerRequest p rs c)"
| "asks_store p c _ = None"

text \<open>What the store gets back, when the other store answers at once\<close>

fun now :: "'a reply \<Rightarrow> 'a option" where
  "now (Now a) = Some a"
| "now _ = None"

fun answered ::
    "'d \<Rightarrow> ('h, 'g, 'id, 'hd) store_replies \<Rightarrow> ('g, 'id, 'hd) store_sync_command
     \<Rightarrow> ('h, 'd, 'id, 'hd) untyped_store_command option" where
  "answered p a MetadataHeaderRequest = map_option (ReceivedMetadata p) (now (metadata_reply a))"
| "answered p a (MerkleRequest rs) = map_option (ReceivedMerkleHashes p rs) (now (merkle_reply a))"
| "answered p a (InitialStateBlockRequest rs) = map_option (ReceivedInitialStateBlocks p rs) (now (blocks_reply a))"
| "answered p a (ECGSyncRequest _) = None"

lemma now_Some [simp]: "now r = Some a \<longleftrightarrow> r = Now a"
  by (cases r) auto


text \<open>The two tasks of a connection, and what the store of the answering side has\<close>

definition demo_stream :: "(protocol_error + (bytes, u32, test_header) store_sync_msg) list
    \<Rightarrow> (bytes, u32, test_header) store_sync_msg stream" where
  "demo_stream ms = \<lparr>incoming = ms, outgoing = [], is_open = True\<rparr>"

definition demo_client :: "(protocol_error + (bytes, u32, test_header) store_sync_msg) list
    \<Rightarrow> (bytes, nat, u32, test_header) client" where
  "demo_client ms = \<lparr>client_ecg = None, client_stream = demo_stream ms, client_told = []\<rparr>"

definition demo_server :: "(protocol_error + (bytes, u32, test_header) store_sync_msg) list
    \<Rightarrow> (bytes, nat, u32, test_header) server" where
  "demo_server ms = \<lparr>server_ecg = None, server_stream = demo_stream ms, server_told = []\<rparr>"

definition demo_asker :: "(nat, u32 list_graph, u32, test_header) store_sync" where
  "demo_asker = new_server 2 [] True"

definition demo_replies :: "bytes list reply \<Rightarrow> (bytes, u32 list_graph, u32, test_header) store_replies" where
  "demo_replies r = \<lparr>reply_chan = 5, metadata_reply = Dropped, merkle_reply = r, blocks_reply = Dropped, states = []\<rparr>"


section \<open>Waiting\<close>

fun later :: "('h, 'g, 'id, 'hd) store_replies \<Rightarrow> ('g, 'id, 'hd) store_sync_command \<Rightarrow> bool" where
  "later a MetadataHeaderRequest = (\<exists>x. metadata_reply a = Later x)"
| "later a (MerkleRequest rs) = (\<exists>x. merkle_reply a = Later x)"
| "later a (InitialStateBlockRequest rs) = (\<exists>x. blocks_reply a = Later x)"
| "later a (ECGSyncRequest _) = False"

text \<open>Waiting does not work yet: when the store on the other side has no answer at once, the task
  there says so with the message for metadata, whatever was asked, and answers later. The task
  that asked panics on the first of the two messages: on \<open>Wait\<close> itself for metadata, and on a
  message of the wrong kind for hashes and blocks.\<close>

theorem waiting_ends_the_task:
  assumes q: "asks_for cmd = Some q" and l: "later a cmd"
    and up: "send_chan_open cs" "is_open (client_stream cl)" "is_open s"
    and c: "incoming (client_stream cl) = Inr (Request q) # rest"
  shows "\<exists>cl' m. client_turn D cs cl a = Some (Ret cl') \<and>
    outgoing (client_stream cl') = outgoing (client_stream cl) @ [MetadataHeaderResponse Wait, m] \<and>
    server_turn ss (sv\<lparr>server_stream := s\<lparr>incoming := [Inr (MetadataHeaderResponse Wait), Inr m]\<rparr>\<rparr>) cmd =
      Panic (if q = MetadataHeader then TodoHit else ExpectFailed)"
  using assms
  by (cases cmd; cases s; cases "client_stream cl")
    (auto simp: client_turn_def receive_expect_def receive_def run_client_helper_def tell_store_def
      send_expect_def send_def server_turn_def ask_def Let_def)

lemma waiting_ends_the_task_witness:
  "\<exists>cl' m. client_turn list_dag (new_client 1 True) (demo_client [Inr (Request (MerkleHashes [(1, 3)]))])
      (demo_replies (Later (Some [[7], [8]]))) = Some (Ret cl') \<and>
    outgoing (client_stream cl') = [MetadataHeaderResponse Wait, m] \<and>
    server_turn demo_asker (demo_server [Inr (MetadataHeaderResponse Wait), Inr m]) (MerkleRequest [(1, 3)])
      = Panic ExpectFailed"
  using waiting_ends_the_task [where cmd = "MerkleRequest [(1, 3)]" and q = "MerkleHashes [(1, 3)]"
      and a = "demo_replies (Later (Some [[7], [8]]))" and cs = "new_client 1 True"
      and cl = "demo_client [Inr (Request (MerkleHashes [(1, 3)]))]" and s = "demo_stream []" and rest = "[]"
      and D = list_dag and ss = demo_asker and sv = "demo_server []"]
  by (simp add: demo_client_def demo_server_def demo_stream_def demo_replies_def new_client_def new_server_def demo_asker_def)

end
