(* ===== verification/Download.thy ===== *)
theory Download
  imports StoreBehaviour StorePeer
begin

text \<open>
  A download from start to end: a store that was created for an id, and one peer that has the
  store and answers. The answers are what the handlers of the publisher's store give, so the
  theorem is about both sides of \<open>ossa-core/src/store/mod.rs\<close>; \<open>StorePeer\<close> shows that the tasks
  between the two stores carry requests and answers unchanged.
\<close>

section \<open>Hashes of the publisher\<close>

text \<open>A partial tree that holds hashes of the tree \<open>ms\<close> only\<close>

definition agrees :: "'h list \<Rightarrow> 'h potential list \<Rightarrow> bool" where
  "agrees ms ns \<longleftrightarrow>
     length ns = length ms \<and>
     (\<forall>i < length ms. ns ! i = PNone \<or> ns ! i = Unverified (ms ! i) \<or> ns ! i = Verified (ms ! i))"

definition present :: "'h potential list \<Rightarrow> nat set" where
  "present ns = {i. i < length ns \<and> ns ! i \<noteq> PNone}"

lemma missing_present: "missing_indices u = filter (\<lambda>i. i \<notin> present (nodes u)) [0 ..< length (nodes u)]"
proof -
  have "is_none x \<longleftrightarrow> x = PNone" for x :: "'a potential" by (cases x) auto
  then show ?thesis unfolding missing_indices_def present_def by (intro filter_cong [OF refl]) simp
qed

lemma agrees_nth:
  assumes "agrees ms ns" "i < length ns"
  shows "ns ! i = Verified a \<Longrightarrow> a = ms ! i" "ns ! i = Unverified a \<Longrightarrow> a = ms ! i"
  using assms by (force simp: agrees_def)+

lemma agrees_verify:
  assumes "agrees ms ns" "ns ! i = Unverified a"
  shows "agrees ms (ns[i := Verified a])" "present (ns[i := Verified a]) = present ns"
proof -
  have "a = ms ! i" if "i < length ms" using assms that by (force simp: agrees_def)
  with assms show "agrees ms (ns[i := Verified a])"
    by (cases "i < length ms") (auto simp: agrees_def nth_list_update)
  show "present (ns[i := Verified a]) = present ns"
    using assms(2) by (cases "i < length ns") (auto simp: present_def nth_list_update split: if_splits)
qed

lemma validate_children_agrees:
  assumes "validate_children K ns i = Some (Ret (b, ns'))" "agrees ms ns" "branches_ok K ms"
  shows "agrees ms ns' \<and> present ns' = present ns"
  using assms(1,2)
proof (induction rule: validate_children_induct)
  case (dropped ns i e x y)
  then have "ms ! i = hash_pair K (ms ! (2 * i + 1)) (ms ! (2 * i + 2))"
    using assms(3) by (simp add: branches_ok_def agrees_def)
  moreover have "e = ms ! i" "x = ms ! (2 * i + 1)" "y = ms ! (2 * i + 2)"
    using agrees_nth [OF dropped.prems] dropped.hyps by simp_all
  ultimately show ?case using dropped.hyps by simp
next
  case (verified ns i x y n1 n2)
  have "agrees ms (ns[2 * i + 1 := Verified x, 2 * i + 2 := Verified y])"
    "present (ns[2 * i + 1 := Verified x, 2 * i + 2 := Verified y]) = present ns"
    using agrees_verify [OF verified.prems verified.hyps(1)] verified.hyps(2)
      agrees_verify [of ms "ns[2 * i + 1 := Verified x]" "2 * i + 2" y] by simp_all
  with verified.IH show ?case by simp
qed simp

lemma set_node_agrees:
  assumes "set_node K t i (ms ! i) = Some (Ret (b, t'))" "agrees ms (nodes t)" "branches_ok K ms" "i < length ms"
  shows "agrees ms (nodes t') \<and> present (nodes t') = insert i (present (nodes t))"
proof (cases "nodes t ! i = PNone")
  case True
  let ?ns = "(nodes t)[i := Unverified (ms ! i)]"
  from assms(1,2,4) True obtain p where p: "validate_children K ?ns ((i - 1) div 2) = Some (Ret p)" "nodes t' = snd p"
    by (auto simp: set_node_def agrees_def Let_def split: if_splits)
  have ns: "agrees ms ?ns" "present ?ns = insert i (present (nodes t))"
    using assms(2,4) by (auto simp: agrees_def present_def nth_list_update)
  obtain b' ns' where "p = (b', ns')" by force
  with validate_children_agrees [of K ?ns "(i - 1) div 2" b' ns' ms] p ns assms(3) show ?thesis by simp
next
  case False
  with assms have "t' = t" by (auto simp: set_node_def agrees_def split: potential.splits)
  with False assms(2,4) show ?thesis by (auto simp: present_def agrees_def)
qed

lemma set_hashes_agrees:
  assumes "set_hashes K t (map (\<lambda>i. (i, ms ! i)) is) = Some (Ret t')" "agrees ms (nodes t)" "branches_ok K ms"
    "set is \<subseteq> {..< length ms}"
  shows "agrees ms (nodes t') \<and> present (nodes t') = set is \<union> present (nodes t)"
  using assms
proof (induction "is" arbitrary: t)
  case (Cons i "is")
  then obtain b t1 where t1: "set_node K t i (ms ! i) = Some (Ret (b, t1))"
    "set_hashes K t1 (map (\<lambda>i. (i, ms ! i)) is) = Some (Ret t')" by auto
  from set_node_agrees [OF t1(1) Cons.prems(2,3)] Cons.prems(4) have
    "agrees ms (nodes t1)" "present (nodes t1) = insert i (present (nodes t))" by auto
  with Cons.IH [OF t1(2) _ Cons.prems(3)] Cons.prems(4) show ?case by auto
qed simp


section \<open>Blocks of the publisher\<close>

definition holds :: "bytes list \<Rightarrow> bytes option list \<Rightarrow> bool" where
  "holds cs bs \<longleftrightarrow> length bs = length cs \<and> (\<forall>i < length cs. bs ! i = None \<or> bs ! i = Some (cs ! i))"

lemma set_blocks_holds:
  assumes "holds cs bs" "\<And>i. i < length cs \<Longrightarrow> validate_chunk K t i (cs ! i) = Ret True" "set is \<subseteq> {..< length cs}"
  shows "\<exists>bs'. foldR (set_block K t) bs (map (\<lambda>i. (i, Some (cs ! i))) is) = Ret bs' \<and> holds cs bs' \<and>
    (\<forall>i < length cs. bs' ! i = None \<longleftrightarrow> bs ! i = None \<and> i \<notin> set is)"
  using assms(1,3)
proof (induction "is" arbitrary: bs)
  case (Cons i "is")
  let ?bs = "bs[i := Some (cs ! i)]"
  have i: "i < length cs" "i < length bs" using Cons.prems by (auto simp: holds_def)
  have step: "set_block K t bs (i, Some (cs ! i)) = Ret ?bs"
  proof (cases "bs ! i = None")
    case True
    then show ?thesis using i assms(2) by (simp add: set_block_def)
  next
    case False
    then have b: "bs ! i = Some (cs ! i)" using Cons.prems(1) i by (auto simp: holds_def)
    then have same: "?bs = bs" by (metis list_update_id)
    have "set_block K t bs (i, Some (cs ! i)) = Ret bs" using i(2) by (simp add: set_block_def b)
    then show ?thesis by (simp only: same)
  qed
  have h: "holds cs ?bs" using Cons.prems(1) i by (auto simp: holds_def nth_list_update)
  from Cons.IH [OF h] Cons.prems(2) obtain bs' where
    bs': "foldR (set_block K t) ?bs (map (\<lambda>i. (i, Some (cs ! i))) is) = Ret bs'" "holds cs bs'"
      "\<forall>j < length cs. bs' ! j = None \<longleftrightarrow> ?bs ! j = None \<and> j \<notin> set is" by auto
  have "\<forall>j < length cs. bs' ! j = None \<longleftrightarrow> bs ! j = None \<and> j \<notin> set (i # is)"
    using bs'(3) i by (auto simp: nth_list_update)
  with bs' step show ?case by auto
qed simp

section \<open>A published store and a store that downloads it\<close>

definition publishes ::
    "('s, 'h, 'g, 'id, 'hd, 't, 'b, 'op) store_ops \<Rightarrow> 'h \<Rightarrow> 'h metadata_header \<Rightarrow> 'h merkle_tree \<Rightarrow> bytes list \<Rightarrow> bool" where
  "publishes E sid md t cs \<longleftrightarrow>
     wf_metadata md \<and> validate_store_id (so_hash E) md sid \<and> block_count md = length cs \<and> cs \<noteq> [] \<and>
     md_merkle_root md = nodes t ! 0 \<and> tree_over (so_hash E) (map (hash_chunk (so_hash E)) cs) t \<and>
     so_from_slice E (concat cs) \<noteq> None"

text \<open>What the downloading store holds is the publisher's, and how much is still to come\<close>

definition on_track ::
    "('s, 'h, 'g, 'id, 'hd, 't, 'b, 'op) store_ops \<Rightarrow> 'h metadata_header \<Rightarrow> 'h merkle_tree \<Rightarrow> bytes list
     \<Rightarrow> ('h, 'g, 'id, 'hd, 't) state_machine \<Rightarrow> bool" where
  "on_track E md t cs sm \<longleftrightarrow>
     (case sm of
        DownloadingMetadata _ \<Rightarrow> True
      | DownloadingMerkle md' p \<Rightarrow> md' = md \<and> agrees (nodes t) (nodes p)
      | DownloadingInitialState md' t' bs \<Rightarrow> md' = md \<and> t' = t \<and> holds cs bs
      | SyncingStore md' t' init ecg ds \<Rightarrow>
          md' = md \<and> t' = t \<and> init = concat cs \<and> ecg = ecg_new (so_dag E) \<and>
          so_from_slice E init = Some (latest_state ds))"

definition remaining :: "bytes list \<Rightarrow> ('h, 'g, 'id, 'hd, 't) state_machine \<Rightarrow> nat" where
  "remaining cs sm =
     (case sm of
        DownloadingMetadata _ \<Rightarrow> 3 * length cs
      | DownloadingMerkle _ p \<Rightarrow> length (missing_indices p) + length cs
      | DownloadingInitialState _ _ bs \<Rightarrow> length (needed_blocks bs)
      | SyncingStore _ _ _ _ _ \<Rightarrow> 0)"

definition synced :: "('h, 'g, 'id, 'hd, 't) state_machine \<Rightarrow> bool" where
  "synced sm \<longleftrightarrow> (case sm of SyncingStore _ _ _ _ _ \<Rightarrow> True | _ \<Rightarrow> False)"

text \<open>The only peer has nothing outstanding; nobody waits for hashes or blocks of this store.\<close>

definition idle :: "('h, 'd, 'g, 'id, 'hd, 't) store \<Rightarrow> 'd \<Rightarrow> chan \<Rightarrow> bool" where
  "idle st p c \<longleftrightarrow>
     (\<exists>i. peers st = [(p, \<lparr>incoming_status = i, outgoing_status = Syncing \<lparr>sender_peer = c, is_outstanding = False\<rparr>\<rparr>)]) \<and>
     merkle_subscribers st = [] \<and> block_subscribers st = []"

text \<open>The only peer has been sent the command \<open>q\<close>, the last thing the store sent.\<close>

definition waiting ::
    "('h, 'd, 'g, 'id, 'hd, 't) store \<Rightarrow> 'd \<Rightarrow> chan \<Rightarrow> ('g, 'id, 'hd) store_sync_command \<Rightarrow> bool" where
  "waiting st p c q \<longleftrightarrow>
     (\<exists>i. peers st = [(p, \<lparr>incoming_status = i, outgoing_status = Syncing \<lparr>sender_peer = c, is_outstanding = True\<rparr>\<rparr>)]) \<and>
     merkle_subscribers st = [] \<and> block_subscribers st = [] \<and> (\<exists>out. outbox st = out @ [PeerCommand c q])"

text \<open>The command asks for something the store misses.\<close>

definition asks_missing :: "('h, 'g, 'id, 'hd, 't) state_machine \<Rightarrow> ('g, 'id, 'hd) store_sync_command \<Rightarrow> bool" where
  "asks_missing sm q \<longleftrightarrow>
     (case sm of
        DownloadingMetadata _ \<Rightarrow> q = MetadataHeaderRequest
      | DownloadingMerkle _ p \<Rightarrow>
          \<exists>rs. q = MerkleRequest rs \<and> expand_ranges rs \<noteq> [] \<and> set (expand_ranges rs) \<subseteq> set (missing_indices p)
      | DownloadingInitialState _ _ bs \<Rightarrow>
          \<exists>rs. q = InitialStateBlockRequest rs \<and> expand_ranges rs \<noteq> [] \<and> set (expand_ranges rs) \<subseteq> set (needed_blocks bs)
      | SyncingStore _ _ _ _ _ \<Rightarrow> True)"

section \<open>The next request\<close>

lemma shuffle_single: "mset (ord 1) = mset [0 ..< 1] \<Longrightarrow> shuffle_with ord [x] = [x]"
  by (simp add: shuffle_with_def)

text \<open>The first of the shuffled batches of missing indices\<close>

lemma first_batch:
  assumes "shuffles W" "is \<noteq> []" "0 < n"
  shows "\<exists>js rest. shuffle_with (request_order W) (chunks n is) = js # rest \<and> js \<noteq> [] \<and> set js \<subseteq> set is"
proof -
  have s: "set (shuffle_with (request_order W) (chunks n is)) = set (chunks n is)"
    using assms(1) by (intro set_shuffle) (simp add: shuffles_def)
  have "chunks n is \<noteq> []" using assms(2) by (cases "is") auto
  with s obtain js rest where js: "shuffle_with (request_order W) (chunks n is) = js # rest"
    by (cases "shuffle_with (request_order W) (chunks n is)") auto
  then have "js \<in> set (chunks n is)" using s by auto
  with chunks_short [OF assms(3) this] set_chunks [OF assms(3), of "is"] js show ?thesis by blast
qed

lemma sync_command_single:
  assumes "sm_ok E sid sm" "shuffles W"
  shows "\<exists>q. sync_commands W sm [p] = Ret [(p, q)] \<and> asks_missing sm q"
proof (cases sm)
  case (DownloadingMerkle md t)
  then have ne: "missing_indices t \<noteq> []" using assms(1) by (simp add: sm_ok_def)
  then have "chunks merkle_request_limit (missing_indices t) \<noteq> []" by (cases "missing_indices t") auto
  with first_batch [OF assms(2) ne limits_pos(1)] DownloadingMerkle show ?thesis
    by (auto simp: sync_commands_def asks_missing_def Let_def expand_compressed)
next
  case (DownloadingInitialState md t bs)
  then obtain i where "i < length bs" "bs ! i = None" using assms(1) by (auto simp: sm_ok_def in_set_conv_nth)
  then have "i \<in> set (needed_blocks bs)" by (simp add: needed_blocks_def)
  then have ne: "needed_blocks bs \<noteq> []" by auto
  then have "chunks block_request_limit (needed_blocks bs) \<noteq> []" by (cases "needed_blocks bs") auto
  with first_batch [OF assms(2) ne limits_pos(2)] DownloadingInitialState show ?thesis
    by (auto simp: sync_commands_def asks_missing_def Let_def expand_compressed)
qed (auto simp: sync_commands_def asks_missing_def)

lemma next_request:
  assumes st: "sm_ok E sid (state_machine st)" and idle: "idle st p c" and W: "shuffles W" and alive: "\<And>c. alive W c"
  shows "\<exists>st' q. send_sync_requests W st = Ret st' \<and> state_machine st' = state_machine st \<and>
    waiting st' p c q \<and> asks_missing (state_machine st) q"
proof -
  from idle obtain i where ps: "peers st = [(p, \<lparr>incoming_status = i, outgoing_status = Syncing \<lparr>sender_peer = c, is_outstanding = False\<rparr>\<rparr>)]"
    and subs: "merkle_subscribers st = []" "block_subscribers st = []" by (auto simp: idle_def)
  have "ready_peers st = [p]" by (simp add: ready_peers_def ps is_ready_for_sync_def)
  then have r: "shuffle_with (peer_order W) (ready_peers st) = [p]"
    using W shuffle_single [of "peer_order W" p] by (simp add: shuffles_def)
  from sync_command_single [OF st W, of p] obtain q where
    q: "sync_commands W (state_machine st) [p] = Ret [(p, q)]" "asks_missing (state_machine st) q" by blast
  let ?st = "st\<lparr>peers := [(p, \<lparr>incoming_status = i, outgoing_status = Syncing \<lparr>sender_peer = c, is_outstanding = True\<rparr>\<rparr>)],
      outbox := outbox st @ [PeerCommand c q]\<rparr>"
  have "send_sync_requests W st = Ret ?st"
    by (simp add: send_sync_requests_def r q send_command_def ps emit_def alive)
  with q(2) subs show ?thesis by (intro exI [of _ ?st] exI [of _ q]) (auto simp: waiting_def)
qed


section \<open>Sending leaves the rest alone\<close>

definition quiet :: "('h, 'd, 'g, 'id, 'hd, 't) store \<Rightarrow> ('h, 'd, 'g, 'id, 'hd, 't) store \<Rightarrow> bool" where
  "quiet st st' \<longleftrightarrow> peers st' = peers st \<and> state_machine st' = state_machine st \<and>
     merkle_subscribers st' = merkle_subscribers st \<and> block_subscribers st' = block_subscribers st"

lemma quiet_loop:
  assumes "\<And>s x. x \<in> set xs \<Longrightarrow> \<exists>s'. f s x = Ret s' \<and> quiet s s'"
  shows "\<exists>s'. foldR f s xs = Ret s' \<and> quiet s s'"
proof (rule foldR_invariant [where I = "quiet s"])
  show "quiet s s" by (simp add: quiet_def)
  show "\<exists>b. f a x = Ret b \<and> quiet s b" if "x \<in> set xs" "quiet s a" for a x
    using assms [OF that(1), of a] that(2) by (auto simp: quiet_def)
qed

lemma update_listeners_quiet:
  assumes "\<And>c. alive W c"
  shows "\<exists>st'. update_listeners W st latest ecg from = Ret st' \<and> quiet st st'"
proof -
  have "\<exists>s1. foldR (tell_listener W latest ecg) st (listeners st) = Ret s1 \<and> quiet st s1"
    by (rule quiet_loop) (simp add: tell_listener_def emit_def assms quiet_def)
  then obtain s1 where s1: "foldR (tell_listener W latest ecg) st (listeners st) = Ret s1" "quiet st s1" by blast
  have "\<exists>s2. foldR (tell_ecg_subscriber W ecg from) (s1\<lparr>ecg_subscribers := []\<rparr>) (ecg_subscribers s1) = Ret s2 \<and>
      quiet (s1\<lparr>ecg_subscribers := []\<rparr>) s2"
    by (rule quiet_loop) (simp add: tell_ecg_subscriber_def emit_def assms quiet_def)
  with s1 show ?thesis by (auto simp: update_listeners_def quiet_def)
qed

section \<open>What an answer does\<close>

lemma tree_nodes:
  assumes "publishes E sid md t cs"
  shows "length (nodes t) = 2 * length cs - 1" "branches_ok (so_hash E) (nodes t)" "0 < length cs"
    "\<And>i. i < length cs \<Longrightarrow> validate_chunk (so_hash E) t i (cs ! i) = Ret True"
proof -
  have t: "tree_over (so_hash E) (map (hash_chunk (so_hash E)) cs) t" using assms by (simp add: publishes_def)
  then show "length (nodes t) = 2 * length cs - 1" "branches_ok (so_hash E) (nodes t)" by (simp_all add: tree_over_def)
  show "validate_chunk (so_hash E) t i (cs ! i) = Ret True" if "i < length cs" for i
    using validate_chunk_tree [OF t, of i "cs ! i"] that by simp
  show "0 < length cs" using assms by (simp add: publishes_def)
qed

lemma needed_new: "length (needed_blocks (replicate n None)) = n"
  by (simp add: needed_blocks_def)

text \<open>A completed tree is the publisher's, and the download of the blocks begins.\<close>

lemma complete_tree:
  assumes pub: "publishes E sid md t cs" and a: "agrees (nodes t) (nodes p)" and full: "missing_indices p = []"
    and ok: "merkle_ok (so_hash E) sid md p"
  shows "try_complete p = Some t"
proof -
  have "partial_ok (so_hash E) {} (md_merkle_root md) (nodes p)" using ok by (simp add: merkle_ok_def)
  from try_complete_iff [OF this] full obtain u where u: "try_complete p = Some u" by blast
  then have p: "nodes p = map Verified (nodes u)" by (simp add: try_complete_Some)
  have "nodes u = nodes t" by (rule nth_equalityI) (use a in \<open>auto simp: agrees_def p\<close>)
  with u show ?thesis by simp
qed

lemma merkle_progress:
  fixes st :: "('h, 'd :: linorder, 'g, 'id, 'hd, 't) store"
  assumes pub: "publishes E sid md t cs" and sm: "state_machine st = DownloadingMerkle md p"
    and ok: "merkle_ok (so_hash E) sid md p" and a: "agrees (nodes t) (nodes p)" and idle: "idle st q c"
  shows "\<exists>st'. update_state_to_downloading_initial_state E W st q = Ret st' \<and> idle st' q c \<and>
    sm_ok E sid (state_machine st') \<and> on_track E md t cs (state_machine st') \<and>
    remaining cs (state_machine st') = length (missing_indices p) + length cs"
proof (cases "missing_indices p = []")
  case False
  have "partial_ok (so_hash E) {} (md_merkle_root md) (nodes p)" using ok by (simp add: merkle_ok_def)
  from try_complete_iff [OF this] False have "try_complete p = None" by (cases "try_complete p") auto
  then have "update_state_to_downloading_initial_state E W st q = Ret st"
    by (simp add: update_state_to_downloading_initial_state_def sm)
  with sm ok a idle False show ?thesis by (simp add: sm_ok_def on_track_def remaining_def)
next
  case True
  note c = complete_tree [OF pub a True ok]
  have n: "block_count md = length cs" using pub by (simp add: publishes_def)
  then have "md_initial_state_size md \<noteq> 0" using tree_nodes(3) [OF pub] block_count_0 [of md] by auto
  with c idle have r: "update_state_to_downloading_initial_state E W st q =
      Ret (st\<lparr>state_machine := DownloadingInitialState md t (replicate (length cs) None), merkle_subscribers := []\<rparr>)"
    by (simp add: update_state_to_downloading_initial_state_def sm idle_def n Let_def)
  from update_state_to_downloading_initial_state_ok [OF r sm ok]
  have "sm_ok E sid (DownloadingInitialState md t (replicate (length cs) None) :: ('h, 'g, 'id, 'hd, 't) state_machine)" by simp
  with r idle True show ?thesis
    by (simp add: on_track_def holds_def remaining_def needed_new idle_def)
qed


text \<open>The peer is ready again before its answer is looked at.\<close>

lemma waiting_ready:
  assumes "waiting st p c q"
  shows "\<exists>i. update_outgoing_peer_to_ready st p = Ret (st\<lparr>peers := [(p, \<lparr>incoming_status = i,
      outgoing_status = Syncing \<lparr>sender_peer = c, is_outstanding = False\<rparr>\<rparr>)]\<rparr>) \<and>
    idle (st\<lparr>peers := [(p, \<lparr>incoming_status = i,
      outgoing_status = Syncing \<lparr>sender_peer = c, is_outstanding = False\<rparr>\<rparr>)]\<rparr>) p c"
  using assms by (auto simp: waiting_def update_outgoing_peer_to_ready_def idle_def)

definition progress ::
    "('s, 'h, 'g, 'id, 'hd, 't, 'b, 'op) store_ops \<Rightarrow> 'h \<Rightarrow> 'h metadata_header \<Rightarrow> 'h merkle_tree \<Rightarrow> bytes list
     \<Rightarrow> 'd \<Rightarrow> chan \<Rightarrow> ('h, 'd, 'g, 'id, 'hd, 't) store \<Rightarrow> ('h, 'd, 'g, 'id, 'hd, 't) store \<Rightarrow> bool" where
  "progress E sid md t cs p c st st' \<longleftrightarrow>
     idle st' p c \<and> sm_ok E sid (state_machine st') \<and> on_track E md t cs (state_machine st') \<and>
     remaining cs (state_machine st') < remaining cs (state_machine st)"

lemma metadata_progress:
  fixes st :: "('h, 'd :: linorder, 'g, 'id, 'hd, 't) store"
  assumes pub: "publishes E sid md t cs" and sm: "state_machine st = DownloadingMetadata sid"
    and wait: "waiting st p c q" and alive: "\<And>c. alive W c"
  shows "\<exists>st'. handle_received_metadata E W st p md = Ret st' \<and> progress E sid md t cs p c st st'"
proof -
  from waiting_ready [OF wait] obtain s where
    s: "update_outgoing_peer_to_ready st p = Ret s" "idle s p c" "state_machine s = state_machine st" by auto
  have n: "block_count md = length cs" and v: "validate_store_id (so_hash E) md sid" "wf_metadata md"
    using pub by (simp_all add: publishes_def)
  note T = tree_nodes [OF pub]
  from partial_new [of "block_count md" "md_merkle_root md" "so_hash E"] T(3) block_count_fits [of md] n
  obtain u where u: "new_with_capacity (md_merkle_root md) (length cs) = Ret u" "length (nodes u) = 2 * length cs - 1"
    "partial_ok (so_hash E) {} (md_merkle_root md) (nodes u)" by auto
  let ?ns = "(replicate (2 * length cs - 1) PNone)[0 := Verified (nodes t ! 0)]"
  have un: "nodes u = ?ns"
    using u(1) pub by (auto simp: new_with_capacity_def node_count_for_leaf_count_def mul_u64_def sub_u64_def
        store_at_def publishes_def split: if_splits)
  have a: "agrees (nodes t) (nodes u)"
    unfolding un using T(1,3) by (auto simp: agrees_def nth_list_update)
  have miss: "length (missing_indices u) = 2 * length cs - 2"
  proof -
    have "missing_indices u = [i \<leftarrow> [0 ..< 2 * length cs - 1]. 1 \<le> i]"
      unfolding missing_indices_def un by (auto intro!: filter_cong simp: nth_list_update split: if_split_asm)
    also have "\<dots> = [1 ..< 2 * length cs - 1]" unfolding filter_upt_ge by simp
    finally show ?thesis by simp
  qed
  let ?s = "s\<lparr>state_machine := DownloadingMerkle md u, metadata_subscribers := []\<rparr>"
  have "\<exists>s1. foldR (wake_metadata_subscriber W p md) ?s (metadata_subscribers s) = Ret s1 \<and> quiet ?s s1"
    by (rule quiet_loop) (simp add: wake_metadata_subscriber_def emit_def alive quiet_def)
  then obtain s1 where s1: "foldR (wake_metadata_subscriber W p md) ?s (metadata_subscribers s) = Ret s1" "quiet ?s s1"
    by blast
  have id1: "idle s1 p c" "state_machine s1 = DownloadingMerkle md u" using s1(2) s(2) by (auto simp: idle_def quiet_def)
  have m: "merkle_ok (so_hash E) sid md u" using u v n T(3) by (simp add: merkle_ok_def)
  have sid: "store_id_of E s = sid" by (simp add: store_id_of_def s(3) sm)
  have less: "length (missing_indices u) + length cs < remaining cs (state_machine st)"
    using miss T(3) by (simp add: remaining_def sm)
  have r: "handle_received_metadata E W st p md =
      (if block_count md \<le> 1 then update_state_to_downloading_initial_state E W s1 p else Ret s1)"
    using s1(1) u(1) by (simp add: handle_received_metadata_def s(1) sid v n Let_def)
  show ?thesis
  proof (cases "block_count md \<le> 1")
    case True
    with merkle_progress [OF pub id1(2) m a id1(1), of W] r less show ?thesis by (auto simp: progress_def)
  next
    case False
    then have "missing_indices u \<noteq> []" using miss n by auto
    with r False id1 m a less show ?thesis by (auto simp: progress_def sm_ok_def on_track_def remaining_def)
  qed
qed

lemma merkle_hashes_progress:
  fixes st :: "('h, 'd :: linorder, 'g, 'id, 'hd, 't) store"
  assumes pub: "publishes E sid md t cs" and sm: "state_machine st = DownloadingMerkle md u"
    and ok: "merkle_ok (so_hash E) sid md u" and a: "agrees (nodes t) (nodes u)"
    and wait: "waiting st p c q" and rs: "expand_ranges rs \<noteq> []" "set (expand_ranges rs) \<subseteq> set (missing_indices u)"
  shows "\<exists>st'. handle_received_merkle_hashes E W st p rs (map ((!) (nodes t)) (expand_ranges rs)) = Some (Ret st') \<and>
    progress E sid md t cs p c st st'"
proof -
  from waiting_ready [OF wait] obtain s where
    s: "update_outgoing_peer_to_ready st p = Ret s" "idle s p c" "state_machine s = DownloadingMerkle md u"
    using sm by auto
  note T = tree_nodes [OF pub]
  let ?is = "expand_ranges rs"
  have zip: "zip ?is (map ((!) (nodes t)) ?is) = map (\<lambda>i. (i, nodes t ! i)) ?is"
    by (simp add: zip_map2 zip_same_conv_map)
  have len: "length (nodes u) = length (nodes t)" using a by (simp add: agrees_def)
  have part: "partial_ok (so_hash E) {} (md_merkle_root md) (nodes u)" using ok by (simp add: merkle_ok_def)
  from set_hashes_ok [OF part] obtain u' where
    u': "set_hashes (so_hash E) u (map (\<lambda>i. (i, nodes t ! i)) ?is) = Some (Ret u')"
      "partial_ok (so_hash E) {} (md_merkle_root md) (nodes u')" "length (nodes u') = length (nodes u)" by blast
  have inb: "set ?is \<subseteq> {..< length (nodes t)}" using rs(2) len by (auto simp: missing_indices_def)
  from set_hashes_agrees [OF u'(1) a T(2) inb] have
    a': "agrees (nodes t) (nodes u')" "present (nodes u') = set ?is \<union> present (nodes u)" by auto
  have m': "merkle_ok (so_hash E) sid md u'" using ok u' by (simp add: merkle_ok_def)
  have "missing_indices u' = filter (\<lambda>i. i \<notin> set ?is) (missing_indices u)"
    by (simp add: missing_present a'(2) u'(3) conj_commute)
  moreover obtain i where "i \<in> set ?is" using rs(1) by (cases ?is) auto
  ultimately have less: "length (missing_indices u') < length (missing_indices u)"
    using rs(2) by (auto intro!: length_filter_less)
  let ?s = "s\<lparr>state_machine := DownloadingMerkle md u'\<rparr>"
  have "idle ?s p c" "state_machine ?s = DownloadingMerkle md u'" using s(2) by (simp_all add: idle_def)
  from merkle_progress [OF pub this(2) m' a'(1) this(1), of W] obtain st' where
    st': "update_state_to_downloading_initial_state E W ?s p = Ret st'" "idle st' p c"
      "sm_ok E sid (state_machine st')" "on_track E md t cs (state_machine st')"
      "remaining cs (state_machine st') = length (missing_indices u') + length cs" by blast
  have "handle_received_merkle_hashes E W st p rs (map ((!) (nodes t)) ?is) = Some (Ret st')"
    by (simp add: handle_received_merkle_hashes_def s(1,3) zip u'(1) st'(1))
  with st' less sm show ?thesis by (auto simp: progress_def remaining_def)
qed


lemma update_state_to_syncing_idle:
  fixes st :: "('h, 'd :: linorder, 'g, 'id, 'hd, 't) store"
  assumes sm: "state_machine st = DownloadingInitialState md t (map Some cs)" and idle: "idle st p c"
    and x: "so_from_slice E (concat cs) = Some x" and alive: "\<And>c. alive W c"
  shows "\<exists>st'. update_state_to_syncing E W st p = Ret st' \<and> idle st' p c \<and>
    state_machine st' = SyncingStore md t (concat cs) (ecg_new (so_dag E)) \<lparr>latest_state = x, latest_headers = {}\<rparr>"
proof -
  have c: "map (case_option [] (\<lambda>b. b)) (map Some cs) = cs" by (simp add: comp_def)
  let ?sm = "SyncingStore md t (concat cs) (ecg_new (so_dag E)) \<lparr>latest_state = x, latest_headers = {}\<rparr>"
  let ?st = "st\<lparr>state_machine := ?sm\<rparr>"
  from update_listeners_quiet [OF alive, of ?st x "ecg_new (so_dag E)" "Some p"] obtain s1 where
    s1: "update_listeners W ?st x (ecg_new (so_dag E)) (Some p) = Ret s1" "quiet ?st s1" by blast
  have "block_subscribers s1 = []" using s1(2) idle by (simp add: quiet_def idle_def)
  then have "update_state_to_syncing E W st p = Ret (s1\<lparr>block_subscribers := []\<rparr>)"
    using s1(1) by (simp add: update_state_to_syncing_def sm c x Let_def del: map_map)
  with s1(2) idle show ?thesis by (auto simp: quiet_def idle_def)
qed

lemma blocks_progress:
  fixes st :: "('h, 'd :: linorder, 'g, 'id, 'hd, 't) store"
  assumes pub: "publishes E sid md t cs" and sm: "state_machine st = DownloadingInitialState md t bs"
    and ok: "initial_ok (so_hash E) sid md t bs" and h: "holds cs bs" and wait: "waiting st p c q"
    and rs: "expand_ranges rs \<noteq> []" "set (expand_ranges rs) \<subseteq> set (needed_blocks bs)" and alive: "\<And>c. alive W c"
  shows "\<exists>st'. handle_received_initial_state_blocks E W st p rs (map (\<lambda>i. Some (cs ! i)) (expand_ranges rs)) = Ret st' \<and>
    progress E sid md t cs p c st st'"
proof -
  from waiting_ready [OF wait] obtain s where
    s: "update_outgoing_peer_to_ready st p = Ret s" "idle s p c" "state_machine s = DownloadingInitialState md t bs"
    using sm by auto
  let ?is = "expand_ranges rs"
  have zip: "zip ?is (map (\<lambda>i. Some (cs ! i)) ?is) = map (\<lambda>i. (i, Some (cs ! i))) ?is"
    by (simp add: zip_map2 zip_same_conv_map)
  have len: "length bs = length cs" using h by (simp add: holds_def)
  have inb: "set ?is \<subseteq> {..< length cs}" using rs(2) len by (auto simp: needed_blocks_def)
  from set_blocks_holds [OF h tree_nodes(4) [OF pub] inb] obtain bs' where
    bs': "foldR (set_block (so_hash E) t) bs (map (\<lambda>i. (i, Some (cs ! i))) ?is) = Ret bs'" "holds cs bs'"
      "\<And>i. i < length cs \<Longrightarrow> bs' ! i = None \<longleftrightarrow> bs ! i = None \<and> i \<notin> set ?is" by blast
  have "blocks_validated (so_hash E) t (block_count md) bs'"
    by (rule foldR_returned [OF bs'(1)]) (use ok set_block_validated in \<open>auto simp: initial_ok_def\<close>)
  with ok have ok': "initial_ok (so_hash E) sid md t bs'" by (simp add: initial_ok_def)
  have "needed_blocks bs' = filter (\<lambda>i. i \<notin> set ?is) (needed_blocks bs)"
    using bs'(2,3) len unfolding needed_blocks_def filter_filter by (intro filter_cong) (auto simp: holds_def)
  moreover obtain i where "i \<in> set ?is" using rs(1) by (cases ?is) auto
  ultimately have less: "length (needed_blocks bs') < length (needed_blocks bs)"
    using rs(2) by (auto intro!: length_filter_less)
  let ?s = "s\<lparr>state_machine := DownloadingInitialState md t bs'\<rparr>"
  have id: "idle ?s p c" using s(2) by (simp add: idle_def)
  have r: "handle_received_initial_state_blocks E W st p rs (map (\<lambda>i. Some (cs ! i)) ?is) =
      (if list_ex (\<lambda>b. b = None) bs' then Ret ?s else update_state_to_syncing E W ?s p)"
    by (simp add: handle_received_initial_state_blocks_def s(1,3) zip bs'(1) Let_def)
  show ?thesis
  proof (cases "None \<in> set bs'")
    case True
    then have "list_ex (\<lambda>b. b = None) bs'" by (auto simp: list_ex_iff)
    with r True id ok' bs'(2) less sm show ?thesis
      by (simp add: progress_def sm_ok_def on_track_def remaining_def)
  next
    case False
    then have l: "\<not> list_ex (\<lambda>b. b = None) bs'" by (auto simp: list_ex_iff)
    have "bs' ! i = Some (cs ! i)" if "i < length cs" for i
      using bs'(2) False that by (metis holds_def nth_mem)
    then have cs: "bs' = map Some cs" using bs'(2) by (intro nth_equalityI) (auto simp: holds_def)
    from pub obtain x where x: "so_from_slice E (concat cs) = Some x" by (auto simp: publishes_def)
    have sm': "state_machine ?s = DownloadingInitialState md t (map Some cs)" by (simp add: cs)
    from update_state_to_syncing_idle [OF sm' id x alive] obtain st' where
      st': "update_state_to_syncing E W ?s p = Ret st'" "idle st' p c"
      "state_machine st' = SyncingStore md t (concat cs) (ecg_new (so_dag E)) \<lparr>latest_state = x, latest_headers = {}\<rparr>"
      by blast
    from update_state_to_syncing_ok [OF st'(1) _ ok' False] have "sm_ok E sid (state_machine st')" by simp
    with r l st' x less sm show ?thesis by (auto simp: progress_def on_track_def remaining_def)
  qed
qed


section \<open>A download\<close>

text \<open>The answer of the publisher's store to a command, as the tasks of the connection hand it over\<close>

definition answer_to ::
    "('h, 'd, 'g, 'id, 'hd, 't) store \<Rightarrow> 'd \<Rightarrow> ('g, 'id, 'hd) store_sync_command
     \<Rightarrow> ('h, 'd, 'id, 'hd) untyped_store_command res" where
  "answer_to pub peer q =
     (case q of
        MetadataHeaderRequest \<Rightarrow> bindR (expect (metadata_of pub)) (\<lambda>md. Ret (ReceivedMetadata peer md))
      | MerkleRequest rs \<Rightarrow>
          bindR (expect (merkle_tree_of pub)) (\<lambda>t.
          bindR (handle_merkle_peer_request_helper t rs) (\<lambda>hs. Ret (ReceivedMerkleHashes peer rs hs)))
      | InitialStateBlockRequest rs \<Rightarrow>
          bindR (handle_block_peer_request_helper (state_machine pub) rs) (\<lambda>m.
          bindR (expect m) (\<lambda>bs. Ret (ReceivedInitialStateBlocks peer rs bs)))
      | ECGSyncRequest _ \<Rightarrow> Ret (ReceivedECGOperations peer []))"

text \<open>The command sent last is answered, and the answer handled.\<close>

definition download_step ::
    "('s, 'h, 'g, 'id, 'hd, 't, 'b, 'op) store_ops \<Rightarrow> 'd world \<Rightarrow> ('h, 'd :: linorder, 'g, 'id, 'hd, 't) store \<Rightarrow> 'd
     \<Rightarrow> ('h, 'd, 'g, 'id, 'hd, 't) store \<Rightarrow> ('h, 'd, 'g, 'id, 'hd, 't) store res option" where
  "download_step E W pub peer st =
     (case rev (outbox st) of
        PeerCommand c q # _ \<Rightarrow>
          bindL (Some (answer_to pub peer q)) (\<lambda>cmd. run_command E st (W, Untyped cmd))
      | _ \<Rightarrow> None)"

fun download ::
    "('s, 'h, 'g, 'id, 'hd, 't, 'b, 'op) store_ops \<Rightarrow> 'd world \<Rightarrow> ('h, 'd :: linorder, 'g, 'id, 'hd, 't) store \<Rightarrow> 'd
     \<Rightarrow> nat \<Rightarrow> ('h, 'd, 'g, 'id, 'hd, 't) store \<Rightarrow> ('h, 'd, 'g, 'id, 'hd, 't) store res option" where
  "download E W pub peer 0 st = Some (Ret st)"
| "download E W pub peer (Suc n) st = bindL (download_step E W pub peer st) (download E W pub peer n)"

text \<open>What the publisher's store is\<close>

definition publisher ::
    "('s, 'h, 'g, 'id, 'hd, 't, 'b, 'op) store_ops \<Rightarrow> ('h, 'd, 'g, 'id, 'hd, 't) store \<Rightarrow> 'h metadata_header
     \<Rightarrow> 'h merkle_tree \<Rightarrow> bytes list \<Rightarrow> bool" where
  "publisher E pub md t cs \<longleftrightarrow>
     metadata_of pub = Some md \<and> merkle_tree_of pub = Some t \<and>
     (\<forall>rs. set (expand_ranges rs) \<subseteq> {..< length cs} \<longrightarrow>
       handle_block_peer_request_helper (state_machine pub) rs = Ret (Some (map (\<lambda>i. Some (cs ! i)) (expand_ranges rs))))"

definition tracking ::
    "('s, 'h, 'g, 'id, 'hd, 't, 'b, 'op) store_ops \<Rightarrow> 'h \<Rightarrow> 'h metadata_header \<Rightarrow> 'h merkle_tree \<Rightarrow> bytes list
     \<Rightarrow> 'd \<Rightarrow> chan \<Rightarrow> ('h, 'd, 'g, 'id, 'hd, 't) store \<Rightarrow> bool" where
  "tracking E sid md t cs p c st \<longleftrightarrow>
     sm_ok E sid (state_machine st) \<and> on_track E md t cs (state_machine st) \<and>
     (\<exists>q. waiting st p c q \<and> asks_missing (state_machine st) q)"

lemma progress_tracking:
  assumes "progress E sid md t cs p c st st'" and "shuffles W" and "\<And>c. alive W c"
  shows "\<exists>st''. send_sync_requests W st' = Ret st'' \<and> tracking E sid md t cs p c st'' \<and>
    remaining cs (state_machine st'') < remaining cs (state_machine st)"
proof -
  from assms(1) have p: "idle st' p c" "sm_ok E sid (state_machine st')" "on_track E md t cs (state_machine st')"
    "remaining cs (state_machine st') < remaining cs (state_machine st)" by (simp_all add: progress_def)
  from next_request [OF p(2,1) assms(2,3)] obtain st'' q where
    "send_sync_requests W st' = Ret st''" "state_machine st'' = state_machine st'" "waiting st'' p c q"
    "asks_missing (state_machine st') q" by blast
  with p show ?thesis by (auto simp: tracking_def)
qed

lemma download_step_progress:
  fixes st :: "('h, 'd :: linorder, 'g, 'id, 'hd, 't) store"
  assumes pub: "publishes E sid md t cs" "publisher E pub md t cs"
    and st: "tracking E sid md t cs p c st" "\<not> synced (state_machine st)"
    and W: "shuffles W" "\<And>c. alive W c"
  shows "\<exists>st'. download_step E W pub p st = Some (Ret st') \<and> tracking E sid md t cs p c st' \<and>
    remaining cs (state_machine st') < remaining cs (state_machine st)"
proof -
  from st obtain q out where ok: "sm_ok E sid (state_machine st)" "on_track E md t cs (state_machine st)"
    and q: "waiting st p c q" "asks_missing (state_machine st) q" and out: "outbox st = out @ [PeerCommand c q]"
    by (auto simp: tracking_def waiting_def)
  show ?thesis
  proof (cases "state_machine st")
    case (DownloadingMetadata s)
    then have sm: "state_machine st = DownloadingMetadata sid" using ok by (simp add: sm_ok_def)
    have "q = MetadataHeaderRequest" using q(2) sm by (simp add: asks_missing_def)
    then have a: "answer_to pub p q = Ret (ReceivedMetadata p md)"
      using pub(2) by (simp add: answer_to_def publisher_def)
    from metadata_progress [OF pub(1) sm q(1) W(2)] obtain s1 where
      s1: "handle_received_metadata E W st p md = Ret s1" "progress E sid md t cs p c st s1" by blast
    from progress_tracking [OF s1(2) W] s1(1) show ?thesis
      by (auto simp: download_step_def out a run_command_def handle_untyped_command_def)
  next
    case (DownloadingMerkle md' u)
    then have sm: "state_machine st = DownloadingMerkle md u" "agrees (nodes t) (nodes u)"
      "merkle_ok (so_hash E) sid md u" using ok by (auto simp: on_track_def sm_ok_def)
    from q(2) sm(1) obtain rs where rs: "q = MerkleRequest rs" "expand_ranges rs \<noteq> []"
      "set (expand_ranges rs) \<subseteq> set (missing_indices u)" by (auto simp: asks_missing_def)
    have "set (expand_ranges rs) \<subseteq> {..< length (nodes t)}"
      using rs(3) sm(2) by (auto simp: missing_indices_def agrees_def)
    then have "handle_merkle_peer_request_helper t rs = Ret (map ((!) (nodes t)) (expand_ranges rs))"
      unfolding handle_merkle_peer_request_helper_def by (intro mapR_Ret) (auto simp: merkle_get_def)
    then have a: "answer_to pub p q = Ret (ReceivedMerkleHashes p rs (map ((!) (nodes t)) (expand_ranges rs)))"
      using pub(2) by (simp add: answer_to_def rs(1) publisher_def)
    from merkle_hashes_progress [OF pub(1) sm(1,3,2) q(1) rs(2,3)] obtain s1 where
      s1: "handle_received_merkle_hashes E W st p rs (map ((!) (nodes t)) (expand_ranges rs)) = Some (Ret s1)"
        "progress E sid md t cs p c st s1" by blast
    from progress_tracking [OF s1(2) W] s1(1) show ?thesis
      by (auto simp: download_step_def out a run_command_def handle_untyped_command_def)
  next
    case (DownloadingInitialState md' t' bs)
    then have sm: "state_machine st = DownloadingInitialState md t bs" "holds cs bs" "initial_ok (so_hash E) sid md t bs"
      using ok by (auto simp: on_track_def sm_ok_def)
    from q(2) sm(1) obtain rs where rs: "q = InitialStateBlockRequest rs" "expand_ranges rs \<noteq> []"
      "set (expand_ranges rs) \<subseteq> set (needed_blocks bs)" by (auto simp: asks_missing_def)
    have "set (expand_ranges rs) \<subseteq> {..< length cs}"
      using rs(3) sm(2) by (auto simp: needed_blocks_def holds_def)
    then have a: "answer_to pub p q = Ret (ReceivedInitialStateBlocks p rs (map (\<lambda>i. Some (cs ! i)) (expand_ranges rs)))"
      using pub(2) by (simp add: answer_to_def rs(1) publisher_def)
    from blocks_progress [OF pub(1) sm(1,3,2) q(1) rs(2,3) W(2)] obtain s1 where
      s1: "handle_received_initial_state_blocks E W st p rs (map (\<lambda>i. Some (cs ! i)) (expand_ranges rs)) = Ret s1"
        "progress E sid md t cs p c st s1" by blast
    from progress_tracking [OF s1(2) W] s1(1) show ?thesis
      by (auto simp: download_step_def out a run_command_def handle_untyped_command_def)
  qed (use st(2) in \<open>simp add: synced_def\<close>)
qed

lemma download_ends:
  fixes st :: "('h, 'd :: linorder, 'g, 'id, 'hd, 't) store"
  assumes pub: "publishes E sid md t cs" "publisher E pub md t cs" and W: "shuffles W" "\<And>c. alive W c"
    and st: "tracking E sid md t cs p c st"
  shows "\<exists>n st'. n \<le> remaining cs (state_machine st) \<and> download E W pub p n st = Some (Ret st') \<and>
    tracking E sid md t cs p c st' \<and> synced (state_machine st')"
  using st
proof (induction "remaining cs (state_machine st)" arbitrary: st rule: less_induct)
  case less
  show ?case
  proof (cases "synced (state_machine st)")
    case True
    with less.prems show ?thesis by (intro exI [of _ 0] exI [of _ st]) simp
  next
    case False
    from download_step_progress [OF pub less.prems False W] obtain s1 where
      s1: "download_step E W pub p st = Some (Ret s1)" "tracking E sid md t cs p c s1"
        "remaining cs (state_machine s1) < remaining cs (state_machine st)" by blast
    from less.hyps [OF s1(3,2)] obtain n st' where
      n: "n \<le> remaining cs (state_machine s1)" "download E W pub p n s1 = Some (Ret st')"
        "tracking E sid md t cs p c st'" "synced (state_machine st')" by blast
    with s1 show ?thesis by (intro exI [of _ "Suc n"] exI [of _ st']) simp
  qed
qed


lemma new_syncing_publishes:
  assumes x: "so_to_vec E x \<noteq> []" "length (so_to_vec E x) \<le> u64_max - block_size"
      "so_from_slice E (so_to_vec E x) = Some x" "length rnd = 32" "length (so_type_ident E) = 32"
    and pub: "new_syncing E rnd x = Ret (pub :: ('h, 'd :: linorder, 'g, 'id, 'hd, 't) store)"
  shows "\<exists>md t. publishes E (store_id_of E pub) md t (chunks block_size (so_to_vec E x)) \<and>
    publisher E pub md t (chunks block_size (so_to_vec E x))"
proof -
  let ?bs = "so_to_vec E x" let ?cs = "chunks block_size ?bs"
  have len: "length ?bs \<le> u64_max" using x(2) by simp
  from new_syncing_state [OF x(1) len, where ?'d = 'd, of rnd] pub obtain md t where
    sm: "state_machine pub = SyncingStore md t ?bs (ecg_new (so_dag E)) \<lparr>latest_state = x, latest_headers = {}\<rparr>"
    and t: "tree_over (so_hash E) (map (hash_chunk (so_hash E)) ?cs) t" and n: "block_count md = length ?cs"
    and md: "0 < block_count md" "md_merkle_root md = nodes t ! 0" "md_nonce md = rnd" "md_store_type md = so_type_ident E"
    by auto
  have "concat ?cs = ?bs" by (rule concat_chunks) (simp add: block_size_def)
  then have "publishes E (store_id_of E pub) md t ?cs"
    using t n md x sm by (auto simp: publishes_def wf_metadata_def validate_store_id_def store_id_of_def)
  moreover have "handle_block_peer_request_helper (state_machine pub) rs =
      Ret (Some (map (\<lambda>i. Some (?cs ! i)) (expand_ranges rs)))" if rs: "set (expand_ranges rs) \<subseteq> {..< length ?cs}" for rs
  proof -
    have "mapR (\<lambda>i. bindR (block_slice ?bs i) (\<lambda>b. Ret (Some b))) (expand_ranges rs) =
        Ret (map (\<lambda>i. Some (?cs ! i)) (expand_ranges rs))"
      by (rule mapR_Ret) (use rs block_slice_chunk [OF _ x(2)] in auto)
    then show ?thesis by (simp add: handle_block_peer_request_helper_def sm)
  qed
  moreover have "metadata_of pub = Some md" "merkle_tree_of pub = Some t"
    by (simp_all add: metadata_of_def merkle_tree_of_def sm)
  ultimately show ?thesis by (auto simp: publisher_def)
qed

text \<open>The start of a download: the peer is registered, and a stream to it is found.\<close>

lemma download_starts:
  fixes E :: "('s, 'h, 'g, 'id, 'hd, 't, 'b, 'op) store_ops" and p :: "'d :: linorder"
  assumes W: "shuffles W" "\<And>c. alive W c" "peer_state W p = Some m"
  shows "\<exists>st0. run_handler E (new_downloading sid)
      [(W, Untyped (RegisterPeers [p])), (W, Untyped (RegisterOutgoingPeerSyncing p c))] = Some (Ret st0) \<and>
    tracking E sid md t cs p c st0 \<and> state_machine st0 = DownloadingMetadata sid"
proof -
  let ?i = "\<lambda>s. \<lparr>incoming_status = Known, outgoing_status = s\<rparr>"
  let ?s0 = "new_downloading sid :: ('h, 'd, 'g, 'id, 'hd, 't) store"
  let ?s1 = "?s0\<lparr>peers := [(p, ?i Initializing)], outbox := [RequestStoreSync m sid p]\<rparr>"
  let ?s2 = "?s1\<lparr>peers := [(p, ?i (Syncing \<lparr>sender_peer = c, is_outstanding = False\<rparr>))]\<rparr>"
  have s1: "run_command E (new_downloading sid) (W, Untyped (RegisterPeers [p])) = Some (Ret ?s1)"
    by (simp add: run_command_def handle_untyped_command_def insert_known_peer_def bt_or_insert_def new_downloading_def
        fresh_store_def manage_peers_def is_known_def List.map_filter_def W contact_peer_def emit_def store_id_of_def
        update_peer_to_initializing_outgoing_def update_peer_to_initializing_def)
  have s2: "update_peer_to_syncing_outgoing ?s1 p \<lparr>sender_peer = c, is_outstanding = False\<rparr> = Ret ?s2"
    by (simp add: update_peer_to_syncing_outgoing_def update_peer_to_syncing_def)
  have id: "idle ?s2 p c" and sm: "state_machine ?s2 = DownloadingMetadata sid"
    by (simp_all add: idle_def new_downloading_def fresh_store_def)
  have "sm_ok E sid (state_machine ?s2)" unfolding sm by (simp add: sm_ok_def)
  from next_request [OF this id W(1,2)] obtain st0 q where
    st0: "send_sync_requests W ?s2 = Ret st0" "state_machine st0 = state_machine ?s2" "waiting st0 p c q"
    "asks_missing (state_machine ?s2) q" by blast
  have "run_command E ?s1 (W, Untyped (RegisterOutgoingPeerSyncing p c)) = Some (Ret st0)"
    by (simp only: run_command_def handle_untyped_command_def prod.case command.case untyped_store_command.case
        s2 bindR.simps st0(1))
  with s1 have "run_handler E (new_downloading sid)
      [(W, Untyped (RegisterPeers [p])), (W, Untyped (RegisterOutgoingPeerSyncing p c))] = Some (Ret st0)"
    by (simp add: run_handler_def)
  moreover have "tracking E sid md t cs p c st0"
    unfolding tracking_def st0(2) sm using st0(3,4) sm by (auto simp: sm_ok_def on_track_def)
  ultimately show ?thesis using st0(2) sm by auto
qed

text \<open>C3. A download completes: a store created for the id of a published value, with one peer that
  has the value, asks and is answered at most three times per block and is then synchronised,
  with the publisher's metadata, tree and bytes, the published value as its CRDT state and an
  empty graph. The order in which requests are shuffled does not matter.\<close>

theorem download_completes:
  assumes x: "so_to_vec E x \<noteq> []" "length (so_to_vec E x) \<le> u64_max - block_size"
      "so_from_slice E (so_to_vec E x) = Some x" "length rnd = 32" "length (so_type_ident E) = 32"
    and pub: "new_syncing E rnd x = Ret (pub :: ('h, 'd :: linorder, 'g, 'id, 'hd, 't) store)"
    and W: "shuffles W" "\<And>c. alive W c" "peer_state W p = Some m"
  shows "\<exists>st0 n st' md t ds. run_handler E (new_downloading (store_id_of E pub))
      [(W, Untyped (RegisterPeers [p])), (W, Untyped (RegisterOutgoingPeerSyncing p c))] = Some (Ret st0) \<and>
    metadata_of pub = Some md \<and> merkle_tree_of pub = Some t \<and> n \<le> 3 * block_count md \<and>
    download E W pub p n st0 = Some (Ret st') \<and>
    state_machine st' = SyncingStore md t (so_to_vec E x) (ecg_new (so_dag E)) ds \<and> latest_state ds = x"
proof -
  let ?sid = "store_id_of E pub" let ?cs = "chunks block_size (so_to_vec E x)"
  from new_syncing_publishes [OF x pub] obtain md t where
    p: "publishes E ?sid md t ?cs" "publisher E pub md t ?cs" by blast
  from download_starts [OF W, of E ?sid c md t ?cs] obtain st0 where
    st0: "run_handler E (new_downloading ?sid)
      [(W, Untyped (RegisterPeers [p])), (W, Untyped (RegisterOutgoingPeerSyncing p c))] = Some (Ret st0)"
      "tracking E ?sid md t ?cs p c st0" "state_machine st0 = DownloadingMetadata ?sid" by blast
  from download_ends [OF p W(1,2) st0(2)] obtain n st' where
    st': "n \<le> remaining ?cs (state_machine st0)" "download E W pub p n st0 = Some (Ret st')"
      "tracking E ?sid md t ?cs p c st'" "synced (state_machine st')" by blast
  have c: "concat ?cs = so_to_vec E x" by (rule concat_chunks) (simp add: block_size_def)
  from st'(4) obtain md' t' bs ecg ds where sm: "state_machine st' = SyncingStore md' t' bs ecg ds"
    by (auto simp: synced_def split: state_machine.splits)
  then have "md' = md" "t' = t" "bs = so_to_vec E x" "ecg = ecg_new (so_dag E)" "latest_state ds = x"
    using st'(3) x(3) c by (auto simp: tracking_def on_track_def)
  moreover have "n \<le> 3 * block_count md" using st'(1) st0(3) p(1) by (simp add: remaining_def publishes_def)
  moreover have "metadata_of pub = Some md" "merkle_tree_of pub = Some t" using p(2) by (simp_all add: publisher_def)
  ultimately show ?thesis using st0(1) st'(2) sm by blast
qed

lemma download_completes_witness:
  "\<exists>pub st0 n st' md t ds. new_syncing demo_ops (replicate 32 1) [1, 2, 3] = Ret pub \<and>
     run_handler demo_ops (new_downloading (store_id_of demo_ops pub))
       [(demo_world, Untyped (RegisterPeers [7])), (demo_world, Untyped (RegisterOutgoingPeerSyncing 7 5))] = Some (Ret st0) \<and>
     download demo_ops demo_world pub 7 n st0 = Some (Ret st') \<and>
     state_machine st' = SyncingStore md t [1, 2, 3] (ecg_new list_dag) ds \<and> latest_state ds = [1, 2, 3]"
proof -
  obtain pub :: "(bytes, nat, u32 list_graph, u32, test_header, bytes) store" where
    pub: "new_syncing demo_ops (replicate 32 1) [1, 2, 3] = Ret pub"
    using demo_publisher by blast
  have d: "so_dag demo_ops = list_dag" by (simp add: demo_ops_def)
  have mgr: "peer_state demo_world 7 = Some 107" by (simp add: demo_world_def)
  have alive: "alive demo_world c" for c by (simp add: demo_world_def)
  from download_completes [OF _ _ _ _ _ pub demo_world_shuffles alive mgr, of 5] obtain st0 n st' md t ds where
    "run_handler demo_ops (new_downloading (store_id_of demo_ops pub))
       [(demo_world, Untyped (RegisterPeers [7])), (demo_world, Untyped (RegisterOutgoingPeerSyncing 7 5))] = Some (Ret st0)"
    "download demo_ops demo_world pub 7 n st0 = Some (Ret st')"
    "state_machine st' = SyncingStore md t [1, 2, 3] (ecg_new list_dag) ds" "latest_state ds = [1, 2, 3]"
    by (auto simp: u64_max_def block_size_def d)
  with pub show ?thesis by blast
qed

end
