(* ===== verification/Multiplexer.thy ===== *)
theory Multiplexer
  imports Prelude
begin

text \<open>
  \<open>ossa-core/src/network/multiplexer.rs\<close>: many protocols share one TCP connection. A message is
  sent as a frame, its stream id and its length as four bytes each, big-endian, then its bytes.
  What \<open>read\<close> returns is cut anywhere; \<open>handle_receive\<close> is the state machine that puts the
  messages together again and hands each to the channel of its stream.

  A channel is its number, \<open>alive\<close> tells whether its receiver exists. What is delivered is a list
  of channels and messages, what is written a list of bytes. Spawning a task is recorded with
  its stream id; the protocols themselves are elsewhere.
\<close>

unbundle bit_operations_syntax

section \<open>Party\<close>

datatype party = Client | Server

fun is_client :: "party \<Rightarrow> bool" where
  "is_client Client = True"
| "is_client Server = False"

fun is_server :: "party \<Rightarrow> bool" where
  "is_server Client = False"
| "is_server Server = True"

fun dual :: "party \<Rightarrow> party" where
  "dual Client = Server"
| "dual Server = Client"

section \<open>Reading frames\<close>

definition max_message_length :: u32 where "max_message_length = 1000 * 1000 * 1024"
definition header_length :: nat where "header_length = 8"

type_synonym stream_id = u32

datatype read_state =
    ProcessingHeader nat bytes
  | ProcessingBody u32 nat bytes

definition read_state_new :: read_state where
  "read_state_new = ProcessingHeader 0 (replicate header_length 0)"

text \<open>\<open>u32::from_be_bytes\<close> and what \<open>write_u32\<close> writes\<close>

definition from_be_bytes :: "bytes \<Rightarrow> u32" where
  "from_be_bytes bs = foldl (\<lambda>x b. push_bit 8 x OR ucast b) 0 bs"

definition write_u32 :: "u32 \<Rightarrow> bytes" where
  "write_u32 x = map (\<lambda>i. ucast (drop_bit (8 * i) x)) [3, 2, 1, 0]"

text \<open>
  The body of \<open>handle_receive\<close> up to its recursive call: the next state, what is delivered, and
  the bytes the recursive call gets, when there is one.
\<close>

definition read_header ::
    "(stream_id \<rightharpoonup> nat) \<Rightarrow> nat \<Rightarrow> bytes \<Rightarrow> bytes \<Rightarrow> (read_state \<times> (nat \<times> bytes) list \<times> bytes option) res" where
  "read_header streams position header buf =
     bindR (sub_u64 header_length position) (\<lambda>remaining_c.
     let received_c = min (length buf) remaining_c;
         high_i = position + received_c;
         header = take position header @ take received_c buf @ drop high_i header;
         buf = drop received_c buf;
         position = position + received_c
     in if position = header_length then
          bindR (expect (streams (from_be_bytes (take 4 header)))) (\<lambda>sender.
          let msg_length = from_be_bytes (take 4 (drop 4 header)) in
          if max_message_length < msg_length then Panic TodoHit
          else Ret (ProcessingBody msg_length sender [], [], Some buf))
        else Ret (ProcessingHeader position header, [], None))"

definition read_body ::
    "(nat \<Rightarrow> bool) \<Rightarrow> u32 \<Rightarrow> nat \<Rightarrow> bytes \<Rightarrow> bytes \<Rightarrow> (read_state \<times> (nat \<times> bytes) list \<times> bytes option) res" where
  "read_body alive msg_length sender send_buffer buf =
     bindR (sub_u64 (unat msg_length) (length send_buffer)) (\<lambda>remaining_c.
     let received_c = min (length buf) remaining_c;
         send_buffer = send_buffer @ take received_c buf;
         buf = drop received_c buf
     in if length send_buffer = unat msg_length then
          (if alive sender then
             Ret (read_state_new, [(sender, send_buffer)], if buf \<noteq> [] then Some buf else None)
           else Panic ExpectFailed)
        else Ret (ProcessingBody msg_length sender send_buffer, [], None))"

definition read_step ::
    "(nat \<Rightarrow> bool) \<Rightarrow> (stream_id \<rightharpoonup> nat) \<Rightarrow> read_state \<Rightarrow> bytes
     \<Rightarrow> (read_state \<times> (nat \<times> bytes) list \<times> bytes option) res" where
  "read_step alive streams st buf =
     (case st of
        ProcessingHeader position header \<Rightarrow> read_header streams position header buf
      | ProcessingBody msg_length sender send_buffer \<Rightarrow> read_body alive msg_length sender send_buffer buf)"

definition read_measure :: "read_state \<Rightarrow> bytes \<Rightarrow> nat" where
  "read_measure st buf = 3 * length buf +
     (case st of ProcessingHeader p h \<Rightarrow> (if header_length \<le> p then 2 else 0) | ProcessingBody _ _ _ \<Rightarrow> 1)"

lemma read_header_short:
  assumes "position + length buf < header_length"
  shows "read_header streams position header buf =
    Ret (ProcessingHeader (position + length buf) (take position header @ buf @ drop (position + length buf) header), [], None)"
  using assms by (simp add: read_header_def sub_u64_def Let_def)

lemma read_header_full:
  fixes header :: bytes
  assumes "position \<le> header_length" "header_length \<le> position + length buf"
  defines "h \<equiv> take position header @ take (header_length - position) buf @ drop header_length header"
  shows "read_header streams position header buf =
    bindR (expect (streams (from_be_bytes (take 4 h)))) (\<lambda>sender.
    let msg_length = from_be_bytes (take 4 (drop 4 h)) in
    if max_message_length < msg_length then Panic TodoHit
    else Ret (ProcessingBody msg_length sender [], [], Some (drop (header_length - position) buf)))"
proof -
  have m: "min (length buf) (header_length - position) = header_length - position" using assms(2) by simp
  have "position + (header_length - position) = header_length" using assms(1) by simp
  then show ?thesis
    unfolding read_header_def sub_u64_def h_def using assms(1) by (simp only: if_True bindR.simps m Let_def simp_thms)
qed

lemma read_body_short:
  assumes "length send_buffer + length buf < unat msg_length"
  shows "read_body alive msg_length sender send_buffer buf =
    Ret (ProcessingBody msg_length sender (send_buffer @ buf), [], None)"
  using assms by (simp add: read_body_def sub_u64_def Let_def)

lemma read_body_full:
  assumes "length send_buffer \<le> unat msg_length" "unat msg_length \<le> length send_buffer + length buf"
  defines "n \<equiv> unat msg_length - length send_buffer"
  shows "read_body alive msg_length sender send_buffer buf =
    (if alive sender then
       Ret (read_state_new, [(sender, send_buffer @ take n buf)], if drop n buf \<noteq> [] then Some (drop n buf) else None)
     else Panic ExpectFailed)"
proof -
  have m: "min (length buf) (unat msg_length - length send_buffer) = n" using assms(2) by (simp add: n_def)
  have "length (send_buffer @ take n buf) = unat msg_length" using assms(1,2) by (simp add: n_def)
  then show ?thesis
    unfolding read_body_def sub_u64_def using assms(1) by (simp only: if_True bindR.simps m Let_def simp_thms)
qed

lemma read_step_shorter:
  assumes "read_step alive streams st buf = Ret (st', ms, Some rest)"
  shows "read_measure st' rest < read_measure st buf"
proof (cases st)
  case (ProcessingHeader p h)
  with assms have r: "read_header streams p h buf = Ret (st', ms, Some rest)" by (simp add: read_step_def)
  then have p: "p \<le> header_length" by (auto simp: read_header_def sub_u64_def split: if_splits)
  from r read_header_short [of p buf streams h] have full: "header_length \<le> p + length buf" by fastforce
  from r [unfolded read_header_full [OF p full]] obtain m s where
    "st' = ProcessingBody m s []" "rest = drop (header_length - p) buf"
    by (auto simp: Let_def split: if_splits)
  with p full ProcessingHeader show ?thesis by (auto simp: read_measure_def)
next
  case (ProcessingBody m s b)
  with assms have r: "read_body alive m s b buf = Ret (st', ms, Some rest)" by (simp add: read_step_def)
  then have b: "length b \<le> unat m" by (auto simp: read_body_def sub_u64_def split: if_splits)
  from r read_body_short [of b buf m alive s] have full: "unat m \<le> length b + length buf" by fastforce
  from r [unfolded read_body_full [OF b full]] have
    "st' = read_state_new" "rest = drop (unat m - length b) buf" by (auto split: if_splits)
  with ProcessingBody show ?thesis by (auto simp: read_measure_def read_state_new_def header_length_def)
qed

function handle_receive ::
    "(nat \<Rightarrow> bool) \<Rightarrow> (stream_id \<rightharpoonup> nat) \<Rightarrow> read_state \<Rightarrow> bytes \<Rightarrow> (read_state \<times> (nat \<times> bytes) list) res" where
  "handle_receive alive streams st buf =
     bindR (read_step alive streams st buf) (\<lambda>r.
     case r of
       (st', ms, None) \<Rightarrow> Ret (st', ms)
     | (st', ms, Some rest) \<Rightarrow>
         bindR (handle_receive alive streams st' rest) (\<lambda>(st'', ms'). Ret (st'', ms @ ms')))"
  by pat_completeness auto
termination
  by (relation "measure (\<lambda>(alive, streams, st, buf). read_measure st buf)") (auto dest: read_step_shorter)

declare handle_receive.simps [simp del]

section \<open>The loop\<close>

record mux_state =
  stream_map :: "stream_id \<rightharpoonup> nat"
  read_state :: read_state
  delivered :: "(nat \<times> bytes) list"
  written :: bytes
  spawned :: "(bool \<times> stream_id \<times> nat) list"
  responses :: "(nat \<times> bool) list"

definition mux_new :: mux_state where
  "mux_new = \<lparr>stream_map = Map.empty, read_state = read_state_new, delivered = [], written = [],
     spawned = [], responses = []\<rparr>"

text \<open>
  The initial protocols get the ids 0, 1, 2 and so on. \<open>cs\<close> are their channels.
\<close>

definition add_protocol :: "party \<Rightarrow> mux_state \<Rightarrow> nat \<times> nat \<Rightarrow> mux_state res" where
  "add_protocol party st p =
     (case p of (i, sender) \<Rightarrow>
        if i < 2 ^ 32 then
          Ret (st\<lparr>spawned := spawned st @ [(is_client party, of_nat i, sender)],
                  stream_map := (stream_map st)(of_nat i \<mapsto> sender)\<rparr>)
        else Panic ExpectFailed)"

definition add_protocols :: "party \<Rightarrow> nat list \<Rightarrow> mux_state res" where
  "add_protocols party cs = foldR (add_protocol party) mux_new (zip [0 ..< length cs] cs)"

datatype mux_event =
    Outgoing stream_id bytes
  | Incoming bytes
  | CreateStream stream_id nat nat
  | OutgoingClosed
  | ReadError
  | CommandsDropped

text \<open>
  One turn of the loop: a message to send, bytes read, the command to create a stream whose
  window is the channel \<open>sender\<close>, or one of the failures the code leaves to do.
\<close>

definition frame :: "stream_id \<Rightarrow> bytes \<Rightarrow> bytes res" where
  "frame stream_id msg =
     (if length msg < 2 ^ 32 then Ret (write_u32 stream_id @ write_u32 (of_nat (length msg)) @ msg)
      else Panic ExpectFailed)"

definition mux_turn :: "party \<Rightarrow> (nat \<Rightarrow> bool) \<Rightarrow> mux_state \<Rightarrow> mux_event \<Rightarrow> mux_state res" where
  "mux_turn party alive st e =
     (case e of
        Outgoing stream_id msg \<Rightarrow>
          bindR (frame stream_id msg) (\<lambda>bs. Ret (st\<lparr>written := written st @ bs\<rparr>))
      | Incoming buf \<Rightarrow>
          bindR (handle_receive alive (stream_map st) (read_state st) buf) (\<lambda>(rs, ms).
          Ret (st\<lparr>read_state := rs, delivered := delivered st @ ms\<rparr>))
      | CreateStream stream_id sender response_chan \<Rightarrow>
          let st = st\<lparr>spawned := spawned st @ [(is_client party, stream_id, sender)]\<rparr>;
              ok = (stream_map st stream_id = None);
              st = (if ok then st\<lparr>stream_map := (stream_map st)(stream_id \<mapsto> sender)\<rparr> else st)
          in if alive response_chan then Ret (st\<lparr>responses := responses st @ [(response_chan, ok)]\<rparr>)
             else Panic ExpectFailed
      | _ \<Rightarrow> Panic TodoHit)"

definition mux_run :: "party \<Rightarrow> (nat \<Rightarrow> bool) \<Rightarrow> mux_state \<Rightarrow> mux_event list \<Rightarrow> mux_state res" where
  "mux_run party alive st es = foldR (mux_turn party alive) st es"

section \<open>One call\<close>

lemma from_be_bytes_write: "from_be_bytes (write_u32 x) = x"
proof (rule bit_eqI)
  fix n assume "possible_bit TYPE(u32) n"
  then have n: "n < 32" by simp
  consider "n < 8" | "8 \<le> n" "n < 16" | "16 \<le> n" "n < 24" | "24 \<le> n" using n by linarith
  then show "bit (from_be_bytes (write_u32 x)) n = bit x n"
    using n by cases (auto simp: from_be_bytes_def write_u32_def bit_simps)
qed

lemma length_write_u32 [simp]: "length (write_u32 x) = 4"
  by (simp add: write_u32_def)

text \<open>States between two calls: a header not yet complete, or a message not yet complete.\<close>

definition read_ok :: "read_state \<Rightarrow> bool" where
  "read_ok st \<longleftrightarrow>
     (case st of
        ProcessingHeader p h \<Rightarrow> p < header_length \<and> length h = header_length
      | ProcessingBody m s b \<Rightarrow> length b \<le> unat m)"

lemma read_ok_new [simp]: "read_ok read_state_new"
  by (simp add: read_ok_def read_state_new_def header_length_def)

lemma receive_header_short:
  assumes "position + length buf < header_length"
  shows "handle_receive alive streams (ProcessingHeader position header) buf =
    Ret (ProcessingHeader (position + length buf) (take position header @ buf @ drop (position + length buf) header), [])"
  by (simp add: handle_receive.simps [of _ _ "ProcessingHeader _ _"] read_step_def read_header_short [OF assms])

lemma receive_header_full:
  assumes "position \<le> header_length" "header_length \<le> position + length buf"
  shows "handle_receive alive streams (ProcessingHeader position header) buf =
    (let h = take position header @ take (header_length - position) buf @ drop header_length header in
     bindR (expect (streams (from_be_bytes (take 4 h)))) (\<lambda>sender.
     let msg_length = from_be_bytes (take 4 (drop 4 h)) in
     if max_message_length < msg_length then Panic TodoHit
     else handle_receive alive streams (ProcessingBody msg_length sender []) (drop (header_length - position) buf)))"
proof -
  have pair: "bindR m (\<lambda>(st'', ms'). Ret (st'', [] @ ms')) = m" for m :: "(read_state \<times> (nat \<times> bytes) list) res"
    by (cases m) auto
  let ?h = "take position header @ take (header_length - position) buf @ drop header_length header"
  show ?thesis
    by (cases "streams (from_be_bytes (take 4 ?h))")
      (simp_all add: handle_receive.simps [of _ _ "ProcessingHeader _ _"] read_step_def
        read_header_full [OF assms] Let_def pair [simplified])
qed

lemma receive_body_short:
  assumes "length send_buffer + length buf < unat msg_length"
  shows "handle_receive alive streams (ProcessingBody msg_length sender send_buffer) buf =
    Ret (ProcessingBody msg_length sender (send_buffer @ buf), [])"
  by (simp add: handle_receive.simps [of _ _ "ProcessingBody _ _ _"] read_step_def read_body_short [OF assms])

lemma receive_nothing: "handle_receive alive streams read_state_new [] = Ret (read_state_new, [])"
  by (simp add: read_state_new_def header_length_def receive_header_short)

lemma receive_body_full:
  assumes "length send_buffer \<le> unat msg_length" "unat msg_length \<le> length send_buffer + length buf"
  defines "n \<equiv> unat msg_length - length send_buffer"
  shows "handle_receive alive streams (ProcessingBody msg_length sender send_buffer) buf =
    (if alive sender then
       bindR (handle_receive alive streams read_state_new (drop n buf))
         (\<lambda>(st, ms). Ret (st, (sender, send_buffer @ take n buf) # ms))
     else Panic ExpectFailed)"
  using receive_nothing [of alive streams]
  by (simp add: handle_receive.simps [of _ _ "ProcessingBody _ _ _"] read_step_def
      read_body_full [OF assms(1,2)] n_def)

section \<open>Bytes may be cut anywhere\<close>

definition receive_then ::
    "(nat \<Rightarrow> bool) \<Rightarrow> (stream_id \<rightharpoonup> nat) \<Rightarrow> (read_state \<times> (nat \<times> bytes) list) res \<Rightarrow> bytes
     \<Rightarrow> (read_state \<times> (nat \<times> bytes) list) res" where
  "receive_then alive streams r buf =
     bindR r (\<lambda>(st, ms). bindR (handle_receive alive streams st buf) (\<lambda>(st', ms'). Ret (st', ms @ ms')))"

lemma receive_then_simps:
  "receive_then alive streams (Panic p) buf = Panic p"
  "receive_then alive streams (Ret (st, [])) buf = handle_receive alive streams st buf"
  "receive_then alive streams (bindR r (\<lambda>(st, ms). Ret (st, m # ms))) buf =
     bindR (receive_then alive streams r buf) (\<lambda>(st, ms). Ret (st, m # ms))"
proof -
  have "bindR r (\<lambda>(st', ms'). Ret (st', [] @ ms')) = r" for r :: "(read_state \<times> (nat \<times> bytes) list) res"
    by (cases r) auto
  then show "receive_then alive streams (Ret (st, [])) buf = handle_receive alive streams st buf"
    by (simp add: receive_then_def)
  show "receive_then alive streams (bindR r (\<lambda>(st, ms). Ret (st, m # ms))) buf =
     bindR (receive_then alive streams r buf) (\<lambda>(st, ms). Ret (st, m # ms))"
  proof (cases r)
    case (Ret r')
    then obtain st ms where r: "r = Ret (st, ms)" by (cases r') auto
    show ?thesis
      by (cases "handle_receive alive streams st buf") (auto simp: r receive_then_def)
  qed (simp add: receive_then_def)
qed (simp add: receive_then_def)

lemma split_short_header:
  assumes p: "p < header_length" "length h = header_length" and a: "p + length a < header_length"
  shows "handle_receive alive streams (ProcessingHeader p h) (a @ b) =
    receive_then alive streams (handle_receive alive streams (ProcessingHeader p h) a) b"
proof -
  let ?h = "take p h @ a @ drop (p + length a) h"
  have r: "handle_receive alive streams (ProcessingHeader p h) a = Ret (ProcessingHeader (p + length a) ?h, [])"
    using a by (rule receive_header_short)
  have t: "take (p + length a) ?h = take p h @ a" "drop n ?h = drop n h" if "p + length a \<le> n" for n
    using that p by auto
  show ?thesis
  proof (cases "p + length a + length b < header_length")
    case True
    then have l: "p + length (a @ b) < header_length" by simp
    show ?thesis
      unfolding r receive_then_simps(2) receive_header_short [OF l] receive_header_short [OF True]
      using p by (simp add: add.assoc) (simp add: ac_simps)
  next
    case False
    let ?k = "header_length - (p + length a)"
    have cut: "take (header_length - p) (a @ b) = a @ take ?k b" "drop (header_length - p) (a @ b) = drop ?k b"
      using a by simp_all
    have full: "p \<le> header_length" "header_length \<le> p + length (a @ b)" "p + length a \<le> header_length"
      "header_length \<le> p + length a + length b" using p a False by simp_all
    have "drop header_length ?h = drop header_length h" using t [of header_length] a by simp
    then show ?thesis
      unfolding r receive_then_simps(2) receive_header_full [OF full(1,2)] receive_header_full [OF full(3,4)]
      by (simp only: cut t(1) [OF order.refl] append_assoc)
  qed
qed

lemma split_short_body:
  assumes c: "length c \<le> unat m" and a: "length c + length a < unat m"
  shows "handle_receive alive streams (ProcessingBody m s c) (a @ b) =
    receive_then alive streams (handle_receive alive streams (ProcessingBody m s c) a) b"
proof -
  have r: "handle_receive alive streams (ProcessingBody m s c) a = Ret (ProcessingBody m s (c @ a), [])"
    using a by (rule receive_body_short)
  show ?thesis
  proof (cases "length c + length a + length b < unat m")
    case True
    then show ?thesis by (simp add: r receive_then_simps(2)) (simp add: receive_body_short)
  next
    case False
    with a c show ?thesis by (simp add: r receive_then_simps(2)) (simp add: receive_body_full)
  qed
qed

lemma receive_split:
  "read_ok st \<Longrightarrow>
   handle_receive alive streams st (a @ b) = receive_then alive streams (handle_receive alive streams st a) b"
proof (induction "read_measure st a" arbitrary: st a rule: less_induct)
  case less
  show ?case
  proof (cases st)
    case (ProcessingHeader p h)
    with less.prems have p: "p < header_length" "length h = header_length" by (simp_all add: read_ok_def)
    show ?thesis
    proof (cases "p + length a < header_length")
      case True
      with p show ?thesis unfolding ProcessingHeader by (rule split_short_header)
    next
      case False
      let ?n = "header_length - p"
      let ?h = "take p h @ take ?n a @ drop header_length h"
      have cut: "take ?n (a @ b) = take ?n a" "drop ?n (a @ b) = drop ?n a @ b" using False by simp_all
      have ih: "handle_receive alive streams (ProcessingBody m s []) (drop ?n a @ b) =
          receive_then alive streams (handle_receive alive streams (ProcessingBody m s []) (drop ?n a)) b" for m s
        by (rule less.hyps) (use p False in \<open>auto simp: ProcessingHeader read_measure_def read_ok_def\<close>)
      show ?thesis
        using p False
        by (cases "streams (from_be_bytes (take 4 ?h))")
          (auto simp: ProcessingHeader receive_header_full cut Let_def ih receive_then_simps)
    qed
  next
    case (ProcessingBody m s c)
    with less.prems have c: "length c \<le> unat m" by (simp add: read_ok_def)
    let ?n = "unat m - length c"
    show ?thesis
    proof (cases "length c + length a < unat m")
      case True
      with c show ?thesis unfolding ProcessingBody by (rule split_short_body)
    next
      case False
      have cut: "take ?n (a @ b) = take ?n a" "drop ?n (a @ b) = drop ?n a @ b" using False by simp_all
      have ih: "handle_receive alive streams read_state_new (drop ?n a @ b) =
          receive_then alive streams (handle_receive alive streams read_state_new (drop ?n a)) b"
        by (rule less.hyps [OF _ read_ok_new])
          (simp add: ProcessingBody read_measure_def read_state_new_def header_length_def)
      show ?thesis
        using False c by (simp add: ProcessingBody receive_body_full cut ih receive_then_simps)
    qed
  qed
qed

text \<open>The states a call leaves behind: one more byte is always missing.\<close>

definition resting :: "read_state \<Rightarrow> bool" where
  "resting st \<longleftrightarrow>
     (case st of
        ProcessingHeader p h \<Rightarrow> p < header_length \<and> length h = header_length
      | ProcessingBody m s b \<Rightarrow> length b < unat m)"

lemma resting_new [simp]: "resting read_state_new"
  by (simp add: resting_def read_state_new_def header_length_def)

lemma resting_read_ok: "resting st \<Longrightarrow> read_ok st"
  by (auto simp: resting_def read_ok_def split: read_state.splits)

lemma receive_empty: "resting st \<Longrightarrow> handle_receive alive streams st [] = Ret (st, [])"
  by (cases st) (auto simp: resting_def receive_header_short receive_body_short)

lemma receive_resting:
  "read_ok st \<Longrightarrow> handle_receive alive streams st buf = Ret (st', ms) \<Longrightarrow> resting st'"
proof (induction "read_measure st buf" arbitrary: st buf st' ms rule: less_induct)
  case less
  show ?case
  proof (cases st)
    case (ProcessingHeader p h)
    with less.prems have p: "p < header_length" "length h = header_length" by (simp_all add: read_ok_def)
    show ?thesis
    proof (cases "p + length buf < header_length")
      case True
      with less.prems(2) have "st' = ProcessingHeader (p + length buf) (take p h @ buf @ drop (p + length buf) h)"
        by (simp add: ProcessingHeader receive_header_short)
      with True p show ?thesis by (simp add: resting_def)
    next
      case False
      with p less.prems(2) obtain m s where
        "handle_receive alive streams (ProcessingBody m s []) (drop (header_length - p) buf) = Ret (st', ms)"
        by (auto simp: ProcessingHeader receive_header_full Let_def split: if_splits)
      then show ?thesis
        by (rule less.hyps [rotated 2])
          (use p False in \<open>auto simp: ProcessingHeader read_measure_def read_ok_def\<close>)
    qed
  next
    case (ProcessingBody m s c)
    with less.prems have c: "length c \<le> unat m" by (simp add: read_ok_def)
    show ?thesis
    proof (cases "length c + length buf < unat m")
      case True
      with less.prems(2) have "st' = ProcessingBody m s (c @ buf)"
        by (simp add: ProcessingBody receive_body_short)
      with True show ?thesis by (simp add: resting_def)
    next
      case False
      with c less.prems(2) obtain ms' where
        "handle_receive alive streams read_state_new (drop (unat m - length c) buf) = Ret (st', ms')"
        by (auto simp: ProcessingBody receive_body_full split: if_splits)
      then show ?thesis
        by (rule less.hyps [OF _ read_ok_new, rotated])
          (simp add: ProcessingBody read_measure_def read_state_new_def header_length_def)
    qed
  qed
qed

text \<open>What holds of the multiplexer between two turns of its loop\<close>

lemma add_protocols_resting: "add_protocols party cs = Ret st \<Longrightarrow> resting (read_state st)"
  unfolding add_protocols_def
  by (erule foldR_returned) (auto simp: mux_new_def add_protocol_def split: if_splits)

lemma mux_turn_resting:
  "mux_turn party alive st e = Ret st' \<Longrightarrow> resting (read_state st) \<Longrightarrow> resting (read_state st')"
  by (cases e) (auto simp: mux_turn_def Let_def dest: receive_resting [OF resting_read_ok] split: if_splits)

lemma mux_run_resting:
  "mux_run party alive st es = Ret st' \<Longrightarrow> resting (read_state st) \<Longrightarrow> resting (read_state st')"
  unfolding mux_run_def by (erule foldR_returned) (auto intro: mux_turn_resting)

lemma mux_run_Nil [simp]: "mux_run party alive st [] = Ret st"
  by (simp add: mux_run_def)

lemma mux_run_Cons: "mux_run party alive st (e # es) = bindR (mux_turn party alive st e) (\<lambda>st. mux_run party alive st es)"
  by (simp add: mux_run_def)

lemma incoming_empty: "resting (read_state st) \<Longrightarrow> mux_turn party alive st (Incoming []) = Ret st"
  by (simp add: mux_turn_def receive_empty)

lemma incoming_split:
  assumes "resting (read_state st)"
  shows "mux_turn party alive st (Incoming (a @ b)) =
    bindR (mux_turn party alive st (Incoming a)) (\<lambda>st. mux_turn party alive st (Incoming b))"
proof (cases "handle_receive alive (stream_map st) (read_state st) a")
  case (Ret r)
  then obtain rs ms where r: "handle_receive alive (stream_map st) (read_state st) a = Ret (rs, ms)" by (cases r) auto
  show ?thesis
    by (cases "handle_receive alive (stream_map st) rs b")
      (auto simp: mux_turn_def receive_split [OF resting_read_ok [OF assms]] r receive_then_def)
qed (simp add: mux_turn_def receive_split [OF resting_read_ok [OF assms]] receive_then_def)

lemma incoming_concat:
  "resting (read_state st) \<Longrightarrow> mux_run party alive st (map Incoming segs) = mux_turn party alive st (Incoming (concat segs))"
proof (induction segs arbitrary: st)
  case (Cons seg segs)
  show ?case
    using Cons.prems by (auto simp: mux_run_Cons incoming_split intro!: bindR_cong Cons.IH dest: mux_turn_resting)
qed (simp add: incoming_empty)

text \<open>Where the connection cuts the bytes does not matter. At any point of any run, reading them in
  any pieces gives the state that reading them at once gives, or panics when that does. A read
  that returns no bytes, as at the end of the connection, changes nothing.\<close>

theorem reads_may_be_cut:
  assumes "add_protocols party cs = Ret st0" and "mux_run party alive st0 es = Ret st"
  shows "mux_run party alive st (map Incoming segs) = mux_run party alive st [Incoming (concat segs)]"
proof -
  have "resting (read_state st)" using assms by (blast intro: mux_run_resting add_protocols_resting)
  then show ?thesis using incoming_concat [of st party alive segs] by (simp add: mux_run_Cons)
qed

text \<open>A client with the one initial protocol 0, whose channel is 7\<close>

definition demo_mux :: mux_state where
  "demo_mux = mux_new\<lparr>spawned := [(True, 0, 7)], stream_map := Map.empty(0 \<mapsto> 7)\<rparr>"

lemma demo_mux_start: "add_protocols Client [7] = Ret demo_mux"
  by (simp add: add_protocols_def add_protocol_def demo_mux_def mux_new_def)

theorem reads_may_be_cut_witness:
  "mux_run Client (\<lambda>c. True) demo_mux (map Incoming [[0, 0], [], [0, 0, 0, 0, 0, 2, 65], [66]]) =
   mux_run Client (\<lambda>c. True) demo_mux [Incoming (concat [[0, 0], [], [0, 0, 0, 0, 0, 2, 65], [66]])]"
  by (rule reads_may_be_cut [OF demo_mux_start mux_run_Nil])

section \<open>Frames\<close>

lemma frame_Ret: "frame i msg = Ret bs \<longleftrightarrow>
    length msg < 2 ^ 32 \<and> bs = write_u32 i @ write_u32 (of_nat (length msg)) @ msg"
  by (auto simp: frame_def)

text \<open>A header, read whole in a fresh state\<close>

lemma receive_header:
  "handle_receive alive streams read_state_new (write_u32 i @ write_u32 n @ buf) =
    bindR (expect (streams i)) (\<lambda>sender.
    if max_message_length < n then Panic TodoHit
    else handle_receive alive streams (ProcessingBody n sender []) buf)"
proof -
  have t: "take (header_length - 0) (write_u32 i @ write_u32 n @ buf) = write_u32 i @ write_u32 n"
    "drop (header_length - 0) (write_u32 i @ write_u32 n @ buf) = buf"
    "take 0 (replicate header_length (0 :: u8)) @ (write_u32 i @ write_u32 n) @
      drop header_length (replicate header_length 0) = write_u32 i @ write_u32 n"
    "take 4 (write_u32 i @ write_u32 n) = write_u32 i" "take 4 (drop 4 (write_u32 i @ write_u32 n)) = write_u32 n"
    by (simp_all add: header_length_def)
  have full: "(0 :: nat) \<le> header_length" "header_length \<le> 0 + length (write_u32 i @ write_u32 n @ buf)"
    by (simp_all add: header_length_def)
  show ?thesis
    unfolding read_state_new_def receive_header_full [OF full] Let_def t from_be_bytes_write ..
qed

lemma receive_frame:
  assumes "streams i = Some c" and "alive c" and "length msg \<le> unat max_message_length"
    and "frame i msg = Ret bs"
  shows "handle_receive alive streams read_state_new (bs @ rest) =
    bindR (handle_receive alive streams read_state_new rest) (\<lambda>(st, ms). Ret (st, (c, msg) # ms))"
proof -
  from assms(4) have l: "length msg < 2 ^ 32"
    and bs: "bs = write_u32 i @ write_u32 (of_nat (length msg)) @ msg" by (simp_all add: frame_Ret)
  let ?n = "of_nat (length msg) :: u32"
  have n: "unat ?n = length msg" using l by (simp add: unsigned_of_nat take_bit_nat_eq_self)
  have "\<not> max_message_length < ?n" using assms(3) n by (simp add: word_less_nat_alt)
  then show ?thesis
    by (simp add: bs receive_header assms(1,2) receive_body_full n)
qed

text \<open>Messages sent, as the bytes written\<close>

lemma mux_run_sends:
  "mux_run party alive s (map (\<lambda>(i, m). Outgoing i m) msgs) = Ret s' \<Longrightarrow>
   \<exists>fs. mapR (\<lambda>(i, m). frame i m) msgs = Ret fs \<and> written s' = written s @ concat fs"
proof (induction msgs arbitrary: s)
  case (Cons im msgs)
  obtain i m where im: "im = (i, m)" by force
  from Cons.prems obtain bs where f: "frame i m = Ret bs" and
    r: "mux_run party alive (s\<lparr>written := written s @ bs\<rparr>) (map (\<lambda>(i, m). Outgoing i m) msgs) = Ret s'"
    by (auto simp: im mux_run_Cons mux_turn_def)
  from Cons.IH [OF r] f show ?case by (auto simp: im)
qed simp

lemma receive_frames:
  assumes "\<And>i m. (i, m) \<in> set msgs \<Longrightarrow>
      (\<exists>c. streams i = Some c \<and> alive c) \<and> length m \<le> unat max_message_length"
    and "mapR (\<lambda>(i, m). frame i m) msgs = Ret fs"
  shows "handle_receive alive streams read_state_new (concat fs) =
    Ret (read_state_new, map (\<lambda>(i, m). (the (streams i), m)) msgs)"
  using assms
proof (induction msgs arbitrary: fs)
  case Nil
  then show ?case by (simp add: receive_nothing)
next
  case (Cons im msgs)
  obtain i m where im: "im = (i, m)" by force
  from Cons.prems(2) obtain bs fs' where f: "frame i m = Ret bs" "fs = bs # fs'"
    "mapR (\<lambda>(i, m). frame i m) msgs = Ret fs'" by (auto simp: im)
  from Cons.prems(1) [of i m] obtain c where c: "streams i = Some c" "alive c"
    "length m \<le> unat max_message_length" by (auto simp: im)
  have "handle_receive alive streams read_state_new (concat fs') =
    Ret (read_state_new, map (\<lambda>(i, m). (the (streams i), m)) msgs)"
    by (rule Cons.IH [OF _ f(3)]) (use Cons.prems(1) in auto)
  then show ?case using receive_frame [of streams i c alive m bs, OF c f(1)] by (simp add: im f(2) c(1))
qed

lemma receive_all_frames:
  assumes "\<forall>(i, m) \<in> set msgs. (\<exists>c. stream_map r i = Some c \<and> alive c) \<and> length m \<le> unat max_message_length"
    and "mux_run p alive' s (map (\<lambda>(i, m). Outgoing i m) msgs) = Ret s'"
    and "written s' = written s @ concat segs"
    and "read_state r = read_state_new"
  shows "mux_run q alive r (map Incoming segs) =
    Ret (r\<lparr>delivered := delivered r @ map (\<lambda>(i, m). (the (stream_map r i), m)) msgs\<rparr>)"
proof -
  from mux_run_sends [OF assms(2)] assms(3) obtain fs where
    fs: "mapR (\<lambda>(i, m). frame i m) msgs = Ret fs" "concat segs = concat fs" by auto
  have "handle_receive alive (stream_map r) read_state_new (concat fs) =
    Ret (read_state_new, map (\<lambda>(i, m). (the (stream_map r i), m)) msgs)"
    by (rule receive_frames [OF _ fs(1)]) (use assms(1) in fastforce)
  then have "mux_turn q alive r (Incoming (concat segs)) =
    Ret (r\<lparr>delivered := delivered r @ map (\<lambda>(i, m). (the (stream_map r i), m)) msgs\<rparr>)"
    by (simp add: mux_turn_def assms(4) fs(2))
  then show ?thesis by (simp add: incoming_concat assms(4))
qed

text \<open>C31. Messages sent on one side arrive on the other: whatever the order of the streams and
  however the connection cuts the bytes, each message is handed to the channel of its stream,
  whole, once, in the order sent, and the reader is ready for the next frame. The streams must
  be known to the receiver, their channels open and the messages no longer than the limit.\<close>

theorem frames_arrive:
  assumes "\<forall>(i, m) \<in> set msgs. (\<exists>c. stream_map r i = Some c \<and> alive c) \<and> length m \<le> unat max_message_length"
    and "mux_run p alive' s (map (\<lambda>(i, m). Outgoing i m) msgs) = Ret s'"
    and "written s' = written s @ concat segs"
    and "read_state r = read_state_new"
  shows "mux_run q alive r (map Incoming segs) =
    Ret (r\<lparr>delivered := delivered r @ map (\<lambda>(i, m). (the (stream_map r i), m)) msgs\<rparr>)"
  using assms by (rule receive_all_frames)

text \<open>A frame, and the same bytes in three reads\<close>

theorem frames_arrive_witness:
  "mux_run Server (\<lambda>c. True) demo_mux (map Incoming [[0, 0, 0, 0, 0, 0], [0, 2, 65, 66, 0, 0, 0, 0, 0, 0, 0], [0]]) =
   Ret (demo_mux\<lparr>delivered := [(7, [65, 66]), (7, [])]\<rparr>)"
  using frames_arrive [of "[(0, [65, 66]), (0, [])]" demo_mux "\<lambda>c. True" Client "\<lambda>c. True" mux_new
      "mux_new\<lparr>written := [0, 0, 0, 0, 0, 0, 0, 2, 65, 66, 0, 0, 0, 0, 0, 0, 0, 0]\<rparr>"
      "[[0, 0, 0, 0, 0, 0], [0, 2, 65, 66, 0, 0, 0, 0, 0, 0, 0], [0]]" Server]
  by (simp add: demo_mux_def mux_new_def max_message_length_def mux_run_def mux_turn_def frame_def write_u32_def)

text \<open>What the sender lets through the receiver may refuse: a message longer than the limit, its
  length still below \<open>2 ^ 32\<close>, is sent without complaint, and makes the other side panic, however
  its bytes are cut.\<close>

theorem oversized_message_panics:
  assumes "unat max_message_length < length msg" and "length msg < 2 ^ 32"
    and "stream_map r i = Some c" and "read_state r = read_state_new"
    and "concat segs = write_u32 i @ write_u32 (of_nat (length msg)) @ msg"
  shows "mux_turn p alive' s (Outgoing i msg) = Ret (s\<lparr>written := written s @ concat segs\<rparr>) \<and>
    mux_run q alive r (map Incoming segs) = Panic TodoHit"
proof -
  have "unat (of_nat (length msg) :: u32) = length msg"
    using assms(2) by (simp add: unsigned_of_nat take_bit_nat_eq_self)
  then have "max_message_length < of_nat (length msg)" using assms(1) by (simp add: word_less_nat_alt)
  then have "handle_receive alive (stream_map r) read_state_new (concat segs) = Panic TodoHit"
    by (simp add: assms(3,5) receive_header)
  then show ?thesis
    using assms(2) by (simp add: incoming_concat assms(4)) (simp add: mux_turn_def frame_def assms(4,5))
qed

theorem oversized_message_panics_witness:
  "mux_run Server (\<lambda>c. True) demo_mux
     (map Incoming [write_u32 0, write_u32 (of_nat 1024000001), replicate 1024000001 0]) = Panic TodoHit"
  using oversized_message_panics [of "replicate 1024000001 0" demo_mux 0 7
      "[write_u32 0, write_u32 (of_nat 1024000001), replicate 1024000001 0]"
      Client "\<lambda>c. True" mux_new Server "\<lambda>c. True"]
  by (simp add: max_message_length_def demo_mux_def mux_new_def)

section \<open>Streams\<close>

lemma mux_turn_map_le: "mux_turn party alive st e = Ret st' \<Longrightarrow> stream_map st \<subseteq>\<^sub>m stream_map st'"
  by (cases e) (auto simp: mux_turn_def Let_def map_le_def split: if_splits)

lemma mux_run_map_le: "mux_run party alive st es = Ret st' \<Longrightarrow> stream_map st \<subseteq>\<^sub>m stream_map st'"
  unfolding mux_run_def
  by (erule foldR_returned [where I = "\<lambda>s. stream_map st \<subseteq>\<^sub>m stream_map s"]) (auto dest: mux_turn_map_le intro: map_le_trans)

text \<open>A stream id is bound once: no command binds it to another channel, the answer to
  \<open>CreateStream\<close> says whether the id was free, and a stream stays where it is. The task of the
  new stream is spawned in either case: one whose id was taken sends on a stream that is not its own.\<close>

theorem streams_are_bound_once:
  assumes "mux_run party alive st es = Ret st1"
    and "mux_turn party alive st1 (CreateStream i sender rc) = Ret st2"
  shows "stream_map st \<subseteq>\<^sub>m stream_map st2 \<and>
    responses st2 = responses st1 @ [(rc, i \<notin> dom (stream_map st1))] \<and>
    stream_map st2 i = Some (case stream_map st1 i of None \<Rightarrow> sender | Some c \<Rightarrow> c) \<and>
    spawned st2 = spawned st1 @ [(is_client party, i, sender)]"
proof -
  have "stream_map st \<subseteq>\<^sub>m stream_map st2"
    using mux_run_map_le [OF assms(1)] mux_turn_map_le [OF assms(2)] by (rule map_le_trans)
  with assms(2) show ?thesis by (auto simp: mux_turn_def Let_def split: if_splits)
qed

theorem streams_are_bound_once_witness:
  "stream_map demo_mux \<subseteq>\<^sub>m stream_map (demo_mux\<lparr>spawned := [(True, 0, 7), (True, 0, 8)], responses := [(3, False)]\<rparr>)"
  using streams_are_bound_once [of Client "\<lambda>c. True" demo_mux "[]" demo_mux 0 8 3
      "demo_mux\<lparr>spawned := [(True, 0, 7), (True, 0, 8)], responses := [(3, False)]\<rparr>"]
  by (simp add: mux_turn_def demo_mux_def mux_new_def)

end
