(* ===== verification/Manager.thy ===== *)
theory Manager
  imports Multiplexer StoreHandlers
begin

text \<open>
  The manager of a connection, \<open>ossa-core/src/protocol/manager/v0.rs\<close>, with the statuses of stores
  of \<open>core.rs\<close> and the protocols a connection starts with, \<open>protocol/v0.rs\<close>. Every connection runs
  two managers. Each side has the initiative in one of them: there it advertises its stores and
  asks for streams; in the other it answers.

  A store id is hashed through its bytes, \<open>as_ref\<close>. What a manager tells stores and the multiplexer is
  collected in order; their answers on oneshot channels are arguments, \<open>None\<close> when the other end
  dropped the channel.
\<close>

section \<open>Statuses of stores\<close>

datatype store_status = StoreInitializing | StoreRunning chan

fun is_initializing :: "store_status \<Rightarrow> bool" where
  "is_initializing StoreInitializing = True"
| "is_initializing (StoreRunning _) = False"

definition is_initialized :: "store_status \<Rightarrow> bool" where
  "is_initialized s = (\<not> is_initializing s)"

fun command_channel :: "store_status \<Rightarrow> chan option" where
  "command_channel StoreInitializing = None"
| "command_channel (StoreRunning c) = Some c"

type_synonym 'sid store_statuses = "('sid, store_status) btree"

definition running_stores :: "'sid store_statuses \<Rightarrow> ('sid \<times> chan) list" where
  "running_stores sts = List.map_filter (\<lambda>(i, s). map_option (Pair i) (command_channel s)) sts"

section \<open>Messages\<close>

datatype msg_manager_error = InvalidStreamId

datatype ('sid, 'h) msg_manager_request =
    AdvertiseStores bytes "'h list"
  | CreateStoreStream stream_id 'sid

datatype ('sid, 'h) msg_manager =
    ManagerRequest "('sid, 'h) msg_manager_request"
  | AdvertiseStoresResponse "bool list"
  | CreateStoreResponse "msg_manager_error + bool"

fun try_into_request :: "('sid, 'h) msg_manager \<Rightarrow> ('sid, 'h) msg_manager_request option" where
  "try_into_request (ManagerRequest r) = Some r"
| "try_into_request _ = None"

fun try_into_advertise_response :: "('sid, 'h) msg_manager \<Rightarrow> bool list option" where
  "try_into_advertise_response (AdvertiseStoresResponse r) = Some r"
| "try_into_advertise_response _ = None"

fun try_into_create_response :: "('sid, 'h) msg_manager \<Rightarrow> (msg_manager_error + bool) option" where
  "try_into_create_response (CreateStoreResponse r) = Some r"
| "try_into_create_response _ = None"

definition max_advertise_stores :: nat where
  "max_advertise_stores = 256"

section \<open>State\<close>

record 'd manager =
  party_with_initiative :: party
  man_peer :: 'd
  has_manager_channel :: bool
  latest_stream_id :: stream_id

definition manager_new :: "party \<Rightarrow> 'd \<Rightarrow> bool \<Rightarrow> stream_id \<Rightarrow> 'd manager" where
  "manager_new initiative peer_id manager_channel latest =
     \<lparr>party_with_initiative = initiative, man_peer = peer_id, has_manager_channel = manager_channel,
      latest_stream_id = latest\<rparr>"

fun server_has_initiative :: "'d manager \<Rightarrow> bool" where
  "server_has_initiative m = (case party_with_initiative m of Client \<Rightarrow> False | Server \<Rightarrow> True)"

text \<open>
  What a manager sends besides messages: commands to stores, and to the multiplexer the command to
  create a stream for a task.
\<close>

datatype ('h, 'd, 'id, 'hd) manager_effect =
    TellStore chan "('h, 'd, 'id, 'hd) untyped_store_command"
  | AskMultiplexer stream_id nat

record ('sid, 'h, 'd, 'id, 'hd) manager_run =
  man :: "'d manager"
  man_stream :: "('sid, 'h) msg_manager stream"
  man_told :: "('h, 'd, 'id, 'hd) manager_effect list"

text \<open>Which channels of stores still have a receiver, and whether the multiplexer takes commands.\<close>

record manager_world =
  store_open :: "chan \<Rightarrow> bool"
  mux_open :: bool

section \<open>Advertising stores\<close>

definition hash_store_id_with_nonce :: "('s, 'h) hash_ops \<Rightarrow> ('sid \<Rightarrow> bytes) \<Rightarrow> bytes \<Rightarrow> 'sid \<Rightarrow> 'h" where
  "hash_store_id_with_nonce K as_ref nonce sid =
     hash_finalize K (hash_update K (hash_update K (hash_new K) nonce) (as_ref sid))"

text \<open>A store whose channel is closed is only logged.\<close>

definition handle_shared_stores ::
    "manager_world \<Rightarrow> 'd \<Rightarrow> ('sid \<times> chan) list \<Rightarrow> ('h, 'd, 'id, 'hd) manager_effect list" where
  "handle_shared_stores w peer_id shared_stores =
     map (\<lambda>(_, c). TellStore c (RegisterPeers [peer_id])) (filter (\<lambda>(_, c). store_open w c) shared_stores)"

definition stores_to_advertise :: "'sid store_statuses \<Rightarrow> ('sid \<times> chan) list" where
  "stores_to_advertise sts = take max_advertise_stores (running_stores sts)"

definition run_advertise_stores_server ::
    "('s, 'h) hash_ops \<Rightarrow> ('sid \<Rightarrow> bytes) \<Rightarrow> bytes \<Rightarrow> 'sid store_statuses
     \<Rightarrow> ('sid, 'h) msg_manager stream \<Rightarrow> (('sid \<times> chan) list \<times> ('sid, 'h) msg_manager stream) res" where
  "run_advertise_stores_server K as_ref nonce sts s =
     (let store_ids = stores_to_advertise sts;
          hashed = map (\<lambda>(i, _). hash_store_id_with_nonce K as_ref nonce i) store_ids in
      bindR (send_expect ManagerRequest s (AdvertiseStores nonce hashed)) (\<lambda>s.
      bindR (receive_expect try_into_advertise_response s) (\<lambda>(have_stores, s).
      Ret (map fst (filter snd (zip store_ids have_stores)), s))))"

text \<open>\<open>our\<close> is the table of our running stores by hash; a store found leaves it.\<close>

definition stores_by_hash ::
    "('s, 'h) hash_ops \<Rightarrow> ('sid \<Rightarrow> bytes) \<Rightarrow> bytes \<Rightarrow> 'sid store_statuses \<Rightarrow> ('h \<rightharpoonup> 'sid \<times> chan)" where
  "stores_by_hash K as_ref nonce sts =
     foldl (\<lambda>m (i, c). m(hash_store_id_with_nonce K as_ref nonce i \<mapsto> (i, c))) Map.empty (running_stores sts)"

definition find_store ::
    "('h \<rightharpoonup> 'sid \<times> chan) \<times> bool list \<times> ('sid \<times> chan) list \<Rightarrow> nat \<times> 'h
     \<Rightarrow> (('h \<rightharpoonup> 'sid \<times> chan) \<times> bool list \<times> ('sid \<times> chan) list) res" where
  "find_store st ih =
     (case st of (our, have_stores, mutual) \<Rightarrow>
        case our (snd ih) of
          None \<Rightarrow> Ret (our, have_stores, mutual)
        | Some v \<Rightarrow>
            bindR (store_at have_stores (fst ih) True) (\<lambda>have_stores.
            Ret (our(snd ih := None), have_stores, mutual @ [v])))"

definition run_advertise_stores_client ::
    "('s, 'h) hash_ops \<Rightarrow> ('sid \<Rightarrow> bytes) \<Rightarrow> bytes \<Rightarrow> 'h list \<Rightarrow> 'sid store_statuses
     \<Rightarrow> ('sid, 'h) msg_manager stream \<Rightarrow> (('sid \<times> chan) list \<times> ('sid, 'h) msg_manager stream) res" where
  "run_advertise_stores_client K as_ref nonce their_store_ids sts s =
     bindR (foldR find_store
              (stores_by_hash K as_ref nonce sts, replicate max_advertise_stores False, [])
              (enumerate 0 their_store_ids)) (\<lambda>(_, have_stores, mutual).
     bindR (send_expect AdvertiseStoresResponse s have_stores) (\<lambda>s.
     Ret (mutual, s)))"

section \<open>New streams\<close>

definition is_valid_stream_id :: "'d manager \<Rightarrow> bool \<Rightarrow> stream_id \<Rightarrow> bool" where
  "is_valid_stream_id m our_initiative stream_id =
     (let our_party = (if our_initiative then party_with_initiative m else dual (party_with_initiative m));
          their_party = dual our_party in
      if is_client their_party then stream_id mod 2 = 1 else stream_id mod 2 = 0)"

definition next_stream_id :: "'d manager \<Rightarrow> (stream_id \<times> 'd manager) res" where
  "next_stream_id m =
     (let i = latest_stream_id m in
      if unat i + 2 < 2 ^ 32 then Ret (i + 2, m\<lparr>latest_stream_id := i + 2\<rparr>) else Panic ArithOverflow)"

text \<open>
  The answer to a request for a stream. \<open>rx\<close> is the oneshot channel the store answers on,
  \<open>store_reply\<close> the task it answers with, \<open>mux_reply\<close> the answer of the multiplexer.
\<close>

definition run_request_new_stream_client ::
    "manager_world \<Rightarrow> 'sid :: linorder store_statuses \<Rightarrow> chan \<Rightarrow> nat option option \<Rightarrow> bool option
     \<Rightarrow> ('sid, 'h, 'd, 'id, 'hd) manager_run \<Rightarrow> stream_id \<Rightarrow> 'sid
     \<Rightarrow> ('sid, 'h, 'd, 'id, 'hd) manager_run res" where
  "run_request_new_stream_client w sts rx store_reply mux_reply r stream_id sid =
     bindR
       (if \<not> is_valid_stream_id (man r) False stream_id then Ret (Inl InvalidStreamId, [])
        else
          case Option.bind (map_of sts sid) command_channel of
            None \<Rightarrow> Ret (Inr False, [])
          | Some store_chan \<Rightarrow>
              if \<not> store_open w store_chan then Panic ExpectFailed
              else
                let asked = [TellStore store_chan (SyncWithPeer (man_peer (man r)) rx)] in
                bindR (expect store_reply) (\<lambda>spawn_task.
                case spawn_task of
                  None \<Rightarrow> Ret (Inr False, asked)
                | Some task \<Rightarrow>
                    if \<not> mux_open w then Panic ExpectFailed
                    else bindR (expect mux_reply) (\<lambda>is_running.
                         Ret (Inr is_running, asked @ [AskMultiplexer stream_id task]))))
       (\<lambda>(accept, told).
     bindR (send_expect CreateStoreResponse (man_stream r) accept) (\<lambda>s.
     Ret (r\<lparr>man_stream := s, man_told := man_told r @ told\<rparr>)))"

definition run_request_new_stream_server ::
    "manager_world \<Rightarrow> bool option \<Rightarrow> ('sid, 'h, 'd, 'id, 'hd) manager_run \<Rightarrow> stream_id \<Rightarrow> 'sid \<Rightarrow> nat
     \<Rightarrow> ('sid, 'h, 'd, 'id, 'hd) manager_run res" where
  "run_request_new_stream_server w mux_reply r stream_id sid spawn_task =
     bindR (send_expect ManagerRequest (man_stream r) (CreateStoreStream stream_id sid)) (\<lambda>s.
     bindR (receive_expect try_into_create_response s) (\<lambda>(accept, s).
     case accept of
       Inl InvalidStreamId \<Rightarrow> Panic TodoHit
     | Inr False \<Rightarrow> Panic TodoHit
     | Inr True \<Rightarrow>
         if \<not> mux_open w then Panic ExpectFailed
         else bindR (expect mux_reply) (\<lambda>is_running.
              if is_running then
                Ret (r\<lparr>man_stream := s, man_told := man_told r @ [AskMultiplexer stream_id spawn_task]\<rparr>)
              else Panic ExplicitPanic)))"

section \<open>The loops\<close>

definition advertise ::
    "('s, 'h) hash_ops \<Rightarrow> ('sid \<Rightarrow> bytes) \<Rightarrow> manager_world \<Rightarrow> bytes \<Rightarrow> 'sid store_statuses
     \<Rightarrow> ('sid, 'h, 'd, 'id, 'hd) manager_run \<Rightarrow> ('sid, 'h, 'd, 'id, 'hd) manager_run res" where
  "advertise K as_ref w nonce sts r =
     bindR (run_advertise_stores_server K as_ref nonce sts (man_stream r)) (\<lambda>(shared_stores, s).
     Ret (r\<lparr>man_stream := s, man_told := man_told r @ handle_shared_stores w (man_peer (man r)) shared_stores\<rparr>))"

text \<open>
  What \<open>select!\<close> finds: the statuses changed, the sender of the statuses is gone, a
  command with the answer of the multiplexer, or the channel of commands is closed.
\<close>

datatype 'sid initiative_event =
    StoresChanged bytes "'sid store_statuses"
  | StoresGone
  | RequestStoreSync 'sid nat "bool option"
  | CommandsClosed

definition initiative_turn ::
    "('s, 'h) hash_ops \<Rightarrow> ('sid \<Rightarrow> bytes) \<Rightarrow> manager_world \<Rightarrow> ('sid, 'h, 'd, 'id, 'hd) manager_run
     \<Rightarrow> 'sid initiative_event \<Rightarrow> ('sid, 'h, 'd, 'id, 'hd) manager_run res" where
  "initiative_turn K as_ref w r e =
     (case e of
        StoresChanged nonce sts \<Rightarrow> advertise K as_ref w nonce sts r
      | StoresGone \<Rightarrow> Panic ExpectFailed
      | RequestStoreSync sid spawn_task mux_reply \<Rightarrow>
          bindR (next_stream_id (man r)) (\<lambda>(stream_id, m).
          run_request_new_stream_server w mux_reply (r\<lparr>man := m\<rparr>) stream_id sid spawn_task)
      | CommandsClosed \<Rightarrow> Ret r)"

definition run_with_initiative ::
    "('s, 'h) hash_ops \<Rightarrow> ('sid \<Rightarrow> bytes) \<Rightarrow> manager_world \<Rightarrow> bytes \<Rightarrow> 'sid store_statuses
     \<Rightarrow> ('sid, 'h, 'd, 'id, 'hd) manager_run \<Rightarrow> 'sid initiative_event list
     \<Rightarrow> ('sid, 'h, 'd, 'id, 'hd) manager_run res" where
  "run_with_initiative K as_ref w nonce sts r es =
     bindR (advertise K as_ref w nonce sts r) (\<lambda>r.
     if has_manager_channel (man r) then
       foldR (initiative_turn K as_ref w) (r\<lparr>man := (man r)\<lparr>has_manager_channel := False\<rparr>\<rparr>) es
     else Panic ExpectFailed)"

text \<open>What stores and the multiplexer have for the manager during one turn.\<close>

record 'sid answers =
  statuses_now :: "'sid store_statuses"
  oneshot :: chan
  store_reply :: "nat option option"
  mux_reply :: "bool option"

definition answering_turn ::
    "('s, 'h) hash_ops \<Rightarrow> ('sid :: linorder \<Rightarrow> bytes) \<Rightarrow> manager_world \<Rightarrow> ('sid, 'h, 'd, 'id, 'hd) manager_run
     \<Rightarrow> 'sid answers \<Rightarrow> ('sid, 'h, 'd, 'id, 'hd) manager_run res" where
  "answering_turn K as_ref w r a =
     bindR (receive_expect try_into_request (man_stream r)) (\<lambda>(request, s).
     case request of
       AdvertiseStores nonce store_ids \<Rightarrow>
         bindR (run_advertise_stores_client K as_ref nonce store_ids (statuses_now a) s) (\<lambda>(shared_stores, s).
         Ret (r\<lparr>man_stream := s,
                man_told := man_told r @ handle_shared_stores w (man_peer (man r)) shared_stores\<rparr>))
     | CreateStoreStream stream_id sid \<Rightarrow>
         run_request_new_stream_client w (statuses_now a) (oneshot a) (store_reply a) (mux_reply a)
           (r\<lparr>man_stream := s\<rparr>) stream_id sid)"

definition run_without_initiative ::
    "('s, 'h) hash_ops \<Rightarrow> ('sid :: linorder \<Rightarrow> bytes) \<Rightarrow> manager_world \<Rightarrow> ('sid, 'h, 'd, 'id, 'hd) manager_run
     \<Rightarrow> 'sid answers list \<Rightarrow> ('sid, 'h, 'd, 'id, 'hd) manager_run res" where
  "run_without_initiative K as_ref w r as = foldR (answering_turn K as_ref w) r as"

text \<open>Which of the two loops a side runs; the client waits five seconds before it takes the initiative.\<close>

datatype manager_mode = WithInitiative | WithoutInitiative

definition manager_run_server :: "'d manager \<Rightarrow> manager_mode" where
  "manager_run_server m = (if server_has_initiative m then WithInitiative else WithoutInitiative)"

definition manager_run_client :: "'d manager \<Rightarrow> manager_mode" where
  "manager_run_client m = (if server_has_initiative m then WithoutInitiative else WithInitiative)"

section \<open>The protocols of a new connection\<close>

datatype 'd mini_protocol = HeartbeatProtocol | ManagerProtocol "'d manager"

text \<open>The channel of commands goes to the manager in which this side has the initiative.\<close>

definition initial_miniprotocols :: "party \<Rightarrow> 'd \<Rightarrow> 'd mini_protocol list" where
  "initial_miniprotocols party peer_id =
     (let (client_chan, server_chan) = (if party = Client then (True, False) else (False, True)) in
      [HeartbeatProtocol,
       ManagerProtocol (manager_new Client peer_id client_chan 1),
       ManagerProtocol (manager_new Server peer_id server_chan 2)])"

section \<open>The two sides find the stores they share\<close>

lemma running_stores_Cons [simp]:
  "running_stores [] = []"
  "running_stores ((i, s) # sts) = (case command_channel s of None \<Rightarrow> [] | Some c \<Rightarrow> [(i, c)]) @ running_stores sts"
  by (auto simp: running_stores_def List.map_filter_simps split: option.split)

lemma running_stores_keys: "fst ` set (running_stores sts) \<subseteq> fst ` set sts"
proof (induction sts)
  case (Cons p sts)
  then show ?case by (cases p) (auto split: option.splits)
qed simp

lemma running_stores_distinct: "bt_ok sts \<Longrightarrow> distinct (map fst (running_stores sts))"
proof (induction sts)
  case (Cons p sts)
  obtain i s where p: "p = (i, s)" by force
  from Cons.prems have lt: "\<forall>k \<in> fst ` set sts. i < k" and ok: "bt_ok sts" by (auto simp: bt_ok_def p)
  have "i \<notin> fst ` set (running_stores sts)" using lt running_stores_keys [of sts] by (meson less_irrefl subsetD)
  with Cons.IH [OF ok] show ?case by (auto simp: p split: option.split)
qed simp

lemma stores_by_hash_lookup:
  fixes h :: "'sid \<Rightarrow> 'h" and sts :: "'sid store_statuses"
  assumes "distinct (map fst (running_stores sts))" and "inj_on h (insert i (fst ` set (running_stores sts)))"
    and "h = hash_store_id_with_nonce K as_ref nonce"
  shows "stores_by_hash K as_ref nonce sts (h i) = map_option (Pair i) (map_of (running_stores sts) i)"
proof -
  have "foldl (\<lambda>m (i, c). m(h i \<mapsto> (i, c))) m xs (h i) =
      (case map_of xs i of None \<Rightarrow> m (h i) | Some c \<Rightarrow> Some (i, c))"
    if "distinct (map fst xs)" "inj_on h (insert i (fst ` set xs))" for m :: "'h \<rightharpoonup> 'sid \<times> chan" and xs
    using that
  proof (induction xs arbitrary: m)
    case (Cons p xs)
    obtain j c where p: "p = (j, c)" by force
    have inj: "inj_on h (insert i (fst ` set xs))" using Cons.prems(2) by (rule inj_on_subset) auto
    have ne: "h j = h i \<longleftrightarrow> j = i" using Cons.prems(2) by (auto simp: p inj_on_def)
    have "map_of xs j = None" using Cons.prems(1) by (simp add: p map_of_eq_None_iff)
    with Cons.IH [OF _ inj] Cons.prems(1) ne show ?case by (auto simp: p split: option.split)
  qed simp
  from this [OF assms(1,2), of Map.empty] show ?thesis
    by (simp add: stores_by_hash_def assms(3) [symmetric] map_option_case split: option.split)
qed

text \<open>The answer to hashes that are all different and not too many.\<close>

lemma find_stores:
  assumes "distinct hs" and "length hs \<le> n"
  shows "foldR find_store (our, xs @ replicate n False, mutual) (enumerate (length xs) hs) =
    Ret (our |` (- set hs), xs @ map (\<lambda>h. our h \<noteq> None) hs @ replicate (n - length hs) False,
         mutual @ List.map_filter our hs)"
  using assms
proof (induction hs arbitrary: our xs n mutual)
  case (Cons h hs)
  then obtain k where n: "n = Suc k" by (cases n) auto
  have rest: "List.map_filter (our(h := None)) hs = List.map_filter our hs"
    "map (\<lambda>h'. (our(h := None)) h' \<noteq> None) hs = map (\<lambda>h. our h \<noteq> None) hs"
    using Cons.prems(1) by (auto simp: List.map_filter_def intro!: arg_cong [where f = "map _"] filter_cong map_cong)
  have step: "find_store (our, xs @ replicate n False, mutual) (length xs, h) =
      Ret (our(h := None), (xs @ [our h \<noteq> None]) @ replicate k False,
           mutual @ (case our h of None \<Rightarrow> [] | Some v \<Rightarrow> [v]))"
    by (auto simp: find_store_def n list_update_append fun_upd_idem split: option.split)
  have ih: "foldR find_store (our(h := None), (xs @ [our h \<noteq> None]) @ replicate k False,
        mutual @ (case our h of None \<Rightarrow> [] | Some v \<Rightarrow> [v])) (enumerate (length (xs @ [our h \<noteq> None])) hs) =
      Ret ((our(h := None)) |` (- set hs),
           (xs @ [our h \<noteq> None]) @ map (\<lambda>h'. (our(h := None)) h' \<noteq> None) hs @ replicate (k - length hs) False,
           (mutual @ (case our h of None \<Rightarrow> [] | Some v \<Rightarrow> [v])) @ List.map_filter (our(h := None)) hs)"
    by (rule Cons.IH) (use Cons.prems n in auto)
  have "foldR find_store (our, xs @ replicate n False, mutual) (enumerate (length xs) (h # hs)) =
      foldR find_store (our(h := None), (xs @ [our h \<noteq> None]) @ replicate k False,
        mutual @ (case our h of None \<Rightarrow> [] | Some v \<Rightarrow> [v])) (enumerate (length (xs @ [our h \<noteq> None])) hs)"
    by (simp only: enumerate_simps foldR.simps step bindR.simps length_append list.size add_0 plus_1_eq_Suc
        add_Suc_right add_0_right)
  then show ?case
    by (rule trans [OF _ trans [OF ih]])
      (use Cons.prems(1) in \<open>simp add: rest Compl_insert n List.map_filter_simps del: not_None_eq split: option.split\<close>)
qed (simp add: List.map_filter_simps restrict_map_def)

text \<open>The two sides of an advertisement \<open>adv\<close>, when the table \<open>our\<close> finds the stores of \<open>B\<close> by their hashes \<open>h\<close>.\<close>

lemma filter_zip_map: "map fst (filter snd (zip xs (map f xs @ r))) = filter f xs"
  by (induction xs) auto

lemma fst_filter_keys: "fst ` set (filter (\<lambda>(i, _). i \<in> T) xs) = fst ` set xs \<inter> T"
  by (induction xs) auto

lemma found_bits:
  assumes "\<And>i. i \<in> fst ` set adv \<Longrightarrow> our (h i) = map_option (Pair i) (map_of B i)"
  shows "map (\<lambda>h. our h \<noteq> None) (map (\<lambda>(i, _). h i) adv) = map (\<lambda>(i, _). i \<in> fst ` set B) adv"
  unfolding map_map
proof (rule map_cong [OF refl])
  fix p assume "p \<in> set adv"
  then show "((\<lambda>h. our h \<noteq> None) \<circ> (\<lambda>(i, _). h i)) p = (\<lambda>(i, _). i \<in> fst ` set B) p"
    using assms [of "fst p"] by (simp add: case_prod_unfold map_of_eq_None_iff del: not_None_eq)
qed

lemma found_stores:
  assumes "\<And>i. i \<in> fst ` set adv \<Longrightarrow> our (h i) = map_option (Pair i) (map_of B i)"
  shows "map fst (List.map_filter our (map (\<lambda>(i, _). h i) adv)) = map fst (filter (\<lambda>(i, _). i \<in> fst ` set B) adv) \<and>
    set (List.map_filter our (map (\<lambda>(i, _). h i) adv)) \<subseteq> set B"
  using assms
proof (induction adv)
  case (Cons p adv)
  obtain i c where p: "p = (i, c)" by force
  then have i: "our (h i) = map_option (Pair i) (map_of B i)" using Cons.prems by simp
  have mem: "map_of B i \<noteq> None \<longleftrightarrow> i \<in> fst ` set B" by (simp add: map_of_eq_None_iff del: not_None_eq)
  show ?case
    using Cons i mem by (cases "map_of B i") (auto simp: p List.map_filter_simps dest: map_of_SomeD)
qed (simp add: List.map_filter_simps)

lemma advertised_keys: "fst ` set (stores_to_advertise A) \<subseteq> fst ` set A"
  using running_stores_keys [of A] set_take_subset [of max_advertise_stores "running_stores A"]
  by (auto simp: stores_to_advertise_def)

lemma advertised_lookup:
  assumes "bt_ok B" and "inj_on h (fst ` set A \<union> fst ` set B)" and "h = hash_store_id_with_nonce K as_ref nonce"
    and "i \<in> fst ` set (stores_to_advertise A)"
  shows "stores_by_hash K as_ref nonce B (h i) = map_option (Pair i) (map_of (running_stores B) i)"
proof (rule stores_by_hash_lookup [OF running_stores_distinct [OF assms(1)] _ assms(3)])
  have "insert i (fst ` set (running_stores B)) \<subseteq> fst ` set A \<union> fst ` set B"
    using assms(4) advertised_keys [of A] running_stores_keys [of B] by blast
  with assms(2) show "inj_on h (insert i (fst ` set (running_stores B)))" by (rule inj_on_subset)
qed

lemma advertised_distinct:
  assumes "bt_ok A" and "inj_on h (fst ` set A \<union> T)"
  shows "distinct (map (\<lambda>(i, _). h i) (stores_to_advertise A))"
proof -
  have "distinct (map fst (stores_to_advertise A))"
    using running_stores_distinct [OF assms(1)] by (simp add: stores_to_advertise_def take_map [symmetric] distinct_take)
  then have "distinct (map h (map fst (stores_to_advertise A)))"
    unfolding distinct_map [of h] using inj_on_subset [OF assms(2)] advertised_keys [of A] by auto
  then show ?thesis by (simp add: comp_def case_prod_unfold)
qed

text \<open>C14. Two peers find exactly the stores they share. The stores one side advertises, each hidden
  behind a hash with a nonce, are answered with a bitmap; from it the advertising side keeps
  those of the advertised stores that run at the other side, and the answering side the same
  stores in the same order, each with the channel of its own task. When no more stores run
  than one message holds, these are all the stores that run on both sides.\<close>

theorem advertise_finds_common:
  fixes A B :: "'sid :: linorder store_statuses" and s c :: "('sid, 'h) msg_manager stream"
  assumes "bt_ok A" and "bt_ok B" and "is_open s" and "is_open c"
    and inj: "inj_on (hash_store_id_with_nonce K as_ref nonce) (fst ` set A \<union> fst ` set B)"
  shows "\<exists>hashes bits shared_s shared_c s' c'.
    run_advertise_stores_client K as_ref nonce hashes B c = Ret (shared_c, c') \<and>
    outgoing c' = outgoing c @ [AdvertiseStoresResponse bits] \<and>
    run_advertise_stores_server K as_ref nonce A (s\<lparr>incoming := [Inr (AdvertiseStoresResponse bits)]\<rparr>) = Ret (shared_s, s') \<and>
    outgoing s' = outgoing s @ [ManagerRequest (AdvertiseStores nonce hashes)] \<and>
    shared_s = filter (\<lambda>(i, _). i \<in> fst ` set (running_stores B)) (stores_to_advertise A) \<and>
    map fst shared_c = map fst shared_s \<and> set shared_c \<subseteq> set (running_stores B) \<and>
    (length (running_stores A) \<le> max_advertise_stores \<longrightarrow>
      fst ` set shared_s = fst ` set (running_stores A) \<inter> fst ` set (running_stores B))"
proof -
  let ?h = "hash_store_id_with_nonce K as_ref nonce" and ?adv = "stores_to_advertise A" and ?B = "running_stores B"
  let ?hs = "map (\<lambda>(i, _). ?h i) ?adv" and ?our = "stores_by_hash K as_ref nonce B"
  let ?known = "\<lambda>(i, _ :: chan). i \<in> fst ` set ?B"
  let ?bits = "map (\<lambda>h. ?our h \<noteq> None) ?hs @ replicate (max_advertise_stores - length ?hs) False"
  let ?c' = "c\<lparr>outgoing := outgoing c @ [AdvertiseStoresResponse ?bits]\<rparr>"
  let ?s' = "s\<lparr>outgoing := outgoing s @ [ManagerRequest (AdvertiseStores nonce ?hs)], incoming := []\<rparr>"
  have len: "length ?hs \<le> max_advertise_stores" by (simp add: stores_to_advertise_def)
  note look = advertised_lookup [OF assms(2) inj refl]
  have client: "run_advertise_stores_client K as_ref nonce ?hs B c = Ret (List.map_filter ?our ?hs, ?c')"
    using find_stores [OF advertised_distinct [OF assms(1) inj] len, of ?our "[]" "[]"] assms(4)
    by (simp add: run_advertise_stores_client_def send_expect_open del: not_None_eq)
  have bits: "map (\<lambda>h. ?our h \<noteq> None) ?hs = map ?known ?adv" by (rule found_bits) (rule look)
  have server: "run_advertise_stores_server K as_ref nonce A (s\<lparr>incoming := [Inr (AdvertiseStoresResponse ?bits)]\<rparr>) =
      Ret (filter ?known ?adv, ?s')"
    using assms(3) unfolding bits
    by (simp add: run_advertise_stores_server_def send_expect_open receive_expect_Inr filter_zip_map Let_def)
  have all: "length (running_stores A) \<le> max_advertise_stores \<longrightarrow>
      fst ` set (filter ?known ?adv) = fst ` set (running_stores A) \<inter> fst ` set ?B"
    unfolding fst_filter_keys by (simp add: stores_to_advertise_def)
  show ?thesis
    by (intro exI [of _ ?hs] exI [of _ ?bits] exI [of _ "filter ?known ?adv"] exI [of _ "List.map_filter ?our ?hs"]
        exI [of _ ?s'] exI [of _ ?c'] conjI client server all)
      (use found_stores [of ?adv ?our ?h ?B, OF look] in simp_all)
qed

definition demo_stores :: "nat store_statuses" where
  "demo_stores = [(1, StoreRunning 10), (2, StoreInitializing), (3, StoreRunning 11), (4, StoreRunning 12)]"

definition demo_stores' :: "nat store_statuses" where
  "demo_stores' = [(1, StoreInitializing), (2, StoreRunning 20), (3, StoreRunning 21), (4, StoreRunning 22)]"

definition demo_stream :: "(nat, bytes) msg_manager stream" where
  "demo_stream = \<lparr>incoming = [], outgoing = [], is_open = True\<rparr>"

lemma demo_inj: "inj_on (hash_store_id_with_nonce plain_hash (\<lambda>i. [of_nat i]) [1, 2, 3, 4]) (fst ` set demo_stores \<union> fst ` set demo_stores')"
  by (simp add: hash_store_id_with_nonce_def plain_hash_def demo_stores_def demo_stores'_def)

theorem advertise_finds_common_witness:
  "\<exists>hashes shared_c c'. run_advertise_stores_client plain_hash (\<lambda>i. [of_nat i]) [1, 2, 3, 4] hashes demo_stores' demo_stream =
     Ret (shared_c, c') \<and> map fst shared_c = [3, 4]"
proof -
  have "bt_ok demo_stores" "bt_ok demo_stores'" "is_open demo_stream"
    by (simp_all add: bt_ok_def demo_stores_def demo_stores'_def demo_stream_def)
  note * = advertise_finds_common [OF this(1,2) this(3) this(3) demo_inj]
  have "filter (\<lambda>(i, _). i \<in> fst ` set (running_stores demo_stores')) (stores_to_advertise demo_stores) = [(3, 11), (4, 12)]"
    by (simp add: stores_to_advertise_def max_advertise_stores_def demo_stores_def demo_stores'_def)
  with * show ?thesis by fastforce
qed

section \<open>Advertisements that are too long\<close>

lemma find_store_known:
  "foldR find_store (our, have, mutual) (enumerate k xs) = Panic IndexOutOfBounds \<or>
   (\<exists>our' have' mutual'. foldR find_store (our, have, mutual) (enumerate k xs) = Ret (our', have', mutual') \<and>
      length have' = length have \<and> (\<forall>h. h \<notin> set xs \<longrightarrow> our' h = our h))"
proof (induction xs arbitrary: our "have" mutual k)
  case (Cons x xs)
  show ?case
  proof (cases "our x = None \<or> k < length have")
    case True
    then obtain our1 have1 mutual1 where one: "find_store (our, have, mutual) (k, x) = Ret (our1, have1, mutual1)"
      "length have1 = length have" "\<forall>h. h \<noteq> x \<longrightarrow> our1 h = our h"
      by (cases "our x") (auto simp: find_store_def)
    show ?thesis using Cons.IH [of our1 have1 mutual1 "Suc k"] one by (auto simp: enumerate_simps)
  next
    case False
    then show ?thesis by (auto simp: enumerate_simps find_store_def store_at_def)
  qed
qed simp

text \<open>The length of an advertisement is not checked: when it names more stores than the bitmap
  of the answer has bits, and one of those past its end runs here, the answering manager panics.\<close>

theorem long_advertisement_panics:
  assumes "max_advertise_stores \<le> length hs" and "h \<notin> set hs"
    and "stores_by_hash K as_ref nonce sts h = Some v"
  shows "run_advertise_stores_client K as_ref nonce (hs @ h # rest) sts s = Panic IndexOutOfBounds"
proof -
  have "foldR find_store (our, replicate max_advertise_stores False, []) (enumerate 0 (hs @ h # rest)) = Panic IndexOutOfBounds"
    if "our h = Some v" for our :: "'a \<Rightarrow> ('b \<times> nat) option"
    using find_store_known [of our "replicate max_advertise_stores False" "[]" 0 hs] assms(1,2) that
    by (auto simp: enumerate_append_eq foldR_append enumerate_simps find_store_def store_at_def)
  from this [of "stores_by_hash K as_ref nonce sts", OF assms(3)] show ?thesis by (simp add: run_advertise_stores_client_def)
qed

theorem long_advertisement_panics_witness:
  "run_advertise_stores_client plain_hash (\<lambda>i. [of_nat i]) [1, 2, 3, 4] (replicate 256 [0] @ [[1, 2, 3, 4, 3]]) demo_stores demo_stream =
    Panic IndexOutOfBounds"
  using long_advertisement_panics [of "replicate 256 [0]" "[1, 2, 3, 4, 3]" plain_hash "\<lambda>i. [of_nat i]" "[1, 2, 3, 4]" demo_stores "(3, 11)" "[]" demo_stream]
  by (simp add: max_advertise_stores_def stores_by_hash_def hash_store_id_with_nonce_def plain_hash_def demo_stores_def)

end
