(* ===== verification/Connection.thy ===== *)
theory Connection
  imports Manager
begin

text \<open>
  The two ends of a connection together: on each side the two managers of \<open>protocol/manager/v0.rs\<close> and
  the multiplexer of \<open>network/multiplexer.rs\<close>. A store asks its manager for a stream, the request
  crosses the connection, and both multiplexers create the stream under one id.

  \<open>own c p\<close> is the manager in which \<open>p\<close> has the initiative, at \<open>p\<close>; \<open>peer_end c p\<close> is its
  partner at the other side.
\<close>

record ('sid, 'h, 'd, 'id, 'hd) conn =
  own :: "party \<Rightarrow> ('sid, 'h, 'd, 'id, 'hd) manager_run"
  peer_end :: "party \<Rightarrow> ('sid, 'h, 'd, 'id, 'hd) manager_run"
  conn_mux :: "party \<Rightarrow> mux_state"

definition manager_among :: "'d mini_protocol list \<Rightarrow> nat \<Rightarrow> 'd manager res" where
  "manager_among ps i = (case ps ! i of ManagerProtocol m \<Rightarrow> Ret m | HeartbeatProtocol \<Rightarrow> Panic Unreachable)"

definition manager_index :: "party \<Rightarrow> nat" where
  "manager_index p = (case p of Client \<Rightarrow> 1 | Server \<Rightarrow> 2)"

definition run_start :: "'d manager \<Rightarrow> ('sid, 'h, 'd, 'id, 'hd) manager_run" where
  "run_start m = \<lparr>man = m, man_stream = \<lparr>incoming = [], outgoing = [], is_open = True\<rparr>, man_told = []\<rparr>"

text \<open>\<open>device p\<close> is the id of the device at \<open>p\<close>, \<open>windows p\<close> the channels of its initial protocols.\<close>

definition connect_both ::
    "(party \<Rightarrow> 'd) \<Rightarrow> (party \<Rightarrow> nat list) \<Rightarrow> ('sid, 'h, 'd, 'id, 'hd) conn res" where
  "connect_both device windows =
     (let at = (\<lambda>p q. manager_among (initial_miniprotocols p (device (dual p))) (manager_index q)) in
      bindR (at Client Client) (\<lambda>cc. bindR (at Client Server) (\<lambda>cs.
      bindR (at Server Client) (\<lambda>sc. bindR (at Server Server) (\<lambda>ss.
      bindR (add_protocols Client (windows Client)) (\<lambda>mc.
      bindR (add_protocols Server (windows Server)) (\<lambda>ms.
      Ret \<lparr>own = (\<lambda>p. run_start (case p of Client \<Rightarrow> cc | Server \<Rightarrow> ss)),
           peer_end = (\<lambda>p. run_start (case p of Client \<Rightarrow> sc | Server \<Rightarrow> cs)),
           conn_mux = (\<lambda>p. case p of Client \<Rightarrow> mc | Server \<Rightarrow> ms)\<rparr>)))))))"

text \<open>
  A store at \<open>rq_party\<close> asks for a stream for \<open>rq_store\<close>: the task it hands over, the statuses of the
  stores at the other side and the task the store there answers with, and for each side the
  channels made on the way.
\<close>

record 'sid stream_request =
  rq_party :: party
  rq_store :: 'sid
  rq_task :: nat
  rq_statuses :: "'sid store_statuses"
  rq_answer :: nat
  rq_oneshot :: chan
  rq_window :: "party \<Rightarrow> nat"
  rq_response :: "party \<Rightarrow> nat"

definition open_stream ::
    "('s, 'h) hash_ops \<Rightarrow> ('sid :: linorder \<Rightarrow> bytes) \<Rightarrow> manager_world \<Rightarrow> ('sid, 'h, 'd, 'id, 'hd) conn
     \<Rightarrow> 'sid stream_request \<Rightarrow> ('sid, 'h, 'd, 'id, 'hd) conn res" where
  "open_stream K as_ref w c q =
     (let p = rq_party q; a = own c p; b = peer_end c p;
          create = (\<lambda>p i. mux_turn p (\<lambda>_. True) (conn_mux c p) (CreateStream i (rq_window q p) (rq_response q p)));
          arrives = (\<lambda>r m. r\<lparr>man_stream := (man_stream r)\<lparr>incoming := [Inr m]\<rparr>\<rparr>) in
      bindR (next_stream_id (man a)) (\<lambda>(i, _).
      bindR (create (dual p) i) (\<lambda>mb.
      bindR (answering_turn K as_ref w (arrives b (ManagerRequest (CreateStoreStream i (rq_store q))))
               \<lparr>statuses_now = rq_statuses q, oneshot = rq_oneshot q, store_reply = Some (Some (rq_answer q)),
                mux_reply = Some (snd (last (responses mb)))\<rparr>) (\<lambda>b.
      bindR (create p i) (\<lambda>ma.
      bindR (initiative_turn K as_ref w (arrives a (last (outgoing (man_stream b))))
               (RequestStoreSync (rq_store q) (rq_task q) (Some (snd (last (responses ma)))))) (\<lambda>a.
      Ret (c\<lparr>own := (own c)(p := a), peer_end := (peer_end c)(p := b),
             conn_mux := (conn_mux c)(p := ma, dual p := mb)\<rparr>)))))))"

section \<open>Ids\<close>

text \<open>The ids \<open>p\<close> gives to its streams, \<open>n\<close> of them; 0, 1 and 2 are the initial protocols.\<close>

definition stream_id_at :: "party \<Rightarrow> nat \<Rightarrow> stream_id" where
  "stream_id_at p k = of_nat (manager_index p + 2 * k)"

definition issued :: "party \<Rightarrow> nat \<Rightarrow> stream_id list" where
  "issued p n = map (\<lambda>k. stream_id_at p (Suc k)) [0 ..< n]"

definition asked_ids :: "('h, 'd, 'id, 'hd) manager_effect list \<Rightarrow> stream_id list" where
  "asked_ids es = List.map_filter (\<lambda>e. case e of AskMultiplexer i _ \<Rightarrow> Some i | _ \<Rightarrow> None) es"

lemma issued_Suc: "issued p (Suc n) = issued p n @ [stream_id_at p (Suc n)]"
  by (simp add: issued_def)

lemma manager_index_dual [simp]: "manager_index p < 3" "manager_index p \<noteq> manager_index (dual p)"
  by (cases p; simp add: manager_index_def)+

lemma unat_stream_id_at: "manager_index p + 2 * k < 2 ^ 32 \<Longrightarrow> unat (stream_id_at p k) = manager_index p + 2 * k"
  unfolding stream_id_at_def by (simp only: unsigned_of_nat) (simp add: take_bit_nat_eq_self)

lemma odd_word: "(i :: u32) mod 2 = 1 \<longleftrightarrow> odd (unat i)" "(i :: u32) mod 2 = 0 \<longleftrightarrow> even (unat i)"
  by (simp_all add: word_unat_eq_iff unat_mod_distrib odd_iff_mod_2_eq_one even_iff_mod_2_eq_zero)

lemma stream_id_valid:
  assumes "manager_index p + 2 * k < 2 ^ 32" and "party_with_initiative m = p"
  shows "is_valid_stream_id m False (stream_id_at p k)"
  using unat_stream_id_at [OF assms(1)] assms(2)
  by (cases p) (simp_all add: is_valid_stream_id_def odd_word manager_index_def)

lemma next_stream_id_at:
  assumes "manager_index p + 2 * Suc k < 2 ^ 32" and "latest_stream_id m = stream_id_at p k"
  shows "next_stream_id m = Ret (stream_id_at p (Suc k), m\<lparr>latest_stream_id := stream_id_at p (Suc k)\<rparr>)"
proof -
  have "unat (stream_id_at p k) + 2 < 2 ^ 32" using unat_stream_id_at [of p k] assms(1) by simp
  moreover have "stream_id_at p k + 2 = stream_id_at p (Suc k)" by (simp add: stream_id_at_def)
  ultimately show ?thesis by (simp add: next_stream_id_def assms(2))
qed

text \<open>An id is given once, by one party, and not to an initial protocol.\<close>

lemma stream_id_new:
  assumes "manager_index p + 2 * Suc (n p) < 2 ^ 32" and "\<And>r. manager_index r + 2 * n r < 2 ^ 32"
  shows "stream_id_at p (Suc (n p)) \<notin> {0, 1, 2} \<union> set (issued Client (n Client)) \<union> set (issued Server (n Server))"
proof -
  let ?u = "unat (stream_id_at p (Suc (n p)))"
  have u: "?u = manager_index p + 2 * Suc (n p)" by (rule unat_stream_id_at [OF assms(1)])
  have "stream_id_at p (Suc (n p)) \<notin> set (issued r (n r))" for r
  proof
    assume "stream_id_at p (Suc (n p)) \<in> set (issued r (n r))"
    then obtain k where k: "k < n r" "stream_id_at p (Suc (n p)) = stream_id_at r (Suc k)" by (auto simp: issued_def)
    with assms(2) [of r] have "?u = manager_index r + 2 * Suc k" by (simp add: unat_stream_id_at)
    with u k(1) show False by (cases p; cases r; simp add: manager_index_def; presburger)
  qed
  moreover have "?u \<noteq> unat (0 :: u32)" "?u \<noteq> unat (1 :: u32)" "?u \<noteq> unat (2 :: u32)"
    using u by (cases p; simp add: manager_index_def)+
  ultimately show ?thesis by auto
qed

section \<open>Both sides in step\<close>

definition asked_by :: "party \<Rightarrow> 'sid stream_request list \<Rightarrow> 'sid stream_request list" where
  "asked_by p qs = filter (\<lambda>q. rq_party q = p) qs"

text \<open>
  After the requests \<open>qs\<close>: both multiplexers know the initial protocols and the streams given to
  the requests; each manager that asked has sent one message per request, in order, with the ids
  of its party, and both managers have made their multiplexer create just these streams.
\<close>

definition in_step :: "'sid stream_request list \<Rightarrow> ('sid, 'h, 'd, 'id, 'hd) conn \<Rightarrow> bool" where
  "in_step qs c \<longleftrightarrow> (\<forall>p.
     party_with_initiative (man (own c p)) = p \<and> party_with_initiative (man (peer_end c p)) = p \<and>
     is_open (man_stream (own c p)) \<and> is_open (man_stream (peer_end c p)) \<and>
     latest_stream_id (man (own c p)) = stream_id_at p (length (asked_by p qs)) \<and>
     dom (stream_map (conn_mux c p)) =
       {0, 1, 2} \<union> set (issued Client (length (asked_by Client qs))) \<union> set (issued Server (length (asked_by Server qs))) \<and>
     outgoing (man_stream (own c p)) =
       map (\<lambda>(i, q). ManagerRequest (CreateStoreStream i (rq_store q)))
         (zip (issued p (length (asked_by p qs))) (asked_by p qs)) \<and>
     asked_ids (man_told (own c p)) = issued p (length (asked_by p qs)) \<and>
     asked_ids (man_told (peer_end c p)) = issued p (length (asked_by p qs)))"

lemma create_new:
  assumes "i \<notin> dom (stream_map m)"
  obtains m' where "mux_turn p (\<lambda>_. True) m (CreateStream i s rc) = Ret m'"
    "dom (stream_map m') = insert i (dom (stream_map m))" "snd (last (responses m'))"
  using assms by (auto simp: mux_turn_def Let_def)

lemma answer_new:
  assumes "party_with_initiative (man b) = p" and "manager_index p + 2 * k < 2 ^ 32"
    and "map_of sts sid = Some (StoreRunning ch)" and "store_open w ch" and "mux_open w" and "is_open (man_stream b)"
  shows "answering_turn K as_ref w
      (b\<lparr>man_stream := (man_stream b)\<lparr>incoming := [Inr (ManagerRequest (CreateStoreStream (stream_id_at p k) sid))]\<rparr>\<rparr>)
      \<lparr>statuses_now = sts, oneshot = rx, store_reply = Some (Some task), mux_reply = Some True\<rparr> =
    Ret (b\<lparr>man_stream := (man_stream b)\<lparr>incoming := [], outgoing := outgoing (man_stream b) @ [CreateStoreResponse (Inr True)]\<rparr>,
           man_told := man_told b @ [TellStore ch (SyncWithPeer (man_peer (man b)) rx), AskMultiplexer (stream_id_at p k) task]\<rparr>)"
  using assms stream_id_valid [OF assms(2,1)]
  by (simp add: answering_turn_def receive_expect_Inr run_request_new_stream_client_def send_expect_open)

lemma ask_new:
  assumes "next_stream_id (man a) = Ret (i, m)" and "mux_open w" and "is_open (man_stream a)"
  shows "initiative_turn K as_ref w (a\<lparr>man_stream := (man_stream a)\<lparr>incoming := [Inr (CreateStoreResponse (Inr True))]\<rparr>\<rparr>)
      (RequestStoreSync sid task (Some True)) =
    Ret (a\<lparr>man := m, man_stream := (man_stream a)\<lparr>outgoing := outgoing (man_stream a) @ [ManagerRequest (CreateStoreStream i sid)], incoming := []\<rparr>,
           man_told := man_told a @ [AskMultiplexer i task]\<rparr>)"
  using assms by (simp add: initiative_turn_def receive_expect_Inr run_request_new_stream_server_def send_expect_open)

lemma asked_ids_append [simp]: "asked_ids (xs @ ys) = asked_ids xs @ asked_ids ys"
  by (simp add: asked_ids_def List.map_filter_def)

lemma asked_ids_one [simp]:
  "asked_ids [] = []" "asked_ids (TellStore ch cmd # es) = asked_ids es" "asked_ids (AskMultiplexer i t # es) = i # asked_ids es"
  by (simp_all add: asked_ids_def List.map_filter_def)

lemma asked_by_snoc: "asked_by p (qs @ [q]) = asked_by p qs @ (if rq_party q = p then [q] else [])"
  by (simp add: asked_by_def)

lemma dual_ne [simp]: "dual p \<noteq> p" "r \<noteq> p \<longleftrightarrow> r = dual p"
  by (cases p; cases r; simp)+

lemma length_issued [simp]: "length (issued p n) = n"
  by (simp add: issued_def)

lemma open_stream_in_step:
  assumes "in_step qs c" and "map_of (rq_statuses q) (rq_store q) = Some (StoreRunning ch)" and "store_open w ch" and "mux_open w"
    and bound: "\<And>p. manager_index p + 2 * length (asked_by p (qs @ [q])) < 2 ^ 32"
  shows "\<exists>c'. open_stream K as_ref w c q = Ret c' \<and> in_step (qs @ [q]) c'"
proof -
  let ?p = "rq_party q"
  let ?n = "\<lambda>p. length (asked_by p qs)"
  let ?i = "stream_id_at ?p (Suc (?n ?p))"
  note inv = assms(1) [unfolded in_step_def, rule_format]
  have bp: "manager_index ?p + 2 * Suc (?n ?p) < 2 ^ 32" using bound [of ?p] by (simp add: asked_by_snoc)
  have br: "manager_index r + 2 * ?n r < 2 ^ 32" for r
    using bound [of r] by (simp add: asked_by_snoc split: if_splits)
  have new: "?i \<notin> dom (stream_map (conn_mux c r))" for r
    using stream_id_new [of ?p ?n, OF bp br] inv [of r] by simp
  obtain ma where ma: "mux_turn ?p (\<lambda>_. True) (conn_mux c ?p) (CreateStream ?i (rq_window q ?p) (rq_response q ?p)) = Ret ma"
      "dom (stream_map ma) = insert ?i (dom (stream_map (conn_mux c ?p)))" "snd (last (responses ma))"
    by (rule create_new [OF new])
  obtain mb where mb: "mux_turn (dual ?p) (\<lambda>_. True) (conn_mux c (dual ?p))
        (CreateStream ?i (rq_window q (dual ?p)) (rq_response q (dual ?p))) = Ret mb"
      "dom (stream_map mb) = insert ?i (dom (stream_map (conn_mux c (dual ?p))))" "snd (last (responses mb))"
    by (rule create_new [OF new])
  from inv [of ?p] have next_id: "next_stream_id (man (own c ?p)) = Ret (?i, (man (own c ?p))\<lparr>latest_stream_id := ?i\<rparr>)"
    by (intro next_stream_id_at [OF bp]) simp
  let ?b = "peer_end c ?p" and ?a = "own c ?p"
  let ?b' = "?b\<lparr>man_stream := (man_stream ?b)\<lparr>incoming := [], outgoing := outgoing (man_stream ?b) @ [CreateStoreResponse (Inr True)]\<rparr>,
     man_told := man_told ?b @ [TellStore ch (SyncWithPeer (man_peer (man ?b)) (rq_oneshot q)), AskMultiplexer ?i (rq_answer q)]\<rparr>"
  let ?a' = "?a\<lparr>man := (man ?a)\<lparr>latest_stream_id := ?i\<rparr>,
     man_stream := (man_stream ?a)\<lparr>outgoing := outgoing (man_stream ?a) @ [ManagerRequest (CreateStoreStream ?i (rq_store q))], incoming := []\<rparr>,
     man_told := man_told ?a @ [AskMultiplexer ?i (rq_task q)]\<rparr>"
  let ?c' = "c\<lparr>own := (own c)(?p := ?a'), peer_end := (peer_end c)(?p := ?b'),
     conn_mux := (conn_mux c)(?p := ma, dual ?p := mb)\<rparr>"
  have "open_stream K as_ref w c q = Ret ?c'"
    unfolding open_stream_def Let_def next_id bindR.simps case_prod_conv mb(1) ma(1)
    using mb(3) ma(3) inv [of ?p]
      answer_new [OF _ bp assms(2-4), of ?b K as_ref "rq_oneshot q" "rq_answer q"]
      ask_new [OF next_id assms(4), of K as_ref "rq_store q" "rq_task q"]
    by simp
  moreover have "in_step (qs @ [q]) ?c'"
    unfolding in_step_def
  proof
    fix r
    show "party_with_initiative (man (own ?c' r)) = r \<and> party_with_initiative (man (peer_end ?c' r)) = r \<and>
     is_open (man_stream (own ?c' r)) \<and> is_open (man_stream (peer_end ?c' r)) \<and>
     latest_stream_id (man (own ?c' r)) = stream_id_at r (length (asked_by r (qs @ [q]))) \<and>
     dom (stream_map (conn_mux ?c' r)) = {0, 1, 2} \<union> set (issued Client (length (asked_by Client (qs @ [q]))))
       \<union> set (issued Server (length (asked_by Server (qs @ [q])))) \<and>
     outgoing (man_stream (own ?c' r)) = map (\<lambda>(i, q). ManagerRequest (CreateStoreStream i (rq_store q)))
         (zip (issued r (length (asked_by r (qs @ [q])))) (asked_by r (qs @ [q]))) \<and>
     asked_ids (man_told (own ?c' r)) = issued r (length (asked_by r (qs @ [q]))) \<and>
     asked_ids (man_told (peer_end ?c' r)) = issued r (length (asked_by r (qs @ [q])))"
      using inv [of r] ma(2) mb(2) inv [of ?p] inv [of "dual ?p"]
      by (cases "r = ?p") (cases "rq_party q"; simp add: asked_by_snoc issued_Suc)+
  qed
  ultimately show ?thesis by blast
qed

lemma connect_both_in_step:
  assumes "length (windows Client) = 3" and "length (windows Server) = 3"
  shows "\<exists>c. connect_both device windows = Ret c \<and> in_step [] c"
proof -
  have three: "\<exists>m. add_protocols p xs = Ret m \<and> dom (stream_map m) = {0, 1, 2}" if len: "length xs = 3" for p xs
  proof -
    obtain x y z where "xs = [x, y, z]" using len by (auto simp: numeral_3_eq_3 length_Suc_conv)
    then show ?thesis by (auto simp: add_protocols_def add_protocol_def mux_new_def upt_rec)
  qed
  from three [OF assms(1), of Client] obtain mc where mc: "add_protocols Client (windows Client) = Ret mc"
    "dom (stream_map mc) = {0, 1, 2}" by blast
  from three [OF assms(2), of Server] obtain ms where ms: "add_protocols Server (windows Server) = Ret ms"
    "dom (stream_map ms) = {0, 1, 2}" by blast
  show ?thesis
    using mc ms
    by (auto simp: connect_both_def initial_miniprotocols_def manager_among_def manager_index_def manager_new_def
        in_step_def run_start_def asked_by_def issued_def asked_ids_def stream_id_at_def List.map_filter_simps split: party.split)
qed

text \<open>C13. Both ends of a connection open the same streams. From the start of a connection, whichever
  side asks, in any order, for streams for stores that run at the other side: no request fails,
  each side gives its streams the ids of its parity in turn, one per request and never one of the
  three initial protocols or of a stream the other side asked for, the other side takes every id
  as valid, and after every request both multiplexers know exactly the same streams.\<close>

theorem streams_open_in_step:
  assumes "length (windows Client) = 3" and "length (windows Server) = 3" and "mux_open w"
    and running: "\<And>q. q \<in> set qs \<Longrightarrow> \<exists>ch. map_of (rq_statuses q) (rq_store q) = Some (StoreRunning ch) \<and> store_open w ch"
    and bound: "\<And>p. manager_index p + 2 * length (asked_by p qs) < 2 ^ 32"
  shows "\<exists>c :: ('sid :: linorder, 'h, 'd, 'id, 'hd) conn. bindR (connect_both device windows) (\<lambda>c. foldR (open_stream K as_ref w) c qs) = Ret c \<and> in_step qs c"
  using running bound
proof (induction qs rule: rev_induct)
  case Nil
  then show ?case using connect_both_in_step [OF assms(1,2), of device] by auto
next
  case (snoc q qs)
  have b: "manager_index p + 2 * length (asked_by p qs) < 2 ^ 32" for p
    using snoc.prems(2) [of p] by (simp add: asked_by_snoc split: if_splits)
  have runs: "\<exists>ch. map_of (rq_statuses q') (rq_store q') = Some (StoreRunning ch) \<and> store_open w ch" if "q' \<in> set qs" for q'
    using snoc.prems(1) [of q'] that by simp
  from snoc.IH [OF _ b] runs obtain c :: "('sid, 'h, 'd, 'id, 'hd) conn" where
    c: "bindR (connect_both device windows) (\<lambda>c. foldR (open_stream K as_ref w) c qs) = Ret c" "in_step qs c" by blast
  obtain ch where "map_of (rq_statuses q) (rq_store q) = Some (StoreRunning ch)" "store_open w ch"
    using snoc.prems(1) [of q] by auto
  from open_stream_in_step [OF c(2) this assms(3) snoc.prems(2)] obtain c' :: "('sid, 'h, 'd, 'id, 'hd) conn" where
    c': "open_stream K as_ref w c q = Ret c'" "in_step (qs @ [q]) c'" by blast
  with c(1) have
    "bindR (connect_both device windows) (\<lambda>c. foldR (open_stream K as_ref w) c (qs @ [q])) = Ret c'"
    by (auto simp: foldR_append)
  with c'(2) show ?case by blast
qed

definition demo_request :: "party \<Rightarrow> nat stream_request" where
  "demo_request p = \<lparr>rq_party = p, rq_store = 3, rq_task = 1, rq_statuses = demo_stores, rq_answer = 2, rq_oneshot = 5,
     rq_window = (\<lambda>_. 6), rq_response = (\<lambda>_. 7)\<rparr>"

theorem streams_open_in_step_witness:
  "\<exists>c :: (nat, bytes, nat, nat, nat) conn.
    bindR (connect_both (\<lambda>p. manager_index p) (\<lambda>_. [10, 11, 12]))
      (\<lambda>c. foldR (open_stream plain_hash (\<lambda>i. [of_nat i]) \<lparr>store_open = (\<lambda>_. True), mux_open = True\<rparr>) c
             [demo_request Client, demo_request Server, demo_request Client]) = Ret c \<and>
    dom (stream_map (conn_mux c Server)) = {0, 1, 2, 3, 4, 5}"
proof -
  let ?qs = "[demo_request Client, demo_request Server, demo_request Client]"
  have "\<exists>c :: (nat, bytes, nat, nat, nat) conn.
    bindR (connect_both (\<lambda>p. manager_index p) (\<lambda>_. [10, 11, 12]))
      (\<lambda>c. foldR (open_stream plain_hash (\<lambda>i. [of_nat i]) \<lparr>store_open = (\<lambda>_. True), mux_open = True\<rparr>) c ?qs) = Ret c \<and>
    in_step ?qs c"
  proof (rule streams_open_in_step)
    show "manager_index p + 2 * length (asked_by p ?qs) < 2 ^ 32" for p
      by (cases p) (simp_all add: asked_by_def demo_request_def manager_index_def)
  qed (auto simp: demo_request_def demo_stores_def)
  moreover have "{0, 1, 2} \<union> set (issued Client (length (asked_by Client ?qs))) \<union> set (issued Server (length (asked_by Server ?qs)))
      = {0, 1, 2, 3, 4, 5 :: u32}"
    by (auto simp: asked_by_def demo_request_def issued_def stream_id_at_def manager_index_def upt_rec)
  ultimately show ?thesis unfolding in_step_def by metis
qed

text \<open>C24. A refusal ends the manager that asked. When the store does not run at the other side, or the
  id is not one the asking side may give, the other side answers so and goes on with nothing
  created; the side that asked panics on the answer, and with it the manager that alone can
  ask for streams on this connection.\<close>

theorem refusal_ends_the_manager:
  fixes a b :: "('sid :: linorder, 'h, 'd, 'id, 'hd) manager_run"
  assumes "Option.bind (map_of (statuses_now ans) sid) command_channel = None \<or> \<not> is_valid_stream_id (man b) False i"
    and "is_open (man_stream a)" and "is_open (man_stream b)" and "next_stream_id (man a) = Ret (i, m)"
    and "incoming (man_stream b) = Inr (ManagerRequest (CreateStoreStream i sid)) # rest"
  shows "\<exists>accept. accept \<noteq> Inr True \<and>
    answering_turn K as_ref w b ans =
      Ret (b\<lparr>man_stream := (man_stream b)\<lparr>incoming := rest, outgoing := outgoing (man_stream b) @ [CreateStoreResponse accept]\<rparr>\<rparr>) \<and>
    initiative_turn K as_ref w (a\<lparr>man_stream := (man_stream a)\<lparr>incoming := [Inr (CreateStoreResponse accept)]\<rparr>\<rparr>)
      (RequestStoreSync sid task r) = Panic TodoHit"
proof -
  let ?accept = "if is_valid_stream_id (man b) False i then Inr False else Inl InvalidStreamId"
  have "answering_turn K as_ref w b ans =
      Ret (b\<lparr>man_stream := (man_stream b)\<lparr>incoming := rest, outgoing := outgoing (man_stream b) @ [CreateStoreResponse ?accept]\<rparr>\<rparr>)"
    using assms(1,3,5) by (auto simp: answering_turn_def receive_expect_Inr run_request_new_stream_client_def send_expect_open)
  moreover have "initiative_turn K as_ref w (a\<lparr>man_stream := (man_stream a)\<lparr>incoming := [Inr (CreateStoreResponse ?accept)]\<rparr>\<rparr>)
      (RequestStoreSync sid task r) = Panic TodoHit"
    using assms(2,4) by (simp add: initiative_turn_def receive_expect_Inr run_request_new_stream_server_def send_expect_open)
  ultimately show ?thesis by (intro exI [of _ ?accept]) simp
qed

definition demo_run :: "bool \<Rightarrow> (nat, bytes, nat, nat, nat) manager_run" where
  "demo_run asked = (run_start (manager_new Client 1 True 1))\<lparr>man_stream :=
     \<lparr>incoming = (if asked then [Inr (ManagerRequest (CreateStoreStream 3 2))] else []), outgoing = [], is_open = True\<rparr>\<rparr>"

theorem refusal_ends_the_manager_witness:
  "\<exists>accept. initiative_turn plain_hash (\<lambda>i. [of_nat i]) \<lparr>store_open = (\<lambda>_. True), mux_open = True\<rparr>
     ((demo_run False)\<lparr>man_stream := (man_stream (demo_run False))\<lparr>incoming := [Inr (CreateStoreResponse accept)]\<rparr>\<rparr>)
     (RequestStoreSync 2 1 None) = Panic TodoHit"
proof -
  let ?ans = "\<lparr>statuses_now = demo_stores, oneshot = 5, store_reply = None, mux_reply = None\<rparr>"
  have "next_stream_id (man (demo_run False)) = Ret (3, (man (demo_run False))\<lparr>latest_stream_id := 3\<rparr>)"
    by (simp add: next_stream_id_def demo_run_def run_start_def manager_new_def)
  then show ?thesis
    using refusal_ends_the_manager [of ?ans 2 "demo_run True" 3 "demo_run False" "(man (demo_run False))\<lparr>latest_stream_id := 3\<rparr>" "[]"
      plain_hash "\<lambda>i. [of_nat i]" "\<lparr>store_open = (\<lambda>_. True), mux_open = True\<rparr>" 1 None]
    by (auto simp: demo_stores_def demo_run_def)
qed

end
