(* ===== verification/Heartbeat.thy ===== *)
theory Heartbeat
  imports NetProtocol
begin

text \<open>
  The heartbeat of a connection, \<open>ossa-core/src/protocol/heartbeat/v0.rs\<close>. The server sleeps, sends
  a random number, expects it back and confirms it; the client sends back what it receives and
  expects the confirmation. Each turn of the server comes with what \<open>rand\<close> draws and with the
  clock, a time of a type left open; each turn of the client with its clock. Latencies are only
  logged.
\<close>

section \<open>Messages\<close>

record 'tm msg_heartbeat_request =
  server_time :: 'tm
  req_heartbeat :: u64

record 'tm msg_heartbeat_client_response =
  client_heartbeat :: u64
  client_time :: 'tm

record msg_heartbeat_server_response =
  confirmed_heartbeat :: u64

datatype 'tm msg_heartbeat =
    HeartbeatRequest "'tm msg_heartbeat_request"
  | HeartbeatClientResponse "'tm msg_heartbeat_client_response"
  | HeartbeatServerResponse msg_heartbeat_server_response

fun try_into_heartbeat_request :: "'tm msg_heartbeat \<Rightarrow> 'tm msg_heartbeat_request option" where
  "try_into_heartbeat_request (HeartbeatRequest r) = Some r"
| "try_into_heartbeat_request _ = None"

fun try_into_client_response :: "'tm msg_heartbeat \<Rightarrow> 'tm msg_heartbeat_client_response option" where
  "try_into_client_response (HeartbeatClientResponse r) = Some r"
| "try_into_client_response _ = None"

fun try_into_server_response :: "'tm msg_heartbeat \<Rightarrow> msg_heartbeat_server_response option" where
  "try_into_server_response (HeartbeatServerResponse r) = Some r"
| "try_into_server_response _ = None"

section \<open>The two sides\<close>

definition heartbeat_sleep :: nat where "heartbeat_sleep = 15"

definition heartbeat_range :: nat where "heartbeat_range = 30"

text \<open>One draw: a number below \<open>heartbeat_range\<close>, the heartbeat, and the time after the sleep.\<close>

record 'tm draw =
  in_range :: nat
  heartbeat :: u64
  now :: 'tm

definition sleep_time :: "'tm draw \<Rightarrow> nat" where
  "sleep_time d = heartbeat_sleep + in_range d"

text \<open>The seconds slept so far, and the stream.\<close>

definition heartbeat_server_turn ::
    "nat \<times> 'tm msg_heartbeat stream \<Rightarrow> 'tm draw \<Rightarrow> (nat \<times> 'tm msg_heartbeat stream) res" where
  "heartbeat_server_turn st d =
     (case st of (slept, s) \<Rightarrow>
        bindR (send_expect HeartbeatRequest s \<lparr>server_time = now d, req_heartbeat = heartbeat d\<rparr>) (\<lambda>s.
        bindR (receive_expect try_into_client_response s) (\<lambda>(client_response, s).
        if client_heartbeat client_response \<noteq> heartbeat d then Panic TodoHit
        else bindR (send_expect HeartbeatServerResponse s \<lparr>confirmed_heartbeat = heartbeat d\<rparr>) (\<lambda>s.
             Ret (slept + sleep_time d, s)))))"

definition heartbeat_run_server ::
    "'tm msg_heartbeat stream \<Rightarrow> 'tm draw list \<Rightarrow> (nat \<times> 'tm msg_heartbeat stream) res" where
  "heartbeat_run_server s ds = foldR heartbeat_server_turn (0, s) ds"

definition heartbeat_client_turn :: "'tm msg_heartbeat stream \<Rightarrow> 'tm \<Rightarrow> 'tm msg_heartbeat stream res" where
  "heartbeat_client_turn s tm =
     bindR (receive_expect try_into_heartbeat_request s) (\<lambda>(request, s).
     bindR (send_expect HeartbeatClientResponse s
              \<lparr>client_heartbeat = req_heartbeat request, client_time = tm\<rparr>) (\<lambda>s.
     bindR (receive_expect try_into_server_response s) (\<lambda>(server_response, s).
     if confirmed_heartbeat server_response \<noteq> req_heartbeat request then Panic TodoHit else Ret s)))"

definition heartbeat_run_client :: "'tm msg_heartbeat stream \<Rightarrow> 'tm list \<Rightarrow> 'tm msg_heartbeat stream res" where
  "heartbeat_run_client s tms = foldR heartbeat_client_turn s tms"

section \<open>Rounds\<close>

text \<open>What the server and the client send in rounds with the draws \<open>ds\<close> and the clock \<open>tms\<close>.\<close>

definition server_says :: "'tm draw list \<Rightarrow> 'tm msg_heartbeat list" where
  "server_says ds = concat (map (\<lambda>d.
     [HeartbeatRequest \<lparr>server_time = now d, req_heartbeat = heartbeat d\<rparr>,
      HeartbeatServerResponse \<lparr>confirmed_heartbeat = heartbeat d\<rparr>]) ds)"

definition client_says :: "'tm draw list \<Rightarrow> 'tm list \<Rightarrow> 'tm msg_heartbeat list" where
  "client_says ds tms =
     map (\<lambda>(d, tm). HeartbeatClientResponse \<lparr>client_heartbeat = heartbeat d, client_time = tm\<rparr>) (zip ds tms)"

lemma server_rounds:
  assumes "is_open s" and "length tms = length ds"
  shows "foldR heartbeat_server_turn (n, s\<lparr>incoming := map Inr (client_says ds tms) @ rest\<rparr>) ds =
    Ret (n + sum_list (map sleep_time ds), s\<lparr>incoming := rest, outgoing := outgoing s @ server_says ds\<rparr>)"
  using assms
proof (induction ds arbitrary: n s tms)
  case (Cons d ds)
  then obtain tm tms' where "tms = tm # tms'" "length tms' = length ds" by (cases tms) auto
  let ?s = "s\<lparr>outgoing := outgoing s @ server_says [d]\<rparr>"
  have "heartbeat_server_turn (n, s\<lparr>incoming := map Inr (client_says (d # ds) tms) @ rest\<rparr>) d =
      Ret (n + sleep_time d, ?s\<lparr>incoming := map Inr (client_says ds tms') @ rest\<rparr>)"
    using Cons.prems(1) \<open>tms = tm # tms'\<close>
    by (simp add: heartbeat_server_turn_def send_expect_open receive_expect_Inr client_says_def server_says_def)
  with Cons.IH [of ?s tms' "n + sleep_time d"] Cons.prems(1) \<open>length tms' = length ds\<close> show ?case
    by (simp add: server_says_def add.assoc)
qed (simp add: server_says_def client_says_def)

lemma client_rounds:
  assumes "is_open s" and "length tms = length ds"
  shows "foldR heartbeat_client_turn (s\<lparr>incoming := map Inr (server_says ds) @ rest\<rparr>) tms =
    Ret (s\<lparr>incoming := rest, outgoing := outgoing s @ client_says ds tms\<rparr>)"
  using assms
proof (induction ds arbitrary: s tms)
  case (Cons d ds)
  then obtain tm tms' where "tms = tm # tms'" "length tms' = length ds" by (cases tms) auto
  let ?s = "s\<lparr>outgoing := outgoing s @ client_says [d] [tm]\<rparr>"
  have "heartbeat_client_turn (s\<lparr>incoming := map Inr (server_says (d # ds)) @ rest\<rparr>) tm =
      Ret (?s\<lparr>incoming := map Inr (server_says ds) @ rest\<rparr>)"
    using Cons.prems(1)
    by (simp add: heartbeat_client_turn_def send_expect_open receive_expect_Inr client_says_def server_says_def)
  with Cons.IH [of ?s tms'] Cons.prems(1) \<open>length tms' = length ds\<close> \<open>tms = tm # tms'\<close> show ?case
    by (simp add: client_says_def)
qed (simp add: server_says_def client_says_def)



end
