(* ===== verification/Crdt.thy ===== *)
theory Crdt
  imports CausalTime
begin

text \<open>
  Replicated data of \<open>ossa-crdt\<close>: the law of the trait \<open>CRDT\<close> in \<open>lib.rs\<close>, as a locale, with what
  it is for: replicas that apply the same operations in causal orders agree. Then the
  two-phase map of \<open>map/twopmap.rs\<close>, a map whose values are themselves replicated data.
\<close>

section \<open>Replicas that apply the same operations\<close>

text \<open>
  \<open>ops\<close> are all operations there will be, \<open>before\<close> is causality. An operation is enabled on a
  replica that has applied \<open>D\<close> when it is new there and its causes are not. A causal order is
  a sequence of operations, each enabled when its turn comes.
\<close>

definition enabled :: "'e set \<Rightarrow> ('e \<Rightarrow> 'e \<Rightarrow> bool) \<Rightarrow> 'e set \<Rightarrow> 'e \<Rightarrow> bool" where
  "enabled ops before D a \<longleftrightarrow> a \<in> ops \<and> a \<notin> D \<and> (\<forall>b \<in> ops. before b a \<longrightarrow> b \<in> D)"

fun causal_order :: "'e set \<Rightarrow> ('e \<Rightarrow> 'e \<Rightarrow> bool) \<Rightarrow> 'e set \<Rightarrow> 'e list \<Rightarrow> bool" where
  "causal_order ops before D [] = True"
| "causal_order ops before D (x # xs) = (enabled ops before D x \<and> causal_order ops before (insert x D) xs)"

text \<open>
  The contract of \<open>CRDT::apply\<close>: an enabled operation is applied without a panic, and two that are
  enabled together commute. \<open>inv\<close> describes the states of a replica that has applied \<open>D\<close>.
\<close>

locale causal_effects =
  fixes ops :: "'e set" and before :: "'e \<Rightarrow> 'e \<Rightarrow> bool"
    and app :: "'s \<Rightarrow> 'e \<Rightarrow> 's res" and inv :: "'e set \<Rightarrow> 's \<Rightarrow> bool"
  assumes applies: "inv D s \<Longrightarrow> enabled ops before D a \<Longrightarrow> \<exists>s'. app s a = Ret s' \<and> inv (insert a D) s'"
    and commutes: "inv D s \<Longrightarrow> enabled ops before D a \<Longrightarrow> enabled ops before D b \<Longrightarrow> a \<noteq> b \<Longrightarrow>
      bindR (app s a) (\<lambda>s. app s b) = bindR (app s b) (\<lambda>s. app s a)"
begin

lemma to_front:
  assumes "inv D s" "causal_order ops before D (us @ x # vs)" "enabled ops before D x"
  shows "foldR app s (us @ x # vs) = foldR app s (x # us @ vs) \<and> causal_order ops before D (x # us @ vs)"
  using assms
proof (induction us arbitrary: D s)
  case (Cons u us)
  have u: "enabled ops before D u" and rest: "causal_order ops before (insert u D) (us @ x # vs)"
    using Cons.prems(2) by simp_all
  have new: "x \<notin> E" if "causal_order ops before E (us @ x # vs)" for E us
    using that by (induction us arbitrary: E) (auto simp: enabled_def)
  have ne: "x \<noteq> u" using new [OF rest] by auto
  have x: "enabled ops before (insert u D) x" and u': "enabled ops before (insert x D) u"
    using Cons.prems(3) u ne by (auto simp: enabled_def)
  from applies [OF Cons.prems(1) u] obtain s1 where s1: "app s u = Ret s1" "inv (insert u D) s1" by blast
  note ih = Cons.IH [OF s1(2) rest x]
  have "foldR app s (u # us @ x # vs) = bindR (bindR (app s u) (\<lambda>s. app s x)) (\<lambda>s. foldR app s (us @ vs))"
    using ih s1(1) by (simp add: res_simps)
  also have "\<dots> = foldR app s (x # u # us @ vs)"
    using commutes [OF Cons.prems(1) u Cons.prems(3)] ne by (simp add: res_simps)
  finally show ?case using ih Cons.prems(3) u' by (simp add: insert_commute)
qed simp

lemma converge:
  assumes "inv D s" "causal_order ops before D xs" "causal_order ops before D ys" "set xs = set ys"
  shows "\<exists>s'. foldR app s xs = Ret s' \<and> foldR app s ys = Ret s' \<and> inv (D \<union> set xs) s'"
  using assms
proof (induction xs arbitrary: D s ys)
  case (Cons x xs)
  have x: "enabled ops before D x" and xs: "causal_order ops before (insert x D) xs" using Cons.prems(2) by simp_all
  from Cons.prems(4) obtain us vs where ys: "ys = us @ x # vs" by (metis list.set_intros(1) split_list)
  from to_front [OF Cons.prems(1) Cons.prems(3) [unfolded ys] x] have
    front: "foldR app s ys = foldR app s (x # us @ vs)" and vs: "causal_order ops before (insert x D) (us @ vs)"
    unfolding ys by auto
  from applies [OF Cons.prems(1) x] obtain s1 where s1: "app s x = Ret s1" "inv (insert x D) s1" by blast
  have out: "e \<notin> E" if "causal_order ops before E zs" "e \<in> set zs" for E e zs
    using that by (induction zs arbitrary: E) (auto simp: enabled_def)
  have "set xs = set (us @ vs)"
    using Cons.prems(4) out [OF xs, of x] out [OF vs, of x] ys by (metis Diff_insert_absorb Un_insert_right insert_iff list.simps(15) set_append)
  from Cons.IH [OF s1(2) xs vs this] front s1(1) show ?case by auto
qed simp

end

section \<open>The two-phase map\<close>

text \<open>The ordered map and set are those of the crate \<open>im\<close>, used through these operations.\<close>

record ('m, 's, 'k, 'v) im_ops =
  om_new :: 'm
  om_get :: "'m \<Rightarrow> 'k \<Rightarrow> 'v option"
  om_insert :: "'m \<Rightarrow> 'k \<Rightarrow> 'v \<Rightarrow> 'm"
  om_remove :: "'m \<Rightarrow> 'k \<Rightarrow> 'm"
  os_new :: 's
  os_contains :: "'s \<Rightarrow> 'k \<Rightarrow> bool"
  os_insert :: "'s \<Rightarrow> 'k \<Rightarrow> 's"

locale im_laws =
  fixes I :: "('m, 's, 'k, 'v) im_ops"
  assumes get_new: "om_get I (om_new I) = Map.empty"
    and get_insert: "om_get I (om_insert I m k v) = (om_get I m)(k \<mapsto> v)"
    and get_remove: "om_get I (om_remove I m k) = (om_get I m)(k := None)"
    and map_ext: "om_get I m = om_get I m' \<Longrightarrow> m = m'"
    and contains_new: "\<not> os_contains I (os_new I) k"
    and contains_insert: "os_contains I (os_insert I s k) j \<longleftrightarrow> j = k \<or> os_contains I s j"
    and set_ext: "os_contains I s = os_contains I s' \<Longrightarrow> s = s'"

definition plain_im :: "('k \<rightharpoonup> 'v, 'k set, 'k, 'v) im_ops" where
  "plain_im = \<lparr>om_new = Map.empty, om_get = (\<lambda>m. m), om_insert = (\<lambda>m k v. m(k \<mapsto> v)), om_remove = (\<lambda>m k. m(k := None)),
     os_new = {}, os_contains = (\<lambda>s k. k \<in> s), os_insert = (\<lambda>s k. insert k s)\<rparr>"

interpretation plain: im_laws plain_im
  by unfold_locales (auto simp: plain_im_def fun_eq_iff)

record ('m, 's) twop_map =
  entries :: 'm
  tombstones :: 's

datatype ('k, 'v, 'op) twop_op =
    InsertKey 'k 'v
  | ApplyKey 'k 'op
  | DeleteKey 'k

fun twop_key :: "('k, 'v, 'op) twop_op \<Rightarrow> 'k" where
  "twop_key (InsertKey k v) = k"
| "twop_key (ApplyKey k op) = k"
| "twop_key (DeleteKey k) = k"

text \<open>\<open>apply\<close>, given that of the values, which is passed the causal state.\<close>

definition twop_apply ::
    "('m, 's, 'k, 'v) im_ops \<Rightarrow> ('v \<Rightarrow> 'op \<Rightarrow> 'v res) \<Rightarrow> ('m, 's) twop_map \<Rightarrow> ('k, 'v, 'op) twop_op
     \<Rightarrow> ('m, 's) twop_map res" where
  "twop_apply I value_apply self op =
     (if os_contains I (tombstones self) (twop_key op) then Ret self
      else case op of
        InsertKey key v \<Rightarrow>
          (case om_get I (entries self) key of
             Some _ \<Rightarrow> Panic Unreachable
           | None \<Rightarrow> Ret (self\<lparr>entries := om_insert I (entries self) key v\<rparr>))
      | ApplyKey key operation \<Rightarrow>
          (case om_get I (entries self) key of
             Some v \<Rightarrow>
               bindR (value_apply v operation) (\<lambda>v. Ret (self\<lparr>entries := om_insert I (entries self) key v\<rparr>))
           | None \<Rightarrow> Panic Unreachable)
      | DeleteKey key \<Rightarrow>
          Ret \<lparr>entries = om_remove I (entries self) key, tombstones = os_insert I (tombstones self) key\<rparr>)"

definition twop_new :: "('m, 's, 'k, 'v) im_ops \<Rightarrow> ('m, 's) twop_map" where
  "twop_new I = \<lparr>entries = om_new I, tombstones = os_new I\<rparr>"

definition twop_get :: "('m, 's, 'k, 'v) im_ops \<Rightarrow> ('m, 's) twop_map \<Rightarrow> 'k \<Rightarrow> 'v option" where
  "twop_get I self key = om_get I (entries self) key"

definition twop_insert :: "'k \<Rightarrow> 'v \<Rightarrow> ('k, 'v, 'op) twop_op" where
  "twop_insert key v = InsertKey key v"

text \<open>\<open>ConcretizeTime\<close> of an operation, given those of its parts\<close>

fun twop_concretize ::
    "('ks \<Rightarrow> 'h \<Rightarrow> 'k) \<Rightarrow> ('vs \<Rightarrow> 'h \<Rightarrow> 'v) \<Rightarrow> ('ops \<Rightarrow> 'h \<Rightarrow> 'op) \<Rightarrow> ('ks, 'vs, 'ops) twop_op \<Rightarrow> 'h
     \<Rightarrow> ('k, 'v, 'op) twop_op" where
  "twop_concretize key_of value_of op_of (InsertKey key v) current_header =
     InsertKey (key_of key current_header) (value_of v current_header)"
| "twop_concretize key_of value_of op_of (ApplyKey key operation) current_header =
     ApplyKey (key_of key current_header) (op_of operation current_header)"
| "twop_concretize key_of value_of op_of (DeleteKey key) current_header =
     DeleteKey (key_of key current_header)"


section \<open>Convergence of the map\<close>

text \<open>
  Operations are named by their times. A history is well formed when a key is inserted once and
  an operation on its value comes after that. Deletions may come at any time. The operations
  on the value of a key are a history of their own.
\<close>

definition at_times :: "('t \<Rightarrow> 't \<Rightarrow> bool) \<Rightarrow> 't \<times> 'a \<Rightarrow> 't \<times> 'a \<Rightarrow> bool" where
  "at_times before a b = before (fst a) (fst b)"

definition value_ops :: "('t \<times> ('k, 'v, 'op) twop_op) set \<Rightarrow> 'k \<Rightarrow> ('t \<times> 'op) set" where
  "value_ops ops k = {(t, a). (t, ApplyKey k a) \<in> ops}"

definition twop_history :: "('t \<times> ('k, 'v, 'op) twop_op) set \<Rightarrow> ('t \<Rightarrow> 't \<Rightarrow> bool) \<Rightarrow> bool" where
  "twop_history ops before \<longleftrightarrow>
     (\<forall>t k v t' v'. (t, InsertKey k v) \<in> ops \<and> (t', InsertKey k v') \<in> ops \<longrightarrow> t = t' \<and> v = v') \<and>
     (\<forall>t k a. (t, ApplyKey k a) \<in> ops \<longrightarrow> (\<exists>t' v. (t', InsertKey k v) \<in> ops \<and> before t' t))"

definition values_converge ::
    "('t \<times> ('k, 'v, 'op) twop_op) set \<Rightarrow> ('t \<Rightarrow> 't \<Rightarrow> bool) \<Rightarrow> ('v \<Rightarrow> 'op \<Rightarrow> 'v res)
     \<Rightarrow> ('k \<Rightarrow> ('t \<times> 'op) set \<Rightarrow> 'v \<Rightarrow> bool) \<Rightarrow> bool" where
  "values_converge ops before value_apply value_inv \<longleftrightarrow>
     (\<forall>k. causal_effects (value_ops ops k) (at_times before) (\<lambda>v e. value_apply v (snd e)) (value_inv k)) \<and>
     (\<forall>t k v. (t, InsertKey k v) \<in> ops \<longrightarrow> value_inv k {} v)"

text \<open>What a replica that has applied \<open>D\<close> holds of a key: whether it is deleted, and its entry\<close>

definition key_inv ::
    "('k \<Rightarrow> ('t \<times> 'op) set \<Rightarrow> 'v \<Rightarrow> bool) \<Rightarrow> ('t \<times> ('k, 'v, 'op) twop_op) set \<Rightarrow> 'k \<Rightarrow> bool \<Rightarrow> 'v option \<Rightarrow> bool" where
  "key_inv value_inv D k deleted entry \<longleftrightarrow>
     (deleted \<longleftrightarrow> (\<exists>t. (t, DeleteKey k) \<in> D)) \<and>
     (case entry of
        None \<Rightarrow> deleted \<or> (\<forall>t v. (t, InsertKey k v) \<notin> D)
      | Some v \<Rightarrow> \<not> deleted \<and> (\<exists>t v0. (t, InsertKey k v0) \<in> D) \<and> value_inv k (value_ops D k) v)"

definition twop_inv ::
    "('m, 's, 'k, 'v) im_ops \<Rightarrow> ('t \<times> ('k, 'v, 'op) twop_op) set \<Rightarrow> ('t \<Rightarrow> 't \<Rightarrow> bool) \<Rightarrow> ('v \<Rightarrow> 'op \<Rightarrow> 'v res)
     \<Rightarrow> ('k \<Rightarrow> ('t \<times> 'op) set \<Rightarrow> 'v \<Rightarrow> bool) \<Rightarrow> ('t \<times> ('k, 'v, 'op) twop_op) set \<Rightarrow> ('m, 's) twop_map \<Rightarrow> bool" where
  "twop_inv I ops before value_apply value_inv D s \<longleftrightarrow>
     twop_history ops before \<and> values_converge ops before value_apply value_inv \<and> D \<subseteq> ops \<and>
     (\<forall>a \<in> D. \<forall>b \<in> ops. at_times before b a \<longrightarrow> b \<in> D) \<and>
     (\<forall>k. key_inv value_inv D k (os_contains I (tombstones s) k) (om_get I (entries s) k))"

lemma value_ops_insert [simp]:
  "value_ops (insert (t, InsertKey k v) D) j = value_ops D j"
  "value_ops (insert (t, DeleteKey k) D) j = value_ops D j"
  "value_ops (insert (t, ApplyKey k a) D) j = (if j = k then insert (t, a) (value_ops D j) else value_ops D j)"
  by (auto simp: value_ops_def)

lemma key_inv_other: "twop_key (snd a) \<noteq> k \<Longrightarrow> key_inv vi (insert a D) k x e = key_inv vi D k x e"
  by (cases a; cases "snd a") (auto simp: key_inv_def split: option.splits)

text \<open>An operation on the value of a key, enabled for the map, is enabled for the value.\<close>

lemma value_enabled:
  "enabled ops (at_times before) D (t, ApplyKey k a) \<Longrightarrow>
   enabled (value_ops ops k) (at_times before) (value_ops D k) (t, a)"
  by (auto simp: enabled_def value_ops_def at_times_def)

lemma twop_historyD:
  assumes "twop_history ops before"
  shows "(t, InsertKey k v) \<in> ops \<Longrightarrow> (t', InsertKey k v') \<in> ops \<Longrightarrow> t = t' \<and> v = v'"
    and "(t, ApplyKey k a) \<in> ops \<Longrightarrow> \<exists>t' v. (t', InsertKey k v) \<in> ops \<and> before t' t"
  using assms unfolding twop_history_def by blast+

lemma apply_enabled_inserted:
  assumes "twop_history ops before" "enabled ops (at_times before) D (t, ApplyKey k a)"
  shows "\<exists>t' v. (t', InsertKey k v) \<in> D"
proof -
  have "(t, ApplyKey k a) \<in> ops" using assms(2) by (simp add: enabled_def)
  from twop_historyD(2) [OF assms(1) this] assms(2) show ?thesis by (force simp: enabled_def at_times_def)
qed

lemma insert_enabled_new:
  assumes "twop_history ops before" "enabled ops (at_times before) D (t, InsertKey k v)" "D \<subseteq> ops"
  shows "(t', InsertKey k v') \<notin> D"
proof
  assume a: "(t', InsertKey k v') \<in> D"
  from assms(2) have "(t, InsertKey k v) \<in> ops" "(t, InsertKey k v) \<notin> D" by (simp_all add: enabled_def)
  with twop_historyD(1) [OF assms(1) this(1), of t' v'] a assms(3) show False by blast
qed

lemma insert_enabled_first:
  assumes h: "twop_history ops before" and e: "enabled ops (at_times before) D (t, InsertKey k v)" and D: "D \<subseteq> ops"
    and closed: "\<forall>a \<in> D. \<forall>b \<in> ops. at_times before b a \<longrightarrow> b \<in> D"
  shows "value_ops D k = {}"
proof -
  have False if a: "(t', ApplyKey k a) \<in> D" for t' a
  proof -
    from a D have "(t', ApplyKey k a) \<in> ops" by blast
    from twop_historyD(2) [OF h this] obtain t'' v' where "(t'', InsertKey k v') \<in> ops" "before t'' t'" by blast
    with closed a have "(t'', InsertKey k v') \<in> D" by (force simp: at_times_def)
    with insert_enabled_new [OF h e D] show False by blast
  qed
  then show ?thesis by (auto simp: value_ops_def)
qed

text \<open>What an operation does to the entry of its key\<close>

fun cell_apply ::
    "('v \<Rightarrow> 'op \<Rightarrow> 'v res) \<Rightarrow> bool \<times> 'v option \<Rightarrow> ('k, 'v, 'op) twop_op \<Rightarrow> (bool \<times> 'v option) res" where
  "cell_apply va (True, e) x = Ret (True, e)"
| "cell_apply va (False, None) (InsertKey k v) = Ret (False, Some v)"
| "cell_apply va (False, Some w) (InsertKey k v) = Panic Unreachable"
| "cell_apply va (False, None) (ApplyKey k a) = Panic Unreachable"
| "cell_apply va (False, Some w) (ApplyKey k a) = bindR (va w a) (\<lambda>w. Ret (False, Some w))"
| "cell_apply va (False, e) (DeleteKey k) = Ret (True, None)"

definition cell :: "('m, 's, 'k, 'v) im_ops \<Rightarrow> ('m, 's) twop_map \<Rightarrow> 'k \<Rightarrow> bool \<times> 'v option" where
  "cell I s k = (os_contains I (tombstones s) k, om_get I (entries s) k)"

context im_laws begin

text \<open>An operation that keeps the entries of other keys needs a look at its own key only.\<close>

lemma twop_inv_at_key:
  assumes inv: "twop_inv I ops before va vi D s" and e: "enabled ops (at_times before) D (t, oper)"
    and at: "key_inv vi (insert (t, oper) D) (twop_key oper) (os_contains I (tombstones s') (twop_key oper)) (om_get I (entries s') (twop_key oper))"
    and rest: "\<And>k. k \<noteq> twop_key oper \<Longrightarrow> os_contains I (tombstones s') k = os_contains I (tombstones s) k"
      "\<And>k. k \<noteq> twop_key oper \<Longrightarrow> om_get I (entries s') k = om_get I (entries s) k"
  shows "twop_inv I ops before va vi (insert (t, oper) D) s'"
proof -
  have "key_inv vi (insert (t, oper) D) k (os_contains I (tombstones s') k) (om_get I (entries s') k)" for k
    using at rest inv key_inv_other [of "(t, oper)" k vi D] by (cases "k = twop_key oper") (simp_all add: twop_inv_def)
  moreover have "\<forall>a \<in> insert (t, oper) D. \<forall>b \<in> ops. at_times before b a \<longrightarrow> b \<in> insert (t, oper) D"
    using inv e by (auto simp: twop_inv_def enabled_def)
  moreover have "insert (t, oper) D \<subseteq> ops" using inv e by (simp add: twop_inv_def enabled_def)
  ultimately show ?thesis using inv by (simp add: twop_inv_def)
qed

text \<open>An enabled operation on a key that is not deleted finds what it needs.\<close>

lemma insert_finds_none:
  assumes inv: "twop_inv I ops before va vi D s" and e: "enabled ops (at_times before) D (t, InsertKey k v)"
    and alive: "\<not> os_contains I (tombstones s) k"
  shows "om_get I (entries s) k = None" and "value_ops D k = {}" and "vi k {} v"
proof -
  from inv have h: "twop_history ops before" and D: "D \<subseteq> ops"
    and closed: "\<forall>a \<in> D. \<forall>b \<in> ops. at_times before b a \<longrightarrow> b \<in> D"
    and key: "key_inv vi D k (os_contains I (tombstones s) k) (om_get I (entries s) k)" by (simp_all add: twop_inv_def)
  show "om_get I (entries s) k = None"
    using key insert_enabled_new [OF h e D] by (cases "om_get I (entries s) k") (auto simp: key_inv_def)
  show "value_ops D k = {}" by (rule insert_enabled_first [OF h e D closed])
  show "vi k {} v" using inv e by (auto simp: twop_inv_def values_converge_def enabled_def)
qed

lemma apply_finds_value:
  assumes inv: "twop_inv I ops before va vi D s" and e: "enabled ops (at_times before) D (t, ApplyKey k x)"
    and alive: "\<not> os_contains I (tombstones s) k"
  shows "\<exists>v v'. om_get I (entries s) k = Some v \<and> va v x = Ret v' \<and> vi k (insert (t, x) (value_ops D k)) v'"
proof -
  from inv have h: "twop_history ops before" and vc: "values_converge ops before va vi"
    and key: "key_inv vi D k (os_contains I (tombstones s) k) (om_get I (entries s) k)" by (simp_all add: twop_inv_def)
  from apply_enabled_inserted [OF h e] key alive obtain v where
    v: "om_get I (entries s) k = Some v" "vi k (value_ops D k) v"
    by (cases "om_get I (entries s) k") (auto simp: key_inv_def)
  from vc have "causal_effects (value_ops ops k) (at_times before) (\<lambda>v e. va v (snd e)) (vi k)"
    by (simp add: values_converge_def)
  from causal_effects.applies [OF this v(2) value_enabled [OF e]] v(1) show ?thesis by auto
qed

lemma twop_applies:
  assumes inv: "twop_inv I ops before va vi D s" and e: "enabled ops (at_times before) D a"
  shows "\<exists>s'. twop_apply I va s (snd a) = Ret s' \<and> twop_inv I ops before va vi (insert a D) s'"
proof -
  obtain t oper where a: "a = (t, oper)" by force
  let ?k = "twop_key oper"
  note e = e [unfolded a] and at_key = twop_inv_at_key [OF inv e [unfolded a]]
  from inv have keys: "\<And>k. key_inv vi D k (os_contains I (tombstones s) k) (om_get I (entries s) k)" by (simp add: twop_inv_def)
  show ?thesis unfolding a snd_conv
  proof (cases "os_contains I (tombstones s) ?k")
    case True
    have "key_inv vi (insert (t, oper) D) ?k (os_contains I (tombstones s) ?k) (om_get I (entries s) ?k)"
      using keys [of ?k] True by (cases oper) (auto simp: key_inv_def split: option.splits)
    then have "twop_inv I ops before va vi (insert (t, oper) D) s" by (rule at_key) simp_all
    with True show "\<exists>s'. twop_apply I va s oper = Ret s' \<and> twop_inv I ops before va vi (insert (t, oper) D) s'"
      by (simp add: twop_apply_def)
  next
    case alive: False
    show "\<exists>s'. twop_apply I va s oper = Ret s' \<and> twop_inv I ops before va vi (insert (t, oper) D) s'"
    proof (cases oper)
      case (InsertKey k v)
      note new = insert_finds_none [OF inv e [unfolded InsertKey]]
      have "twop_apply I va s oper = Ret (s\<lparr>entries := om_insert I (entries s) k v\<rparr>)" (is "_ = Ret ?s")
        using alive new(1) by (simp add: twop_apply_def InsertKey)
      moreover have "twop_inv I ops before va vi (insert (t, oper) D) ?s"
        by (rule at_key) (use keys [of k] alive new in \<open>auto simp: InsertKey key_inv_def get_insert\<close>)
      ultimately show ?thesis by blast
    next
      case (ApplyKey k x)
      from apply_finds_value [OF inv e [unfolded ApplyKey]] alive obtain v v' where
        v: "om_get I (entries s) k = Some v" "va v x = Ret v'" "vi k (insert (t, x) (value_ops D k)) v'"
        by (auto simp: ApplyKey)
      have "twop_apply I va s oper = Ret (s\<lparr>entries := om_insert I (entries s) k v'\<rparr>)" (is "_ = Ret ?s")
        using alive v by (simp add: twop_apply_def ApplyKey)
      moreover have "twop_inv I ops before va vi (insert (t, oper) D) ?s"
        by (rule at_key) (use keys [of k] alive v in \<open>auto simp: ApplyKey key_inv_def get_insert\<close>)
      ultimately show ?thesis by blast
    next
      case (DeleteKey k)
      have "twop_apply I va s oper =
          Ret \<lparr>entries = om_remove I (entries s) k, tombstones = os_insert I (tombstones s) k\<rparr>" (is "_ = Ret ?s")
        using alive by (simp add: twop_apply_def DeleteKey)
      moreover have "twop_inv I ops before va vi (insert (t, oper) D) ?s"
        by (rule at_key) (auto simp: DeleteKey key_inv_def get_remove contains_insert)
      ultimately show ?thesis by blast
    qed
  qed
qed

lemma cell_ext: "(\<And>k. cell I s k = cell I s' k) \<Longrightarrow> s = s'"
  using map_ext [of "entries s" "entries s'"] set_ext [of "tombstones s" "tombstones s'"]
  by (cases s; cases s') (auto simp: cell_def fun_eq_iff)

lemma twop_apply_cell:
  assumes "twop_apply I va s x = Ret s'"
  shows "cell_apply va (cell I s (twop_key x)) x = Ret (cell I s' (twop_key x))"
    and "k \<noteq> twop_key x \<Longrightarrow> cell I s' k = cell I s k"
  using assms
  by (cases x; auto simp: twop_apply_def cell_def get_insert get_remove contains_insert split: if_splits option.splits)+

lemma cells_commute:
  assumes inv: "twop_inv I ops before va vi D s" and a: "enabled ops (at_times before) D (t, x)"
    and b: "enabled ops (at_times before) D (u, y)" and ne: "(t, x) \<noteq> (u, y)" and k: "twop_key x = twop_key y"
    and ca: "cell_apply va (cell I s (twop_key x)) x = Ret ca" "cell_apply va ca y = Ret cab"
    and cb: "cell_apply va (cell I s (twop_key x)) y = Ret cb" "cell_apply va cb x = Ret cba"
  shows "cab = cba"
proof -
  from inv have h: "twop_history ops before" and vc: "values_converge ops before va vi" and D: "D \<subseteq> ops"
    and keys: "\<And>k. key_inv vi D k (os_contains I (tombstones s) k) (om_get I (entries s) k)"
    by (simp_all add: twop_inv_def)
  obtain d e where c: "cell I s (twop_key x) = (d, e)" by force
  show ?thesis
  proof (cases d)
    case True
    with ca cb c show ?thesis by auto
  next
    case False
    show ?thesis
    proof (cases x; cases y)
      fix j v j' v' assume xy: "x = InsertKey j v" "y = InsertKey j' v'"
      with k a b have "(t, InsertKey j v) \<in> ops" "(u, InsertKey j v') \<in> ops" by (simp_all add: enabled_def)
      from twop_historyD(1) [OF h this] ne k xy show ?thesis by simp
    next
      fix j v j' w assume xy: "x = InsertKey j v" "y = ApplyKey j' w"
      with k a b have "enabled ops (at_times before) D (t, InsertKey j v)" "enabled ops (at_times before) D (u, ApplyKey j w)" by simp_all
      with apply_enabled_inserted [OF h this(2)] insert_enabled_new [OF h this(1) D] show ?thesis by blast
    next
      fix j v j' w assume xy: "y = InsertKey j v" "x = ApplyKey j' w"
      with k a b have "enabled ops (at_times before) D (u, InsertKey j v)" "enabled ops (at_times before) D (t, ApplyKey j w)" by simp_all
      with apply_enabled_inserted [OF h this(2)] insert_enabled_new [OF h this(1) D] show ?thesis by blast
    next
      fix j v j' w assume xy: "x = ApplyKey j v" "y = ApplyKey j' w"
      with k a b have e': "enabled ops (at_times before) D (t, ApplyKey j v)" "enabled ops (at_times before) D (u, ApplyKey j w)" by simp_all
      from ca(1) c False xy obtain z where z: "e = Some z" by (cases e) auto
      have "vi j (value_ops D j) z" using keys [of j] c z xy by (simp add: key_inv_def cell_def)
      moreover from vc have "causal_effects (value_ops ops j) (at_times before) (\<lambda>v e. va v (snd e)) (vi j)"
        by (simp add: values_converge_def)
      ultimately have "bindR (va z v) (\<lambda>z. va z w) = bindR (va z w) (\<lambda>z. va z v)"
        using causal_effects.commutes [of "value_ops ops j" "at_times before" "\<lambda>v e. va v (snd e)" "vi j" "value_ops D j" z "(t, v)" "(u, w)"]
          value_enabled [OF e'(1)] value_enabled [OF e'(2)] ne k xy by auto
      with ca cb c False z xy show ?thesis by auto
    qed (use ca cb c False in \<open>(cases e; auto)+\<close>)
  qed
qed

lemma twop_commutes:
  assumes inv: "twop_inv I ops before va vi D s" and a: "enabled ops (at_times before) D a"
    and b: "enabled ops (at_times before) D b" and ne: "a \<noteq> b"
  shows "bindR (twop_apply I va s (snd a)) (\<lambda>s. twop_apply I va s (snd b)) =
    bindR (twop_apply I va s (snd b)) (\<lambda>s. twop_apply I va s (snd a))"
proof -
  obtain t x where ax: "a = (t, x)" by force
  obtain u y where bx: "b = (u, y)" by force
  have a': "enabled ops (at_times before) (insert b D) a" and b': "enabled ops (at_times before) (insert a D) b"
    using a b ne by (auto simp: enabled_def)
  from twop_applies [OF inv a] obtain sa where sa: "twop_apply I va s x = Ret sa" "twop_inv I ops before va vi (insert a D) sa"
    by (auto simp: ax)
  from twop_applies [OF inv b] obtain sb where sb: "twop_apply I va s y = Ret sb" "twop_inv I ops before va vi (insert b D) sb"
    by (auto simp: bx)
  from twop_applies [OF sa(2) b'] obtain sab where sab: "twop_apply I va sa y = Ret sab" by (auto simp: bx)
  from twop_applies [OF sb(2) a'] obtain sba where sba: "twop_apply I va sb x = Ret sba" by (auto simp: ax)
  note cells = twop_apply_cell(1) [OF sa(1)] twop_apply_cell(1) [OF sb(1)] twop_apply_cell(1) [OF sab] twop_apply_cell(1) [OF sba]
  note others = twop_apply_cell(2) [OF sa(1)] twop_apply_cell(2) [OF sb(1)] twop_apply_cell(2) [OF sab] twop_apply_cell(2) [OF sba]
  have "cell I sab k = cell I sba k" for k
  proof (cases "twop_key x = twop_key y")
    case True
    have "cell I sab (twop_key x) = cell I sba (twop_key x)"
      by (rule cells_commute [OF inv a [unfolded ax] b [unfolded bx] ne [unfolded ax bx] True cells(1)])
        (use cells True in simp_all)
    then show ?thesis using others True by (cases "k = twop_key x") auto
  next
    case False
    consider "k = twop_key x" | "k = twop_key y" | "k \<noteq> twop_key x" "k \<noteq> twop_key y" by blast
    then show ?thesis
    proof cases
      case 1
      with cells(1,4) others(2) [of "twop_key x"] others(3) [of "twop_key x"] False show ?thesis by simp
    next
      case 2
      with cells(2,3) others(1) [of "twop_key y"] others(4) [of "twop_key y"] False show ?thesis by simp
    next
      case 3
      with others show ?thesis by simp
    qed
  qed
  then have "sab = sba" by (rule cell_ext)
  with sa sb sab sba show ?thesis by (simp add: ax bx)
qed

lemma twop_effects:
  "causal_effects ops (at_times before) (\<lambda>s e. twop_apply I va s (snd e)) (twop_inv I ops before va vi)"
  by (rule causal_effects.intro) (rule twop_applies, assumption+, rule twop_commutes)

end

interpretation twop: causal_effects ops "at_times before" "\<lambda>s e. twop_apply plain_im va s (snd e)"
    "twop_inv plain_im ops before va vi" for ops before va vi
  by (rule plain.twop_effects)


text \<open>C7. The two-phase map converges: replicas that apply the operations of a well-formed history in
  any two causal orders end in the same map, and none of them panics, when the values converge.
  Exactly the deleted keys are tombstones, and the entries are the keys that were inserted and
  not deleted. A deletion needs no insertion before it, and wins over one that comes later.\<close>

theorem twop_map_converges:
  assumes I: "im_laws I" and h: "twop_history ops before" and vc: "values_converge ops before va vi"
    and xs: "causal_order ops (at_times before) {} xs" and ys: "causal_order ops (at_times before) {} ys"
    and same: "set xs = set ys"
  shows "\<exists>s. foldR (\<lambda>s e. twop_apply I va s (snd e)) (twop_new I) xs = Ret s \<and>
    foldR (\<lambda>s e. twop_apply I va s (snd e)) (twop_new I) ys = Ret s \<and>
    (\<forall>k. os_contains I (tombstones s) k \<longleftrightarrow> (\<exists>t. (t, DeleteKey k) \<in> set xs)) \<and>
    (\<forall>k. twop_get I s k \<noteq> None \<longleftrightarrow>
       (\<exists>t v. (t, InsertKey k v) \<in> set xs) \<and> (\<forall>t. (t, DeleteKey k) \<notin> set xs))"
proof -
  have "twop_inv I ops before va vi {} (twop_new I)"
    using h vc im_laws.get_new [OF I] im_laws.contains_new [OF I]
    by (simp add: twop_inv_def key_inv_def twop_new_def)
  from causal_effects.converge [OF im_laws.twop_effects [OF I] this xs ys same] obtain s where
    s: "foldR (\<lambda>s e. twop_apply I va s (snd e)) (twop_new I) xs = Ret s"
      "foldR (\<lambda>s e. twop_apply I va s (snd e)) (twop_new I) ys = Ret s"
      "twop_inv I ops before va vi (set xs) s" by auto
  have key: "key_inv vi (set xs) k (os_contains I (tombstones s) k) (om_get I (entries s) k)" for k
    using s(3) by (simp add: twop_inv_def)
  have "os_contains I (tombstones s) k \<longleftrightarrow> (\<exists>t. (t, DeleteKey k) \<in> set xs)" for k
    using key [of k] by (simp add: key_inv_def)
  moreover have "twop_get I s k \<noteq> None \<longleftrightarrow>
      (\<exists>t v. (t, InsertKey k v) \<in> set xs) \<and> (\<forall>t. (t, DeleteKey k) \<notin> set xs)" for k
    using key [of k] by (auto simp: key_inv_def twop_get_def split: option.splits)
  ultimately show ?thesis using s(1,2) by blast
qed

section \<open>Maps of registers\<close>

text \<open>
  Registers as values: the writes to one key have distinct times, none that of the inserted
  register. What a replica holds is the newest of the writes it has applied.
\<close>

definition register_inv :: "('t :: linorder, 'a) lww \<Rightarrow> ('e \<times> ('t, 'a) lww) set \<Rightarrow> ('t, 'a) lww \<Rightarrow> bool" where
  "register_inv v0 D v \<longleftrightarrow>
     v \<in> insert v0 (snd ` D) \<and> (\<forall>w \<in> insert v0 (snd ` D). lww_time w \<le> lww_time v)"

context linear_time begin

lemma lww_apply_max:
  assumes "lww_time v \<in> known" "lww_time w \<in> known" "lww_time v \<noteq> lww_time w"
  shows "lww_apply hb v w = Ret (if lww_time v < lww_time w then w else v)"
  using assms compare_linear [OF assms(1,2)] by (auto simp: lww_apply_def cmp_def)

lemma register_effects:
  assumes times: "inj_on (\<lambda>e. lww_time (snd e)) W" "lww_time v0 \<notin> (\<lambda>e. lww_time (snd e)) ` W"
      "lww_time v0 \<in> known" "(\<lambda>e. lww_time (snd e)) ` W \<subseteq> known"
  shows "causal_effects W before (\<lambda>v e. lww_apply hb v (snd e)) (\<lambda>D v. D \<subseteq> W \<and> register_inv v0 D v)"
proof (rule causal_effects.intro)
  have new: "lww_time v \<noteq> lww_time (snd a) \<and> lww_time v \<in> known \<and> lww_time (snd a) \<in> known"
    if "D \<subseteq> W \<and> register_inv v0 D v" "enabled W before D a" for D v a
  proof -
    from that have a: "a \<in> W" "a \<notin> D" by (simp_all add: enabled_def)
    from that(1) have "v = v0 \<or> (\<exists>e \<in> D. v = snd e)" by (auto simp: register_inv_def)
    then show ?thesis
    proof
      assume "v = v0"
      with a times(2-4) show ?thesis by force
    next
      assume "\<exists>e \<in> D. v = snd e"
      then obtain e where e: "e \<in> D" "v = snd e" by blast
      with that(1) a have "e \<in> W" "e \<noteq> a" by auto
      with inj_onD [OF times(1), of e a] a(1) e(2) times(4) show ?thesis by auto
    qed
  qed
  show "\<exists>v'. lww_apply hb v (snd a) = Ret v' \<and> insert a D \<subseteq> W \<and> register_inv v0 (insert a D) v'"
    if v: "D \<subseteq> W \<and> register_inv v0 D v" and a: "enabled W before D a" for D v a
  proof -
    from new [OF v a] have "lww_apply hb v (snd a) = Ret (if lww_time v < lww_time (snd a) then snd a else v)"
      by (intro lww_apply_max) auto
    with v a show ?thesis by (fastforce simp: register_inv_def enabled_def)
  qed
  show "bindR (lww_apply hb v (snd a)) (\<lambda>v. lww_apply hb v (snd b)) =
      bindR (lww_apply hb v (snd b)) (\<lambda>v. lww_apply hb v (snd a))"
    if v: "D \<subseteq> W \<and> register_inv v0 D v" and a: "enabled W before D a" and b: "enabled W before D b" and ne: "a \<noteq> b"
    for D v a b
  proof -
    have ab: "lww_time (snd a) \<noteq> lww_time (snd b)"
      using inj_onD [OF times(1), of a b] a b ne by (auto simp: enabled_def)
    note va = new [OF v a] and vb = new [OF v b]
    have "lww_apply hb v (snd a) = Ret (if lww_time v < lww_time (snd a) then snd a else v)"
      "lww_apply hb v (snd b) = Ret (if lww_time v < lww_time (snd b) then snd b else v)"
      "lww_apply hb (snd a) (snd b) = Ret (if lww_time (snd a) < lww_time (snd b) then snd b else snd a)"
      "lww_apply hb (snd b) (snd a) = Ret (if lww_time (snd b) < lww_time (snd a) then snd a else snd b)"
      using va vb ab lww_apply_max [of v "snd a"] lww_apply_max [of v "snd b"]
        lww_apply_max [of "snd a" "snd b"] lww_apply_max [of "snd b" "snd a"] by simp_all
    with va vb ab show ?thesis by auto
  qed
qed

end


text \<open>For the witness: a map of registers, and a history with two concurrent writes and a deletion.\<close>

definition reg :: "nat \<Rightarrow> nat \<Rightarrow> char \<Rightarrow> (nat lamport_timestamp, char) lww" where
  "reg n i c = \<lparr>lww_time = Lamport n i, lww_value = c\<rparr>"

definition demo_history :: "(nat \<times> (nat, (nat lamport_timestamp, char) lww, (nat lamport_timestamp, char) lww) twop_op) list" where
  "demo_history = [(1, InsertKey 1 (reg 1 1 CHR ''a'')), (2, InsertKey 2 (reg 2 1 CHR ''b'')),
     (3, ApplyKey 1 (reg 3 1 CHR ''c'')), (4, ApplyKey 1 (reg 3 2 CHR ''d'')), (5, DeleteKey 2)]"

definition demo_order :: "(nat \<times> (nat, (nat lamport_timestamp, char) lww, (nat lamport_timestamp, char) lww) twop_op) list" where
  "demo_order = [(5, DeleteKey 2), (1, InsertKey 1 (reg 1 1 CHR ''a'')), (4, ApplyKey 1 (reg 3 2 CHR ''d'')),
     (2, InsertKey 2 (reg 2 1 CHR ''b'')), (3, ApplyKey 1 (reg 3 1 CHR ''c''))]"

definition demo_before :: "nat \<Rightarrow> nat \<Rightarrow> bool" where
  "demo_before a b \<longleftrightarrow> a = 1 \<and> b \<in> {3, 4}"

lemma demo_values:
  "values_converge (set demo_history) demo_before (lww_apply lamport_happens_before)
     (\<lambda>k D v. D \<subseteq> value_ops (set demo_history) k \<and> register_inv (reg k 1 (if k = 1 then CHR ''a'' else CHR ''b'')) D v)"
proof -
  have W: "value_ops (set demo_history) k = (if k = 1 then {(3, reg 3 1 CHR ''c''), (4, reg 3 2 CHR ''d'')} else {})" for k
    by (auto simp: value_ops_def demo_history_def)
  have "causal_effects (value_ops (set demo_history) k) (at_times demo_before) (\<lambda>v e. lww_apply lamport_happens_before v (snd e))
      (\<lambda>D v. D \<subseteq> value_ops (set demo_history) k \<and> register_inv (reg k 1 (if k = 1 then CHR ''a'' else CHR ''b'')) D v)" for k
    by (rule lamport.register_effects) (auto simp: W reg_def inj_on_def)
  then show ?thesis by (auto simp: values_converge_def demo_history_def register_inv_def)
qed

lemma twop_map_converges_witness:
  "\<exists>s. foldR (\<lambda>s e. twop_apply plain_im (lww_apply lamport_happens_before) s (snd e)) (twop_new plain_im) demo_history = Ret s \<and>
    foldR (\<lambda>s e. twop_apply plain_im (lww_apply lamport_happens_before) s (snd e)) (twop_new plain_im) demo_order = Ret s \<and>
    twop_get plain_im s 2 = None \<and> twop_get plain_im s 1 \<noteq> None"
proof -
  have h: "twop_history (set demo_history) demo_before"
    by (auto simp: twop_history_def demo_history_def demo_before_def)
  have o: "causal_order (set demo_history) (at_times demo_before) {} demo_history"
    "causal_order (set demo_history) (at_times demo_before) {} demo_order"
    by (auto simp: demo_history_def demo_order_def enabled_def at_times_def demo_before_def)
  have same: "set demo_history = set demo_order" by (auto simp: demo_history_def demo_order_def)
  from twop_map_converges [OF plain.im_laws_axioms h demo_values o same] obtain s where
    s: "foldR (\<lambda>s e. twop_apply plain_im (lww_apply lamport_happens_before) s (snd e)) (twop_new plain_im) demo_history = Ret s"
      "foldR (\<lambda>s e. twop_apply plain_im (lww_apply lamport_happens_before) s (snd e)) (twop_new plain_im) demo_order = Ret s"
    and k: "\<And>k. twop_get plain_im s k \<noteq> None \<longleftrightarrow>
       (\<exists>t v. (t, InsertKey k v) \<in> set demo_history) \<and> (\<forall>t. (t, DeleteKey k) \<notin> set demo_history)" by blast
  have "twop_get plain_im s 1 \<noteq> None" unfolding k by (auto simp: demo_history_def)
  moreover have "twop_get plain_im s 2 = None" using k [of 2] by (auto simp: demo_history_def)
  ultimately show ?thesis using s by blast
qed

end
