(* ===== verification/CausalTree.thy ===== *)
theory CausalTree
  imports Crdt
begin

text \<open>
  \<open>ossa-crdt/src/text/causal_tree.rs\<close>: text as a tree of atoms, each a child of the atom it was
  written after. A \<open>Vector\<close> of the crate \<open>im\<close> is a list; its \<open>binary_search_by\<close> is the argument
  \<open>search\<close>, \<open>Inr\<close> the index of an element that was found, \<open>Inl\<close> the one where it belongs.
\<close>

section \<open>Trees\<close>

datatype 'a letter = Letter 'a | Delete | Root

record ('t, 'a) atom =
  atom_id :: 't
  atom_letter :: "'a letter"

datatype ('t, 'a) causal_tree = CausalTree (tree_atom: "('t, 'a) atom") (tree_children: "('t, 'a) causal_tree list")

record ('t, 'a) causal_tree_op =
  parent_id :: 't
  op_atom :: "('t, 'a) atom"

type_synonym ('t, 'a) search = "(('t, 'a) causal_tree \<Rightarrow> ordering) \<Rightarrow> ('t, 'a) causal_tree list \<Rightarrow> nat + nat"

definition compare_atom :: "('t :: linorder \<Rightarrow> 't \<Rightarrow> bool) \<Rightarrow> ('t, 'a) atom \<Rightarrow> ('t, 'a) atom \<Rightarrow> ordering" where
  "compare_atom hb a1 a2 =
     (case (atom_letter a1, atom_letter a2) of
        (Root, Root) \<Rightarrow> compare_with_tiebreak hb (atom_id a1) (atom_id a2)
      | (_, Root) \<Rightarrow> Less
      | (Root, _) \<Rightarrow> Greater
      | (Delete, Delete) \<Rightarrow> compare_with_tiebreak hb (atom_id a1) (atom_id a2)
      | (_, Delete) \<Rightarrow> Less
      | (Delete, _) \<Rightarrow> Greater
      | (_, _) \<Rightarrow> compare_with_tiebreak hb (atom_id a1) (atom_id a2))"

text \<open>\<open>Vector::insert\<close> panics past the end.\<close>

definition insert_atom ::
    "('t :: linorder \<Rightarrow> 't \<Rightarrow> bool) \<Rightarrow> ('t, 'a) search \<Rightarrow> ('t, 'a) causal_tree list \<Rightarrow> ('t, 'a) atom
     \<Rightarrow> ('t, 'a) causal_tree list res" where
  "insert_atom hb search children atom =
     (case search (\<lambda>ct. compare_atom hb (tree_atom ct) atom) children of
        Inl i \<Rightarrow>
          (if i \<le> length children
           then Ret (take i children @ [CausalTree atom []] @ drop i children)
           else Panic IndexOutOfBounds)
      | Inr _ \<Rightarrow> Panic Unreachable)"

fun insert_in_weave ::
    "('t :: linorder \<Rightarrow> 't \<Rightarrow> bool) \<Rightarrow> ('t, 'a) search \<Rightarrow> ('t, 'a) causal_tree \<Rightarrow> ('t, 'a) causal_tree_op
     \<Rightarrow> (('t, 'a) causal_tree \<times> ('t, 'a) causal_tree_op option) res"
  and insert_in_weave_children ::
    "('t :: linorder \<Rightarrow> 't \<Rightarrow> bool) \<Rightarrow> ('t, 'a) search \<Rightarrow> ('t, 'a) causal_tree list \<Rightarrow> ('t, 'a) causal_tree_op
     \<Rightarrow> (('t, 'a) causal_tree list \<times> ('t, 'a) causal_tree_op option) res" where
  "insert_in_weave hb search (CausalTree atom children) op =
     (if atom_id atom = parent_id op then
        bindR (insert_atom hb search children (op_atom op)) (\<lambda>children. Ret (CausalTree atom children, None))
      else
        bindR (insert_in_weave_children hb search children op) (\<lambda>(children, op_ret).
        Ret (CausalTree atom children, op_ret)))"
| "insert_in_weave_children hb search [] op = Ret ([], Some op)"
| "insert_in_weave_children hb search (child # children) op =
     bindR (insert_in_weave hb search child op) (\<lambda>(updated_child, op_m).
     case op_m of
       None \<Rightarrow> Ret (updated_child # children, None)
     | Some op \<Rightarrow>
         bindR (insert_in_weave_children hb search children op) (\<lambda>(children, op_m).
         Ret (updated_child # children, op_m)))"

definition causal_tree_apply ::
    "('t :: linorder \<Rightarrow> 't \<Rightarrow> bool) \<Rightarrow> ('t, 'a) search \<Rightarrow> ('t, 'a) causal_tree \<Rightarrow> ('t, 'a) causal_tree_op
     \<Rightarrow> ('t, 'a) causal_tree res" where
  "causal_tree_apply hb search self op =
     bindR (insert_in_weave hb search self op) (\<lambda>(ct, op_ret).
     if op_ret \<noteq> None then Panic Unreachable else Ret ct)"

section \<open>Binary search\<close>

text \<open>
  What \<open>binary_search_by\<close> promises on a list that is sorted by the comparison: elements that
  compare less, then equal, then greater.
\<close>

locale binary_search =
  fixes search :: "('x \<Rightarrow> ordering) \<Rightarrow> 'x list \<Rightarrow> nat + nat"
  assumes missing: "(\<And>x. x \<in> set ls \<Longrightarrow> f x = Less) \<Longrightarrow> (\<And>x. x \<in> set gs \<Longrightarrow> f x = Greater) \<Longrightarrow>
      search f (ls @ gs) = Inl (length ls)"
    and found: "(\<And>x. x \<in> set ls \<Longrightarrow> f x = Less) \<Longrightarrow> (\<And>x. x \<in> set gs \<Longrightarrow> f x = Greater) \<Longrightarrow> f y = Equal \<Longrightarrow>
      search f (ls @ y # gs) = Inr (length ls)"

fun scan :: "('x \<Rightarrow> ordering) \<Rightarrow> 'x list \<Rightarrow> nat + nat" where
  "scan f [] = Inl 0"
| "scan f (x # xs) =
     (case f x of
        Less \<Rightarrow> (case scan f xs of Inl i \<Rightarrow> Inl (Suc i) | Inr i \<Rightarrow> Inr (Suc i))
      | Equal \<Rightarrow> Inr 0
      | Greater \<Rightarrow> Inl 0)"

interpretation scan: binary_search scan
proof
  show "scan f (ls @ gs) = Inl (length ls)"
    if "\<And>x. x \<in> set ls \<Longrightarrow> f x = Less" "\<And>x. x \<in> set gs \<Longrightarrow> f x = Greater" for f and ls gs :: "'a list"
    using that by (induction ls) (cases gs, auto)
  show "scan f (ls @ y # gs) = Inr (length ls)"
    if "\<And>x. x \<in> set ls \<Longrightarrow> f x = Less" "\<And>x. x \<in> set gs \<Longrightarrow> f x = Greater" "f y = Equal" for f y and ls gs :: "'a list"
    using that by (induction ls) auto
qed

section \<open>The order of siblings\<close>

text \<open>Letters first, then deletions, then roots, each in the order of their times\<close>

definition atom_key :: "('t, 'a) atom \<Rightarrow> nat \<times> 't" where
  "atom_key a = ((case atom_letter a of Letter _ \<Rightarrow> 0 | Delete \<Rightarrow> 1 | Root \<Rightarrow> 2), atom_id a)"

definition sibling_key :: "('t, 'a) causal_tree \<Rightarrow> nat \<times> 't" where
  "sibling_key t = atom_key (tree_atom t)"

context linear_time begin

lemma compare_atom_key:
  "atom_id a \<in> known \<Longrightarrow> atom_id b \<in> known \<Longrightarrow> compare_atom hb a b = cmp (atom_key a) (atom_key b)"
  by (auto simp: compare_atom_def atom_key_def compare_linear cmp_def less_prod_def split: letter.split)

lemma insert_atom_insort:
  assumes s: "binary_search search" and sorted: "sorted (map sibling_key cs)" and new: "atom_key a \<notin> sibling_key ` set cs"
    and known: "atom_id a \<in> known" "(\<lambda>c. atom_id (tree_atom c)) ` set cs \<subseteq> known"
  shows "insert_atom hb search cs a = Ret (insort_key sibling_key (CausalTree a []) cs)"
proof -
  let ?f = "\<lambda>ct. compare_atom hb (tree_atom ct) a"
  let ?ls = "takeWhile (\<lambda>c. sibling_key c < atom_key a) cs" let ?gs = "dropWhile (\<lambda>c. sibling_key c < atom_key a) cs"
  have f: "?f c = cmp (sibling_key c) (atom_key a)" if "c \<in> set cs" for c
    using that known by (auto simp: compare_atom_key sibling_key_def)
  have ls: "?f c = Less" if "c \<in> set ?ls" for c
    using set_takeWhileD [OF that] f by (simp add: cmp_def)
  have gs: "?f c = Greater" if "c \<in> set ?gs" for c
  proof -
    have c: "c \<in> set cs" using that by (rule set_dropWhileD)
    have "?gs \<noteq> []"
    proof
      assume "?gs = []"
      with that have "c \<in> set []" by (simp only:)
      then show False by simp
    qed
    then obtain g gs where g: "?gs = g # gs" by (meson neq_Nil_conv)
    have "\<not> sibling_key g < atom_key a" using hd_dropWhile [of "\<lambda>c. sibling_key c < atom_key a" cs] g by simp
    moreover have "sorted (map sibling_key ?gs)"
      using sorted by (metis map_append sorted_append takeWhile_dropWhile_id)
    then have "sibling_key g \<le> sibling_key c" using that g by auto
    ultimately have "\<not> sibling_key c < atom_key a" by simp
    moreover have "sibling_key c \<noteq> atom_key a" using new c by (metis image_eqI)
    ultimately show ?thesis using f [OF c] by (simp add: cmp_def)
  qed
  from binary_search.missing [OF s, of ?ls ?f ?gs, OF ls gs] have "search ?f cs = Inl (length ?ls)" by simp
  moreover have "insort_key sibling_key (CausalTree a []) cs = ?ls @ [CausalTree a []] @ ?gs"
    using new
  proof (induction cs)
    case (Cons c cs)
    then have "sibling_key c \<noteq> atom_key a" by (metis image_eqI list.set_intros(1))
    moreover have "sibling_key (CausalTree a []) = atom_key a" by (simp add: sibling_key_def)
    ultimately show ?case using Cons by (auto simp: less_le)
  qed simp
  moreover have "take (length ?ls) cs = ?ls" "drop (length ?ls) cs = ?gs"
    by (metis append_eq_conv_conj takeWhile_dropWhile_id)+
  ultimately show ?thesis by (simp add: insert_atom_def length_takeWhile_le)
qed

end

section \<open>What an insertion means\<close>

fun tree_ids :: "('t, 'a) causal_tree \<Rightarrow> 't list" where
  "tree_ids (CausalTree a cs) = atom_id a # concat (map tree_ids cs)"

fun tree_sorted :: "('t :: linorder, 'a) causal_tree \<Rightarrow> bool" where
  "tree_sorted (CausalTree a cs) \<longleftrightarrow> sorted (map sibling_key cs) \<and> (\<forall>c \<in> set cs. tree_sorted c)"

text \<open>
  The reference: a new leaf at every node with the id of the parent, in the order of siblings.
\<close>

definition add_leaf :: "bool \<Rightarrow> ('t :: linorder, 'a) atom \<Rightarrow> ('t, 'a) causal_tree list \<Rightarrow> ('t, 'a) causal_tree list" where
  "add_leaf here a cs = (if here then insort_key sibling_key (CausalTree a []) cs else cs)"

fun graft :: "'t :: linorder \<Rightarrow> ('t, 'a) atom \<Rightarrow> ('t, 'a) causal_tree \<Rightarrow> ('t, 'a) causal_tree" where
  "graft p a (CausalTree b cs) = CausalTree b (add_leaf (atom_id b = p) a (map (graft p a) cs))"

lemma graft_atom [simp]: "tree_atom (graft p a t) = tree_atom t" "sibling_key (graft p a t) = sibling_key t"
  by (cases t; simp add: sibling_key_def)+

lemma graft_absent: "p \<notin> set (tree_ids t) \<Longrightarrow> graft p a t = t"
  by (induction p a t rule: graft.induct) (auto simp: add_leaf_def intro: map_idI)

lemma set_add_leaf: "set (add_leaf here a cs) = (if here then insert (CausalTree a []) (set cs) else set cs)"
  by (simp add: add_leaf_def set_insort_key)

lemma mset_add_leaf: "mset (add_leaf here a cs) = (if here then {#CausalTree a []#} else {#}) + mset cs"
  by (simp add: add_leaf_def mset_insort)

lemma sorted_add_leaf: "sorted (map sibling_key cs) \<Longrightarrow> sorted (map sibling_key (add_leaf here a cs))"
  by (simp add: add_leaf_def sorted_insort_key)

lemma mset_concat_ids: "mset (concat (map f xs)) = \<Sum>\<^sub># (image_mset (\<lambda>x. mset (f x)) (mset xs))"
  by (induction xs) auto

lemma ids_graft:
  "distinct (tree_ids t) \<Longrightarrow>
   mset (tree_ids (graft p a t)) = (if p \<in> set (tree_ids t) then {#atom_id a#} else {#}) + mset (tree_ids t)"
proof (induction p a t rule: graft.induct)
  case (1 p a b cs)
  have d: "distinct (tree_ids c)" if "c \<in> set cs" for c using "1.prems" that by (auto simp: distinct_concat_iff)
  show ?case
  proof (cases "atom_id b = p")
    case True
    then have "p \<notin> set (tree_ids c)" if "c \<in> set cs" for c using "1.prems" that by auto
    then have "map (graft p a) cs = cs" by (auto intro!: map_idI graft_absent)
    with True show ?thesis by (simp add: mset_concat_ids mset_add_leaf)
  next
    case False
    have "mset (concat (map tree_ids (map (graft p a) cs'))) =
        (if \<exists>c \<in> set cs'. p \<in> set (tree_ids c) then {#atom_id a#} else {#}) + mset (concat (map tree_ids cs'))"
      if "set cs' \<subseteq> set cs" "distinct (concat (map tree_ids cs'))" for cs'
      using that
    proof (induction cs')
      case (Cons c cs')
      then have "mset (tree_ids (graft p a c)) = (if p \<in> set (tree_ids c) then {#atom_id a#} else {#}) + mset (tree_ids c)"
        using "1.IH" [of c] d [of c] by simp
      moreover have "\<not> (p \<in> set (tree_ids c) \<and> (\<exists>c \<in> set cs'. p \<in> set (tree_ids c)))" using Cons.prems(2) by auto
      ultimately show ?case using Cons by auto
    qed simp
    from this [of cs] "1.prems" False show ?thesis by (auto simp: add_leaf_def)
  qed
qed

lemma sorted_graft: "tree_sorted t \<Longrightarrow> tree_sorted (graft p a t)"
  by (induction p a t rule: graft.induct) (auto simp: set_add_leaf comp_def intro!: sorted_add_leaf)

lemma map_add_leaf:
  assumes "\<And>t. sibling_key (g t) = sibling_key t" "g (CausalTree a []) = CausalTree a []"
  shows "map g (add_leaf here a cs) = add_leaf here a (map g cs)"
proof -
  have "map g (insort_key sibling_key (CausalTree a []) cs) = insort_key sibling_key (CausalTree a []) (map g cs)"
    by (induction cs) (auto simp: assms)
  then show ?thesis by (simp add: add_leaf_def)
qed

text \<open>Insertions of different atoms, neither after the other, commute.\<close>

lemma graft_commute:
  assumes "atom_id a \<noteq> q" "atom_id b \<noteq> p" "atom_key a \<noteq> atom_key b"
  shows "graft p a (graft q b t) = graft q b (graft p a t)"
  using assms
proof (induction t)
  case (CausalTree x cs)
  have leaf: "graft p a (CausalTree b []) = CausalTree b []" "graft q b (CausalTree a []) = CausalTree a []"
    using CausalTree.prems by (simp_all add: add_leaf_def)
  have ih: "map (graft p a) (map (graft q b) cs) = map (graft q b) (map (graft p a) cs)"
    using CausalTree by simp
  have ins: "add_leaf h a (add_leaf h' b ys) = add_leaf h' b (add_leaf h a ys)" for h h' ys
    using CausalTree.prems(3) by (simp add: add_leaf_def insort_key_left_comm sibling_key_def)
  show ?case
    by (simp only: graft.simps map_add_leaf [where g = "graft p a", OF graft_atom(2) leaf(1)]
        map_add_leaf [where g = "graft q b", OF graft_atom(2) leaf(2)] ih ins)
qed

section \<open>Histories of texts\<close>

text \<open>
  The operations of a text: every one has an id of its own, none that of the root, and is written
  after the root or after an operation that came before.
\<close>

definition text_history :: "'t \<Rightarrow> ('t, 'a) causal_tree_op set \<Rightarrow> ('t \<Rightarrow> 't \<Rightarrow> bool) \<Rightarrow> bool" where
  "text_history root ops before \<longleftrightarrow>
     inj_on (\<lambda>x. atom_id (op_atom x)) ops \<and> (\<forall>x \<in> ops. atom_id (op_atom x) \<noteq> root) \<and>
     (\<forall>x \<in> ops. parent_id x = root \<or>
       (\<exists>y \<in> ops. atom_id (op_atom y) = parent_id x \<and> before (parent_id x) (atom_id (op_atom x))))"

definition by_ids :: "('t \<Rightarrow> 't \<Rightarrow> bool) \<Rightarrow> ('t, 'a) causal_tree_op \<Rightarrow> ('t, 'a) causal_tree_op \<Rightarrow> bool" where
  "by_ids before x y = before (atom_id (op_atom x)) (atom_id (op_atom y))"

definition text_inv ::
    "'t :: linorder set \<Rightarrow> 't \<Rightarrow> ('t, 'a) causal_tree_op set \<Rightarrow> ('t \<Rightarrow> 't \<Rightarrow> bool) \<Rightarrow> ('t, 'a) causal_tree_op set
     \<Rightarrow> ('t, 'a) causal_tree \<Rightarrow> bool" where
  "text_inv known root ops before D t \<longleftrightarrow>
     text_history root ops before \<and> root \<in> known \<and> (\<lambda>x. atom_id (op_atom x)) ` ops \<subseteq> known \<and> D \<subseteq> ops \<and>
     tree_sorted t \<and> distinct (tree_ids t) \<and> set (tree_ids t) = insert root ((\<lambda>x. atom_id (op_atom x)) ` D)"

section \<open>The code implements the reference\<close>

context linear_time begin

lemma weave_children_graft:
  assumes "\<And>c. c \<in> set cs \<Longrightarrow> insert_in_weave hb search c x =
      Ret (graft (parent_id x) (op_atom x) c, if parent_id x \<in> set (tree_ids c) then None else Some x)"
    and "distinct (concat (map tree_ids cs))"
  shows "insert_in_weave_children hb search cs x =
    Ret (map (graft (parent_id x) (op_atom x)) cs, if \<exists>c \<in> set cs. parent_id x \<in> set (tree_ids c) then None else Some x)"
  using assms
proof (induction cs)
  case (Cons c cs)
  then have c: "insert_in_weave hb search c x =
      Ret (graft (parent_id x) (op_atom x) c, if parent_id x \<in> set (tree_ids c) then None else Some x)" by simp
  show ?case
  proof (cases "parent_id x \<in> set (tree_ids c)")
    case True
    then have "parent_id x \<notin> set (tree_ids d)" if "d \<in> set cs" for d using Cons.prems(2) that by auto
    then have "map (graft (parent_id x) (op_atom x)) cs = cs" by (auto intro!: map_idI graft_absent)
    with c True show ?thesis by simp
  next
    case False
    with c Cons show ?thesis by simp
  qed
qed simp

lemma insert_in_weave_graft:
  assumes s: "binary_search search" and x: "atom_id (op_atom x) \<in> known"
    and t: "tree_sorted t" "distinct (tree_ids t)" "set (tree_ids t) \<subseteq> known" "atom_id (op_atom x) \<notin> set (tree_ids t)"
  shows "insert_in_weave hb search t x =
    Ret (graft (parent_id x) (op_atom x) t, if parent_id x \<in> set (tree_ids t) then None else Some x)"
  using t
proof (induction t)
  case (CausalTree b cs)
  have id: "atom_id (tree_atom c) \<in> set (tree_ids c)" for c :: "('t, 'a) causal_tree" by (cases c) simp
  have d: "distinct (tree_ids c)" if "c \<in> set cs" for c using CausalTree.prems that by (auto simp: distinct_concat_iff)
  have ih: "insert_in_weave hb search c x =
      Ret (graft (parent_id x) (op_atom x) c, if parent_id x \<in> set (tree_ids c) then None else Some x)" if "c \<in> set cs" for c
  proof (rule CausalTree.IH [OF that])
    show "set (tree_ids c) \<subseteq> known" using CausalTree.prems(3) that by auto
  qed (use CausalTree.prems d [OF that] that in auto)
  show ?case
  proof (cases "atom_id b = parent_id x")
    case True
    then have "parent_id x \<notin> set (tree_ids c)" if "c \<in> set cs" for c using CausalTree.prems that by auto
    then have same: "map (graft (parent_id x) (op_atom x)) cs = cs" by (auto intro!: map_idI graft_absent)
    have "atom_key (op_atom x) \<notin> sibling_key ` set cs"
      using CausalTree.prems(4) id by (fastforce simp: sibling_key_def atom_key_def)
    moreover have "(\<lambda>c. atom_id (tree_atom c)) ` set cs \<subseteq> known" using CausalTree.prems(3) id by fastforce
    ultimately have "insert_atom hb search cs (op_atom x) = Ret (insort_key sibling_key (CausalTree (op_atom x) []) cs)"
      using CausalTree.prems(1) x by (intro insert_atom_insort [OF s]) simp_all
    with True same show ?thesis by (simp add: add_leaf_def)
  next
    case False
    have "insert_in_weave_children hb search cs x =
        Ret (map (graft (parent_id x) (op_atom x)) cs, if \<exists>c \<in> set cs. parent_id x \<in> set (tree_ids c) then None else Some x)"
      by (rule weave_children_graft) (use ih CausalTree.prems(2) in auto)
    with False show ?thesis by (auto simp: add_leaf_def)
  qed
qed

lemma text_step:
  assumes s: "binary_search search" and inv: "text_inv known root ops before D t" and e: "enabled ops (by_ids before) D x"
  shows "causal_tree_apply hb search t x = Ret (graft (parent_id x) (op_atom x) t) \<and>
    text_inv known root ops before (insert x D) (graft (parent_id x) (op_atom x) t)"
proof -
  let ?id = "\<lambda>x. atom_id (op_atom x)"
  from inv have h: "text_history root ops before" and k: "root \<in> known" "?id ` ops \<subseteq> known" and D: "D \<subseteq> ops"
    and t: "tree_sorted t" "distinct (tree_ids t)" "set (tree_ids t) = insert root (?id ` D)"
    by (simp_all add: text_inv_def)
  from e have x: "x \<in> ops" "x \<notin> D" by (simp_all add: enabled_def)
  have new: "?id x \<notin> set (tree_ids t)"
    using h x D t(3) by (auto simp: text_history_def dest: inj_onD)
  have parent: "parent_id x \<in> set (tree_ids t)"
  proof (cases "parent_id x = root")
    case False
    with h x(1) obtain y where y: "y \<in> ops" "?id y = parent_id x" "before (parent_id x) (?id x)"
      by (auto simp: text_history_def)
    with e have "y \<in> D" by (auto simp: enabled_def by_ids_def)
    with y t(3) show ?thesis by (metis image_eqI insertI2)
  qed (simp add: t(3))
  have "?id x \<in> known" "set (tree_ids t) \<subseteq> known" using k D x t(3) by auto
  from insert_in_weave_graft [OF s this(1) t(1,2) this(2) new] parent
  have r: "causal_tree_apply hb search t x = Ret (graft (parent_id x) (op_atom x) t)"
    by (simp add: causal_tree_apply_def)
  have ids: "mset (tree_ids (graft (parent_id x) (op_atom x) t)) = add_mset (?id x) (mset (tree_ids t))"
    using ids_graft [OF t(2), of "parent_id x" "op_atom x"] parent by simp
  then have "set (tree_ids (graft (parent_id x) (op_atom x) t)) = insert (?id x) (set (tree_ids t))"
    by (metis set_mset_add_mset_insert set_mset_mset)
  moreover have "distinct (tree_ids (graft (parent_id x) (op_atom x) t))"
    using t(2) new mset_eq_imp_distinct_iff [of "tree_ids (graft (parent_id x) (op_atom x) t)" "?id x # tree_ids t"] ids by simp
  ultimately have "text_inv known root ops before (insert x D) (graft (parent_id x) (op_atom x) t)"
    using h k D x(1) t sorted_graft [OF t(1)] by (auto simp: text_inv_def)
  with r show ?thesis by simp
qed

lemma text_effects:
  assumes s: "binary_search search"
  shows "causal_effects ops (by_ids before) (causal_tree_apply hb search) (text_inv known root ops before)"
proof (rule causal_effects.intro)
  let ?id = "\<lambda>x. atom_id (op_atom x)"
  show "\<exists>t'. causal_tree_apply hb search t x = Ret t' \<and> text_inv known root ops before (insert x D) t'"
    if "text_inv known root ops before D t" "enabled ops (by_ids before) D x" for D t x
    using text_step [OF s that] by blast
  show "bindR (causal_tree_apply hb search t x) (\<lambda>t. causal_tree_apply hb search t y) =
      bindR (causal_tree_apply hb search t y) (\<lambda>t. causal_tree_apply hb search t x)"
    if inv: "text_inv known root ops before D t" and x: "enabled ops (by_ids before) D x"
      and y: "enabled ops (by_ids before) D y" and ne: "x \<noteq> y" for D t x y
  proof -
    note X = text_step [OF s inv x] and Y = text_step [OF s inv y]
    have x': "enabled ops (by_ids before) (insert y D) x" and y': "enabled ops (by_ids before) (insert x D) y"
      using x y ne by (auto simp: enabled_def)
    note XY = text_step [OF s conjunct2 [OF X] y'] and YX = text_step [OF s conjunct2 [OF Y] x']
    from inv have h: "text_history root ops before" by (simp add: text_inv_def)
    have in_ops: "x \<in> ops" "y \<in> ops" using x y by (simp_all add: enabled_def)
    have id: "?id x \<noteq> ?id y" using h in_ops ne by (auto simp: text_history_def dest: inj_onD)
    have not_parent: "?id u \<noteq> parent_id v" if u: "enabled ops (by_ids before) D u" and v: "enabled ops (by_ids before) D v" for u v
    proof
      assume p: "?id u = parent_id v"
      have "u \<in> ops" "v \<in> ops" "u \<notin> D" using u v by (simp_all add: enabled_def)
      with h p have "before (?id u) (?id v)" by (force simp: text_history_def)
      with v \<open>u \<in> ops\<close> \<open>u \<notin> D\<close> show False by (auto simp: enabled_def by_ids_def)
    qed
    have "graft (parent_id y) (op_atom y) (graft (parent_id x) (op_atom x) t) =
        graft (parent_id x) (op_atom x) (graft (parent_id y) (op_atom y) t)"
      by (rule graft_commute) (use not_parent [OF x y] not_parent [OF y x] id in \<open>auto simp: atom_key_def\<close>)
    with X Y XY YX show ?thesis by simp
  qed
qed

end

interpretation texts: causal_effects ops "by_ids before" "causal_tree_apply lamport_happens_before scan"
    "text_inv UNIV root ops before" for ops before root
  by (rule lamport.text_effects) unfold_locales

section \<open>Convergence of texts\<close>

text \<open>C8. Texts converge: replicas that start from the same root and apply the operations of a text in
  any two causal orders end in the same tree, and none of them panics. The tree has one node for
  the root and one for each operation, and siblings stand in the order of their letters and
  times. The total order on times extends causality, as it does for Lamport timestamps.\<close>

theorem causal_tree_converges:
  assumes lin: "linear_time known hb" and s: "binary_search search"
    and h: "text_history root ops before" and known: "root \<in> known" "(\<lambda>x. atom_id (op_atom x)) ` ops \<subseteq> known"
    and xs: "causal_order ops (by_ids before) {} xs" and ys: "causal_order ops (by_ids before) {} ys"
    and same: "set xs = set ys"
  shows "\<exists>t. foldR (causal_tree_apply hb search) (CausalTree \<lparr>atom_id = root, atom_letter = Root\<rparr> []) xs = Ret t \<and>
    foldR (causal_tree_apply hb search) (CausalTree \<lparr>atom_id = root, atom_letter = Root\<rparr> []) ys = Ret t \<and>
    tree_sorted t \<and> distinct (tree_ids t) \<and>
    set (tree_ids t) = insert root ((\<lambda>x. atom_id (op_atom x)) ` set xs)"
proof -
  let ?t = "CausalTree \<lparr>atom_id = root, atom_letter = Root\<rparr> []"
  have "text_inv known root ops before {} ?t"
    using h known by (simp add: text_inv_def)
  from causal_effects.converge [OF linear_time.text_effects [OF lin s] this xs ys same]
  show ?thesis by (auto simp: text_inv_def)
qed


text \<open>A text with two concurrent letters and a deletion, in two orders\<close>

definition text_op :: "nat \<times> nat \<Rightarrow> nat \<times> nat \<Rightarrow> 'a letter \<Rightarrow> (nat lamport_timestamp, 'a) causal_tree_op" where
  "text_op p i l = \<lparr>parent_id = Lamport (fst p) (snd p), op_atom = \<lparr>atom_id = Lamport (fst i) (snd i), atom_letter = l\<rparr>\<rparr>"

definition demo_text :: "(nat lamport_timestamp, char) causal_tree_op list" where
  "demo_text = [text_op (0, 0) (1, 1) (Letter CHR ''a''), text_op (1, 1) (2, 1) (Letter CHR ''b''),
     text_op (1, 1) (2, 2) (Letter CHR ''c''), text_op (2, 1) (3, 1) Delete]"

definition demo_text_order :: "(nat lamport_timestamp, char) causal_tree_op list" where
  "demo_text_order = [demo_text ! 0, demo_text ! 2, demo_text ! 1, demo_text ! 3]"

lemma causal_tree_converges_witness:
  "\<exists>t. foldR (causal_tree_apply lamport_happens_before scan)
      (CausalTree \<lparr>atom_id = Lamport 0 0, atom_letter = Root\<rparr> []) demo_text = Ret t \<and>
    foldR (causal_tree_apply lamport_happens_before scan)
      (CausalTree \<lparr>atom_id = Lamport 0 0, atom_letter = Root\<rparr> []) demo_text_order = Ret t \<and>
    distinct (tree_ids t)"
proof -
  let ?before = "\<lambda>x y. timestamp x < timestamp y"
  have h: "text_history (Lamport 0 0) (set demo_text) ?before"
    by (auto simp: text_history_def demo_text_def text_op_def inj_on_def)
  have o: "causal_order (set demo_text) (by_ids ?before) {} demo_text"
    "causal_order (set demo_text) (by_ids ?before) {} demo_text_order"
    by (auto simp: demo_text_def demo_text_order_def text_op_def enabled_def by_ids_def)
  have same: "set demo_text = set demo_text_order" by (auto simp: demo_text_def demo_text_order_def)
  from causal_tree_converges [OF lamport.linear_time_axioms scan.binary_search_axioms h _ _ o same] show ?thesis
    by auto
qed

end
