(* ===== verification/CrdtDerive.thy ===== *)
theory CrdtDerive
  imports Crdt
begin

text \<open>
  The derive macro of \<open>ossa-crdt-derive\<close>: from a struct whose fields are replicated data it generates
  an enum of operations with one variant per field, an implementation of \<open>CRDT\<close> that hands an
  operation to its field, and on request implementations of \<open>ConcretizeTime\<close>.

  The macro is a function from what it reads of a declaration to what it generates. Types,
  bounds and predicates are syntax it only copies, of the types \<open>'ty\<close>, \<open>'b\<close> and \<open>'p\<close>; the crate
  \<open>heck\<close>, which turns the name of a field into that of a variant, is the parameter \<open>camel\<close>. Then
  the generated code is run: a value of the struct is the list of its fields.
\<close>

section \<open>Input\<close>

datatype 'b param = LifetimeParam string | TypeParam string "'b list" | ConstParam string

text \<open>The entries of a \<open>#[crdt(..)]\<close> attribute; \<open>None\<close> is a value that does not parse.\<close>

datatype ('ty, 'p) crdt_meta =
    MetaTime "'ty option"
  | MetaBound "'p option"
  | MetaBoundConcretizeTime "'p option"
  | MetaConcretizeTime
  | MetaConcretizeTimeOp
  | MetaUnrecognized

datatype 'ty input_data = NamedStruct "(string \<times> 'ty) list" | OtherStruct | NoStruct

text \<open>\<open>in_where_comma\<close> is whether a comma follows the last predicate of the where clause.\<close>

record ('ty, 'b, 'p) derive_input =
  in_ident :: string
  in_params :: "'b param list"
  in_where :: "'p list"
  in_where_comma :: bool
  in_attrs :: "(string \<times> ('ty, 'p) crdt_meta list) list"
  in_data :: "'ty input_data"

section \<open>Attributes\<close>

record ('ty, 'p) crdt_attrs =
  at_time :: "'ty option"
  at_bounds :: "'p list"
  at_bounds_concretize_time :: "'p list"
  at_concretize_time :: bool
  at_concretize_time_op :: bool

definition parse_meta :: "('ty, 'p) crdt_attrs \<Rightarrow> ('ty, 'p) crdt_meta \<Rightarrow> ('ty, 'p) crdt_attrs res" where
  "parse_meta attrs m =
     (case m of
        MetaTime ty \<Rightarrow> bindR (expect ty) (\<lambda>ty. Ret (attrs\<lparr>at_time := Some ty\<rparr>))
      | MetaBound p \<Rightarrow> bindR (expect p) (\<lambda>p. Ret (attrs\<lparr>at_bounds := at_bounds attrs @ [p]\<rparr>))
      | MetaBoundConcretizeTime p \<Rightarrow>
          bindR (expect p) (\<lambda>p. Ret (attrs\<lparr>at_bounds_concretize_time := at_bounds_concretize_time attrs @ [p]\<rparr>))
      | MetaConcretizeTime \<Rightarrow> Ret (attrs\<lparr>at_concretize_time := True\<rparr>)
      | MetaConcretizeTimeOp \<Rightarrow> Ret (attrs\<lparr>at_concretize_time_op := True\<rparr>)
      | MetaUnrecognized \<Rightarrow> Panic ExpectFailed)"

definition parse_crdt_attrs :: "('ty, 'b, 'p) derive_input \<Rightarrow> ('ty, 'p) crdt_attrs res" where
  "parse_crdt_attrs ast =
     foldR (\<lambda>attrs (path, metas). if path = ''crdt'' then foldR parse_meta attrs metas else Ret attrs)
       \<lparr>at_time = None, at_bounds = [], at_bounds_concretize_time = [], at_concretize_time = False,
        at_concretize_time_op = False\<rparr>
       (in_attrs ast)"

section \<open>Output\<close>

text \<open>
  \<open>TimeOfField ty\<close> is the time type of \<open>ty\<close>. An arm of the match in \<open>apply\<close> names a variant and the field it
  updates; \<open>arm_rest\<close> is \<open>..self\<close>.
\<close>

datatype 'ty time_type = TimeIs 'ty | TimeOfField 'ty

text \<open>The where clause of the enum, as it is put together: predicates of the struct, and \<open>ty: CRDT\<close> for a type.\<close>

datatype ('ty, 'p) where_token = Predicate 'p | CrdtBound 'ty | Comma

record match_arm =
  arm_variant :: string
  arm_field :: string
  arm_rest :: bool

text \<open>Generic parameters of an implementation of \<open>ConcretizeTime\<close>, and its type arguments.\<close>

datatype 'b impl_param =
    HeaderIdParam bool
  | ConcretizeTimeParam string "'b list"
  | OtherParam "'b param"

datatype type_arg = Arg string | SerializedArg string

record ('b, 'p, 'a) concretize_impl =
  ci_params :: "'b impl_param list"
  ci_args :: "type_arg list"
  ci_serialized :: "type_arg list"
  ci_where :: "'p list"
  ci_body :: "'a list"

record ('ty, 'b, 'p) generated =
  op_name :: string
  op_variants :: "(string \<times> 'ty) list"
  op_params :: "'b param list"
  op_where :: "('ty, 'p) where_token list"
  op_serde_bounds :: "'ty list"
  op_args :: "type_arg list"
  crdt_where :: "'p list"
  crdt_time :: "'ty time_type"
  crdt_arms :: "match_arm list"
  concretize_op :: "('b, 'p, string \<times> 'ty) concretize_impl option"
  concretize_struct :: "('b, 'p, string \<times> 'ty \<times> bool) concretize_impl option"

section \<open>The macro\<close>

fun param_name :: "'b param \<Rightarrow> string" where
  "param_name (LifetimeParam n) = n"
| "param_name (TypeParam n bs) = n"
| "param_name (ConstParam n) = n"

definition abbr_type_args :: "'b param list \<Rightarrow> type_arg list" where
  "abbr_type_args ps = map (\<lambda>p. Arg (param_name p)) ps"

fun find_time_type_param :: "'b param list \<Rightarrow> string option" where
  "find_time_type_param [] = None"
| "find_time_type_param (TypeParam n bs # ps) = (if n = ''Time'' then Some n else find_time_type_param ps)"
| "find_time_type_param (p # ps) = find_time_type_param ps"

definition impl_param :: "string \<Rightarrow> 'b param \<Rightarrow> 'b impl_param" where
  "impl_param time_param p =
     (case p of
        TypeParam n bs \<Rightarrow> if n = time_param then ConcretizeTimeParam n bs else OtherParam p
      | _ \<Rightarrow> OtherParam p)"

definition serialized_arg :: "string \<Rightarrow> 'b param \<Rightarrow> type_arg" where
  "serialized_arg time_param p =
     (case p of TypeParam n bs \<Rightarrow> if n = time_param then SerializedArg n else Arg n | _ \<Rightarrow> Arg (param_name p))"

fun punctuated :: "'p list \<Rightarrow> bool \<Rightarrow> ('ty, 'p) where_token list" where
  "punctuated [] comma = []"
| "punctuated [p] comma = (if comma then [Predicate p, Comma] else [Predicate p])"
| "punctuated (p # ps) comma = Predicate p # Comma # punctuated ps comma"

text \<open>\<open>field_info\<close>: the name of a field, its type, the name of its variant.\<close>

definition gen_op_concretize_time_impl ::
    "'b param list \<Rightarrow> (string \<times> 'ty \<times> string) list \<Rightarrow> 'p list \<Rightarrow> ('b, 'p, string \<times> 'ty) concretize_impl option" where
  "gen_op_concretize_time_impl params field_info wh =
     map_option (\<lambda>time_param.
       \<lparr>ci_params = HeaderIdParam False # map (impl_param time_param) params,
        ci_args = abbr_type_args params,
        ci_serialized = map (serialized_arg time_param) params,
        ci_where = wh,
        ci_body = map (\<lambda>(_, field_type, variant_name). (variant_name, field_type)) field_info\<rparr>)
     (find_time_type_param params)"

text \<open>The flag of a field assignment is whether the header id is cloned for it.\<close>

definition gen_struct_concretize_time_impl ::
    "'b param list \<Rightarrow> (string \<times> 'ty \<times> string) list \<Rightarrow> 'p list \<Rightarrow> ('b, 'p, string \<times> 'ty \<times> bool) concretize_impl option" where
  "gen_struct_concretize_time_impl params field_info wh =
     map_option (\<lambda>time_param.
       \<lparr>ci_params = HeaderIdParam (length field_info > 1) # map (impl_param time_param) params,
        ci_args = abbr_type_args params,
        ci_serialized = map (serialized_arg time_param) params,
        ci_where = wh,
        ci_body = map (\<lambda>(i, (field_name, field_type, _)). (field_name, field_type, i < length field_info - 1))
                      (enumerate 0 field_info)\<rparr>)
     (find_time_type_param params)"

definition impl_crdt_derive ::
    "(string \<Rightarrow> string) \<Rightarrow> ('ty, 'b, 'p) derive_input \<Rightarrow> ('ty, 'b, 'p) generated res" where
  "impl_crdt_derive camel ast =
     (case in_data ast of
        NoStruct \<Rightarrow> Panic ExplicitPanic
      | OtherStruct \<Rightarrow> Panic ExplicitPanic
      | NamedStruct fs \<Rightarrow>
          if fs = [] then Panic AssertFailed
          else
            let field_info = map (\<lambda>(field_name, field_type). (field_name, field_type, camel field_name)) fs in
            bindR (parse_crdt_attrs ast) (\<lambda>attrs.
            let concretize_where = in_where ast @ at_bounds attrs @ at_bounds_concretize_time attrs in
            Ret \<lparr>op_name = in_ident ast @ ''Op'',
                 op_variants = map (\<lambda>(_, field_type, variant_name). (variant_name, field_type)) field_info,
                 op_params = in_params ast,
                 op_where = punctuated (in_where ast) (in_where_comma ast) @
                   concat (map (\<lambda>(_, field_type, _). [CrdtBound field_type, Comma]) field_info),
                 op_serde_bounds = map (\<lambda>(_, field_type, _). field_type) field_info,
                 op_args = abbr_type_args (in_params ast),
                 crdt_where = in_where ast @ at_bounds attrs,
                 crdt_time = (case at_time attrs of Some ty \<Rightarrow> TimeIs ty | None \<Rightarrow> TimeOfField (snd (hd fs))),
                 crdt_arms = map (\<lambda>(field_name, _, variant_name).
                   \<lparr>arm_variant = variant_name, arm_field = field_name, arm_rest = (length field_info \<noteq> 1)\<rparr>) field_info,
                 concretize_op = (if at_concretize_time_op attrs
                   then gen_op_concretize_time_impl (in_params ast) field_info concretize_where else None),
                 concretize_struct = (if at_concretize_time attrs
                   then gen_struct_concretize_time_impl (in_params ast) field_info concretize_where else None)\<rparr>))"

section \<open>Running the generated code\<close>

text \<open>
  An operation is a variant with the operation of a field. \<open>field_apply f\<close> is \<open>apply\<close> of the type of the
  field \<open>f\<close>. Without \<open>..self\<close> the new value has the named field only.
\<close>

fun find_arm :: "string \<Rightarrow> match_arm list \<Rightarrow> match_arm option" where
  "find_arm v [] = None"
| "find_arm v (a # as) = (if arm_variant a = v then Some a else find_arm v as)"

definition generated_apply ::
    "('ty, 'b, 'p) generated \<Rightarrow> (string \<Rightarrow> 'v \<Rightarrow> 'op \<Rightarrow> 'v res) \<Rightarrow> (string \<times> 'v) list \<Rightarrow> string \<times> 'op
     \<Rightarrow> (string \<times> 'v) list res" where
  "generated_apply g field_apply self op =
     (case find_arm (fst op) (crdt_arms g) of
        None \<Rightarrow> Panic Unreachable
      | Some a \<Rightarrow>
          bindR (expect (map_of self (arm_field a))) (\<lambda>v.
          bindR (field_apply (arm_field a) v (snd op)) (\<lambda>v'.
          Ret (if arm_rest a then map (\<lambda>(f, v). (f, if f = arm_field a then v' else v)) self else [(arm_field a, v')]))))"

text \<open>\<open>conc ty x h\<close> is \<open>concretize_time\<close> of the type \<open>ty\<close>, or of its operations.\<close>

definition generated_concretize_op ::
    "('b, 'p, string \<times> 'ty) concretize_impl \<Rightarrow> ('ty \<Rightarrow> 'ops \<Rightarrow> 'h \<Rightarrow> 'op) \<Rightarrow> string \<times> 'ops \<Rightarrow> 'h \<Rightarrow> (string \<times> 'op) res" where
  "generated_concretize_op c conc src current_header =
     (case map_of (ci_body c) (fst src) of
        None \<Rightarrow> Panic Unreachable
      | Some ty \<Rightarrow> Ret (fst src, conc ty (snd src) current_header))"

definition generated_concretize_struct ::
    "('b, 'p, string \<times> 'ty \<times> bool) concretize_impl \<Rightarrow> ('ty \<Rightarrow> 'vs \<Rightarrow> 'h \<Rightarrow> 'v) \<Rightarrow> (string \<times> 'vs) list \<Rightarrow> 'h
     \<Rightarrow> (string \<times> 'v) list res" where
  "generated_concretize_struct c conc src current_header =
     mapR (\<lambda>(f, ty, _). bindR (expect (map_of src f)) (\<lambda>v. Ret (f, conc ty v current_header))) (ci_body c)"

section \<open>Every operation goes to its field\<close>

text \<open>The operations on one field, of a set and of a sequence of operations with their times.\<close>

definition field_ops :: "('t \<times> string \<times> 'op) set \<Rightarrow> string \<Rightarrow> ('t \<times> 'op) set" where
  "field_ops ops v = {(t, a). (t, v, a) \<in> ops}"

definition project :: "string \<Rightarrow> ('t \<times> string \<times> 'op) list \<Rightarrow> ('t \<times> 'op) list" where
  "project v xs = map (\<lambda>(t, _, a). (t, a)) (filter (\<lambda>(_, u, _). u = v) xs)"

lemma project_simps [simp]:
  "project v [] = []"
  "project v ((t, u, a) # xs) = (if u = v then (t, a) # project v xs else project v xs)"
  by (simp_all add: project_def)

lemma set_project: "set (project v xs) = field_ops (set xs) v"
  by (auto simp: project_def field_ops_def image_iff)

lemma causal_order_project:
  "causal_order ops (at_times before) D xs \<Longrightarrow>
   causal_order (field_ops ops v) (at_times before) (field_ops D v) (project v xs)"
proof (induction xs arbitrary: D)
  case (Cons x xs)
  obtain t u a where x: "x = (t, u, a)" by (cases x)
  have "field_ops (insert x D) v = (if u = v then insert (t, a) (field_ops D v) else field_ops D v)"
    by (auto simp: x field_ops_def)
  moreover have "u = v \<Longrightarrow> enabled (field_ops ops v) (at_times before) (field_ops D v) (t, a)"
    using Cons.prems by (auto simp: x enabled_def field_ops_def at_times_def)
  ultimately show ?case using Cons.IH [of "insert x D"] Cons.prems by (cases "u = v") (simp_all add: x)
qed simp

lemma derive_Ret:
  assumes "impl_crdt_derive camel ast = Ret g" and "in_data ast = NamedStruct fs"
  shows "fs \<noteq> [] \<and> op_variants g = map (\<lambda>(f, ty). (camel f, ty)) fs \<and>
    crdt_arms g = map (\<lambda>(f, ty). \<lparr>arm_variant = camel f, arm_field = f, arm_rest = (length fs \<noteq> 1)\<rparr>) fs"
  using assms by (auto simp: impl_crdt_derive_def Let_def split: if_splits)

lemma find_arm_of:
  "f \<in> fst ` set fs \<Longrightarrow> distinct (map (\<lambda>(f, ty). camel f) fs) \<Longrightarrow>
   find_arm (camel f) (map (\<lambda>(f, ty). \<lparr>arm_variant = camel f, arm_field = f, arm_rest = r\<rparr>) fs) =
     Some \<lparr>arm_variant = camel f, arm_field = f, arm_rest = r\<rparr>"
proof (induction fs)
  case (Cons p fs)
  obtain k ty where p: "p = (k, ty)" by force
  have "camel f \<noteq> camel k \<or> f = k" using Cons.prems by (auto simp: p image_iff case_prod_unfold)
  with Cons show ?case by (auto simp: p)
qed simp

lemma generated_apply_field:
  assumes "impl_crdt_derive camel ast = Ret g" and "in_data ast = NamedStruct fs"
    and "distinct (map fst fs)" and "distinct (map fst (op_variants g))"
    and "map fst s = map fst fs" and "f \<in> fst ` set fs" and "fa f (the (map_of s f)) a = Ret v"
  shows "generated_apply g fa s (camel f, a) = Ret (map (\<lambda>(k, u). (k, if k = f then v else u)) s)"
proof -
  note g = derive_Ret [OF assms(1,2)]
  have arm: "find_arm (camel f) (crdt_arms g) = Some \<lparr>arm_variant = camel f, arm_field = f, arm_rest = (length fs \<noteq> 1)\<rparr>"
    using find_arm_of [OF assms(6), of camel "length fs \<noteq> 1"] assms(4) g by (simp add: case_prod_unfold comp_def)
  have "f \<in> fst ` set s" using assms(5,6) by (metis set_map)
  then obtain u where u: "map_of s f = Some u" by (metis map_of_eq_None_iff not_None_eq)
  have single: "[(f, v)] = map (\<lambda>(k, u). (k, if k = f then v else u)) s" if "length fs = 1"
  proof -
    have "length s = 1" using assms(5) that by (metis length_map)
    with \<open>f \<in> fst ` set s\<close> show ?thesis by (auto simp: length_Suc_conv)
  qed
  show ?thesis using assms(7) single by (auto simp: generated_apply_def arm u)
qed

lemma map_of_update:
  "map_of (map (\<lambda>(k, u). (k, if k = f then v else u)) s) j = (if j = f then map_option (\<lambda>_. v) (map_of s j) else map_of s j)"
  by (induction s) auto

lemma distinct_map_fst_inj: "distinct (map (\<lambda>p. h (fst p)) fs) \<Longrightarrow> inj_on h (fst ` set fs)"
  by (induction fs) (auto simp: inj_on_def image_iff)

lemma restore: "distinct (map fst s) \<Longrightarrow> map (\<lambda>f. (f, the (map_of s f))) (map fst s) = s"
  by (auto intro!: map_idI simp: map_of_is_SomeI)

lemma generated_run:
  assumes gen: "impl_crdt_derive camel ast = Ret g" "in_data ast = NamedStruct fs"
    "distinct (map fst fs)" "distinct (map fst (op_variants g))"
    and "map fst s = map fst fs"
    and "\<And>f. f \<in> fst ` set fs \<Longrightarrow> foldR (\<lambda>v e. fa f v (snd e)) (the (map_of s f)) (project (camel f) xs) = Ret (w f)"
    and "\<And>t v a. (t, v, a) \<in> set xs \<Longrightarrow> v \<in> fst ` set (op_variants g)"
  shows "foldR (\<lambda>s e. generated_apply g fa s (snd e)) s xs = Ret (map (\<lambda>f. (f, w f)) (map fst fs))"
  using assms(5-)
proof (induction xs arbitrary: s)
  case Nil
  have "map (\<lambda>f. (f, the (map_of s f))) (map fst s) = s" using Nil.prems(1) gen(3) by (intro restore) simp
  moreover have "\<forall>f \<in> set (map fst s). the (map_of s f) = w f" using Nil.prems(1,2) by (metis foldR.simps(1) list.set_map project_simps(1) res.inject(1))
  ultimately show ?case using Nil.prems(1) by (metis (no_types, lifting) foldR.simps(1) map_eq_conv)
next
  case (Cons x xs)
  obtain t u a where x: "x = (t, u, a)" by (cases x)
  have ops: "op_variants g = map (\<lambda>(f, ty). (camel f, ty)) fs" using derive_Ret [OF gen(1,2)] by simp
  from Cons.prems(3) [of t u a] have "u \<in> fst ` set (op_variants g)" by (simp add: x)
  then obtain f ty where fty: "(f, ty) \<in> set fs" "u = camel f" by (auto simp: ops)
  then have f: "f \<in> fst ` set fs" "u = camel f" by force+
  have other: "camel k = camel f \<longleftrightarrow> k = f" if "k \<in> fst ` set fs" for k
  proof -
    have "inj_on camel (fst ` set fs)" using gen(4) by (simp add: ops comp_def case_prod_unfold distinct_map_fst_inj)
    then show ?thesis using that f(1) by (auto dest: inj_onD)
  qed
  from Cons.prems(2) [OF f(1)] obtain v where
    v: "fa f (the (map_of s f)) a = Ret v" "foldR (\<lambda>v e. fa f v (snd e)) v (project (camel f) xs) = Ret (w f)"
    by (auto simp: x f(2))
  let ?s = "map (\<lambda>(k, u). (k, if k = f then v else u)) s"
  have one: "generated_apply g fa s (snd x) = Ret ?s"
    using generated_apply_field [where fa = fa and f = f, OF gen Cons.prems(1) f(1) v(1)] by (simp add: x f(2))
  have keys: "map fst ?s = map fst fs" using Cons.prems(1) by (simp add: comp_def case_prod_unfold)
  have "f \<in> fst ` set s" using f(1) Cons.prems(1) by (metis set_map)
  then obtain z where z: "map_of s f = Some z" by (metis map_of_eq_None_iff not_None_eq)
  have "foldR (\<lambda>s e. generated_apply g fa s (snd e)) ?s xs = Ret (map (\<lambda>f. (f, w f)) (map fst fs))"
  proof (rule Cons.IH [OF keys])
    fix k assume k: "k \<in> fst ` set fs"
    show "foldR (\<lambda>v e. fa k v (snd e)) (the (map_of ?s k)) (project (camel k) xs) = Ret (w k)"
      using Cons.prems(2) [OF k] other [OF k] v(2) z by (cases "k = f") (simp_all add: x f(2) map_of_update)
  qed (use Cons.prems(3) in auto)
  with one show ?case by simp
qed

text \<open>C19. A derived struct converges when its fields do. For any struct the macro accepts, with variants
  of different names, and any operations on it: replicas that apply the operations in any two
  causal orders end in the same value without a panic, and each field of it is what the
  operations of that field alone, in the order they came, make of the field.\<close>

theorem derived_struct_converges:
  assumes gen: "impl_crdt_derive camel ast = Ret g" "in_data ast = NamedStruct fs"
    "distinct (map fst fs)" "distinct (map fst (op_variants g))"
    and s0: "map fst s0 = map fst fs"
    and typed: "\<And>t v a. (t, v, a) \<in> ops \<Longrightarrow> v \<in> fst ` set (op_variants g)"
    and conv: "\<And>f. f \<in> fst ` set fs \<Longrightarrow>
      causal_effects (field_ops ops (camel f)) (at_times before) (\<lambda>v e. fa f v (snd e)) (ok f) \<and>
      ok f {} (the (map_of s0 f))"
    and orders: "causal_order ops (at_times before) {} xs" "causal_order ops (at_times before) {} ys" "set xs = set ys"
  shows "\<exists>s. foldR (\<lambda>s e. generated_apply g fa s (snd e)) s0 xs = Ret s \<and>
    foldR (\<lambda>s e. generated_apply g fa s (snd e)) s0 ys = Ret s \<and> map fst s = map fst fs \<and>
    (\<forall>(f, v) \<in> set s. foldR (\<lambda>v e. fa f v (snd e)) (the (map_of s0 f)) (project (camel f) xs) = Ret v)"
proof -
  have none: "field_ops {} v = {}" for v :: string by (simp add: field_ops_def)
  have "\<exists>v. foldR (\<lambda>v e. fa f v (snd e)) (the (map_of s0 f)) (project (camel f) xs) = Ret v \<and>
      foldR (\<lambda>v e. fa f v (snd e)) (the (map_of s0 f)) (project (camel f) ys) = Ret v" if f: "f \<in> fst ` set fs" for f
  proof -
    note c = conv [OF f, THEN conjunct1] and i = conv [OF f, THEN conjunct2]
    have "set (project (camel f) xs) = set (project (camel f) ys)" using orders(3) by (simp add: set_project)
    from causal_effects.converge [OF c i causal_order_project [OF orders(1), of "camel f", unfolded none]
        causal_order_project [OF orders(2), of "camel f", unfolded none] this] show ?thesis by blast
  qed
  then obtain w where w: "\<And>f. f \<in> fst ` set fs \<Longrightarrow>
      foldR (\<lambda>v e. fa f v (snd e)) (the (map_of s0 f)) (project (camel f) xs) = Ret (w f) \<and>
      foldR (\<lambda>v e. fa f v (snd e)) (the (map_of s0 f)) (project (camel f) ys) = Ret (w f)" by metis
  have sub: "set zs \<subseteq> ops" if "causal_order ops (at_times before) D zs" for D zs
    using that by (induction zs arbitrary: D) (auto simp: enabled_def)
  have "foldR (\<lambda>s e. generated_apply g fa s (snd e)) s0 xs = Ret (map (\<lambda>f. (f, w f)) (map fst fs))"
    by (rule generated_run [OF gen s0]) (use w typed sub [OF orders(1)] in blast)+
  moreover have "foldR (\<lambda>s e. generated_apply g fa s (snd e)) s0 ys = Ret (map (\<lambda>f. (f, w f)) (map fst fs))"
    by (rule generated_run [OF gen s0]) (use w typed sub [OF orders(2)] in blast)+
  ultimately show ?thesis using w by (intro exI [of _ "map (\<lambda>f. (f, w f)) (map fst fs)"]) (auto simp: comp_def)
qed

text \<open>For the witness: a recipe of two registers.\<close>

definition recipe :: "(string, string, string) derive_input" where
  "recipe = \<lparr>in_ident = ''Recipe'', in_params = [TypeParam ''Time'' []], in_where = [], in_where_comma = False,
     in_attrs = [(''doc'', []), (''crdt'', [MetaBound (Some ''Time: Ord''), MetaConcretizeTimeOp])],
     in_data = NamedStruct [(''title'', ''LWW''), (''steps'', ''LWW'')]\<rparr>"

definition recipe_camel :: "string \<Rightarrow> string" where
  "recipe_camel f = (if f = ''title'' then ''Title'' else ''Steps'')"

definition recipe_writes :: "(nat \<times> string \<times> (nat lamport_timestamp, char) lww) list" where
  "recipe_writes = [(1, ''Title'', reg 2 1 CHR ''a''), (2, ''Title'', reg 3 1 CHR ''b''), (3, ''Steps'', reg 2 1 CHR ''c'')]"

theorem derived_struct_converges_witness:
  "\<exists>g s. impl_crdt_derive recipe_camel recipe = Ret g \<and>
    foldR (\<lambda>s e. generated_apply g (\<lambda>_. lww_apply lamport_happens_before) s (snd e))
      [(''title'', reg 1 1 CHR ''x''), (''steps'', reg 1 1 CHR ''y'')] recipe_writes = Ret s \<and>
    foldR (\<lambda>s e. generated_apply g (\<lambda>_. lww_apply lamport_happens_before) s (snd e))
      [(''title'', reg 1 1 CHR ''x''), (''steps'', reg 1 1 CHR ''y'')] (rev recipe_writes) = Ret s"
proof -
  let ?s0 = "[(''title'', reg 1 1 CHR ''x''), (''steps'', reg 1 1 CHR ''y'')]" and ?before = "\<lambda>_ _ :: nat. False"
  let ?ok = "\<lambda>f D v. D \<subseteq> field_ops (set recipe_writes) (recipe_camel f) \<and> register_inv (the (map_of ?s0 f)) D v"
  obtain g where g: "impl_crdt_derive recipe_camel recipe = Ret g"
    by (simp add: impl_crdt_derive_def recipe_def parse_crdt_attrs_def parse_meta_def)
  have data: "in_data recipe = NamedStruct [(''title'', ''LWW''), (''steps'', ''LWW'')]" by (simp add: recipe_def)
  note ops = derive_Ret [OF g data]
  have title: "field_ops (set recipe_writes) ''Title'' = {(1, reg 2 1 CHR ''a''), (2, reg 3 1 CHR ''b'')}"
    and steps: "field_ops (set recipe_writes) ''Steps'' = {(3, reg 2 1 CHR ''c'')}"
    by (auto simp: field_ops_def recipe_writes_def)
  have conv: "causal_effects (field_ops (set recipe_writes) (recipe_camel f)) (at_times ?before)
      (\<lambda>v e. lww_apply lamport_happens_before v (snd e)) (?ok f) \<and> ?ok f {} (the (map_of ?s0 f))"
    if "f \<in> fst ` set [(''title'', ''LWW''), (''steps'', ''LWW'')]" for f
  proof
    show "causal_effects (field_ops (set recipe_writes) (recipe_camel f)) (at_times ?before)
        (\<lambda>v e. lww_apply lamport_happens_before v (snd e)) (?ok f)"
      using that by (intro lamport.register_effects) (auto simp: recipe_camel_def title steps reg_def inj_on_def)
  qed (simp add: register_inv_def)
  have "\<exists>s. foldR (\<lambda>s e. generated_apply g (\<lambda>_. lww_apply lamport_happens_before) s (snd e)) ?s0 recipe_writes = Ret s \<and>
    foldR (\<lambda>s e. generated_apply g (\<lambda>_. lww_apply lamport_happens_before) s (snd e)) ?s0 (rev recipe_writes) = Ret s \<and>
    map fst s = map fst [(''title'', ''LWW''), (''steps'', ''LWW'')] \<and>
    (\<forall>(f, v) \<in> set s. foldR (\<lambda>v e. lww_apply lamport_happens_before v (snd e)) (the (map_of ?s0 f))
      (project (recipe_camel f) recipe_writes) = Ret v)"
  proof (rule derived_struct_converges [where before = ?before and ops = "set recipe_writes" and fa = "\<lambda>_. lww_apply lamport_happens_before",
        OF g data _ _ _ _ conv])
    show "causal_order (set recipe_writes) (at_times ?before) {} recipe_writes"
      "causal_order (set recipe_writes) (at_times ?before) {} (rev recipe_writes)"
      by (auto simp: recipe_writes_def enabled_def at_times_def)
  qed (auto simp: ops recipe_camel_def recipe_writes_def)
  with g show ?thesis by blast
qed

section \<open>What the macro accepts\<close>

definition parses :: "('ty, 'p) crdt_meta \<Rightarrow> bool" where
  "parses m \<longleftrightarrow> m \<notin> {MetaTime None, MetaBound None, MetaBoundConcretizeTime None, MetaUnrecognized}"

definition crdt_metas :: "('ty, 'b, 'p) derive_input \<Rightarrow> ('ty, 'p) crdt_meta set" where
  "crdt_metas ast = {m. \<exists>ms. (''crdt'', ms) \<in> set (in_attrs ast) \<and> m \<in> set ms}"

lemma parse_meta_Ret:
  "if parses m then \<exists>b. parse_meta a m = Ret b \<and>
     (at_concretize_time_op b \<longleftrightarrow> at_concretize_time_op a \<or> m = MetaConcretizeTimeOp) \<and>
     (at_concretize_time b \<longleftrightarrow> at_concretize_time a \<or> m = MetaConcretizeTime)
   else parse_meta a m = Panic ExpectFailed"
  by (cases m) (auto simp: parse_meta_def parses_def split: option.split)

lemma parse_metas_Ret:
  "if \<forall>m \<in> set ms. parses m then \<exists>b. foldR parse_meta a ms = Ret b \<and>
     (at_concretize_time_op b \<longleftrightarrow> at_concretize_time_op a \<or> MetaConcretizeTimeOp \<in> set ms) \<and>
     (at_concretize_time b \<longleftrightarrow> at_concretize_time a \<or> MetaConcretizeTime \<in> set ms)
   else foldR parse_meta a ms = Panic ExpectFailed"
proof (induction ms arbitrary: a)
  case (Cons m ms)
  show ?case
  proof (cases "parses m")
    case True
    with parse_meta_Ret [of m a] obtain b where b: "parse_meta a m = Ret b"
      "at_concretize_time_op b \<longleftrightarrow> at_concretize_time_op a \<or> m = MetaConcretizeTimeOp"
      "at_concretize_time b \<longleftrightarrow> at_concretize_time a \<or> m = MetaConcretizeTime" by auto
    with Cons.IH [of b] True show ?thesis by (auto split: if_splits)
  next
    case False
    with parse_meta_Ret [of m a] show ?thesis by simp
  qed
qed simp

lemma parse_crdt_attrs_Ret:
  fixes ast :: "('ty, 'b, 'p) derive_input"
  shows "if \<forall>m \<in> crdt_metas ast. parses m then \<exists>b. parse_crdt_attrs ast = Ret b \<and>
     (at_concretize_time_op b \<longleftrightarrow> MetaConcretizeTimeOp \<in> crdt_metas ast) \<and>
     (at_concretize_time b \<longleftrightarrow> MetaConcretizeTime \<in> crdt_metas ast)
   else parse_crdt_attrs ast = Panic ExpectFailed"
proof -
  let ?step = "\<lambda>attrs :: ('ty, 'p) crdt_attrs. \<lambda>(path, metas). if path = ''crdt'' then foldR parse_meta attrs metas else Ret attrs"
  have run: "foldR ?step a as = foldR parse_meta a (concat (map snd (filter (\<lambda>(path, _). path = ''crdt'') as)))" for a as
    by (induction as arbitrary: a) (auto simp: foldR_append intro: bindR_cong)
  have metas: "set (concat (map snd (filter (\<lambda>(path, _). path = ''crdt'') (in_attrs ast)))) = crdt_metas ast"
    by (auto simp: crdt_metas_def)
  show ?thesis
    using parse_metas_Ret [of "concat (map snd (filter (\<lambda>(path, _). path = ''crdt'') (in_attrs ast)))"
        "\<lparr>at_time = None, at_bounds = [], at_bounds_concretize_time = [], at_concretize_time = False, at_concretize_time_op = False\<rparr>"]
    unfolding parse_crdt_attrs_def run metas by (simp cong: if_cong)
qed

text \<open>A where clause is well formed when its predicates are separated by commas.\<close>

fun where_formed :: "('ty, 'p) where_token list \<Rightarrow> bool" where
  "where_formed [] = True"
| "where_formed (Comma # ts) = False"
| "where_formed [t] = True"
| "where_formed (t # Comma # ts) = where_formed ts"
| "where_formed (t # t' # ts) = False"

lemma where_formed_bounds: "where_formed (concat (map (\<lambda>ty. [CrdtBound ty, Comma]) tys))"
  by (induction tys) simp_all

lemma where_formed_punctuated:
  "ty \<noteq> [] \<Longrightarrow> where_formed (punctuated ps comma @ concat (map (\<lambda>ty. [CrdtBound ty, Comma]) ty)) \<longleftrightarrow> ps = [] \<or> comma"
  by (induction ps comma rule: punctuated.induct) (auto simp: where_formed_bounds neq_Nil_conv)

text \<open>The enum is well formed only when the struct has no where clause, or one that ends in a comma.\<close>

lemma derive_where_formed:
  assumes "impl_crdt_derive camel ast = Ret g"
  shows "where_formed (op_where g) \<longleftrightarrow> in_where ast = [] \<or> in_where_comma ast"
proof (cases "in_data ast")
  case (NamedStruct fs)
  with assms have "fs \<noteq> []" "op_where g = punctuated (in_where ast) (in_where_comma ast) @
      concat (map (\<lambda>ty. [CrdtBound ty, Comma]) (map snd fs))"
    by (auto simp: impl_crdt_derive_def Let_def comp_def case_prod_unfold split: if_splits)
  with where_formed_punctuated [of "map snd fs" "in_where ast" "in_where_comma ast"] show ?thesis
    by (simp del: map_map)
qed (use assms in \<open>simp_all add: impl_crdt_derive_def\<close>)



end
