(* ===== verification/Typeable.thy ===== *)
theory Typeable
  imports Metadata "HOL-Library.Char_ord" "HOL-Library.List_Lexorder"
begin

text \<open>
  Identifiers of types: the crate \<open>ossa-typeable\<close> and its derive macro \<open>ossa-typeable-derive\<close>. A type
  id is the SHA-256 digest of an encoding of the declaration of the type. The crate \<open>sha2\<close> is the
  parameter \<open>sha256\<close>; its hasher, which digests everything it was updated with, is the bytes so far.

  \<open>rust_type\<close> are the types the crates give ids to, with the declaration of each derived type at
  its arguments. The macro works on a declaration and produces statements; they are run with the
  ids of the types of its fields.
\<close>

type_synonym hasher = bytes

section \<open>Strings\<close>

definition bytes_of :: "string \<Rightarrow> bytes" where
  "bytes_of s = map (\<lambda>c. of_nat (of_char c)) s"

definition is_valid_char :: "char \<Rightarrow> bool" where
  "is_valid_char c = (let n = of_char c :: nat in 48 \<le> n \<and> n \<le> 57 \<or> 65 \<le> n \<and> n \<le> 90 \<or> 97 \<le> n \<and> n \<le> 122 \<or> n = 95)"

section \<open>Helpers of generated code\<close>

definition helper_counter :: "hasher \<Rightarrow> nat \<Rightarrow> hasher res" where
  "helper_counter h n = (if n < 256 then Ret (h @ [of_nat n]) else Panic ExpectFailed)"

definition helper_string_non_ascii :: "hasher \<Rightarrow> string \<Rightarrow> hasher res" where
  "helper_string_non_ascii h s = bindR (helper_counter h (length (bytes_of s))) (\<lambda>h. Ret (h @ bytes_of s))"

definition helper_string :: "hasher \<Rightarrow> string \<Rightarrow> hasher res" where
  "helper_string h s = (if list_all is_valid_char s then helper_string_non_ascii h s else Panic AssertFailed)"

definition helper_u8 :: "hasher \<Rightarrow> u8 \<Rightarrow> hasher" where
  "helper_u8 h n = h @ [n]"

definition helper_usize :: "hasher \<Rightarrow> u64 \<Rightarrow> hasher" where
  "helper_usize h n = h @ to_be_bytes n"

definition helper_type_constructor :: "hasher \<Rightarrow> string \<Rightarrow> hasher res" where
  "helper_type_constructor h constructor_name = helper_string h constructor_name"

definition helper_type_args_count :: "hasher \<Rightarrow> u8 \<Rightarrow> hasher" where
  "helper_type_args_count h n = h @ [n]"

text \<open>\<open>i\<close> is \<open>T::type_ident()\<close>, which may panic itself.\<close>

definition helper_type_ident :: "hasher \<Rightarrow> bytes res \<Rightarrow> hasher res" where
  "helper_type_ident h i = bindR i (\<lambda>i. Ret (h @ i))"

section \<open>Types of the library\<close>

definition primitive_ident :: "(bytes \<Rightarrow> bytes) \<Rightarrow> string \<Rightarrow> bytes res" where
  "primitive_ident sha256 type_name = bindR (helper_type_constructor [] type_name) (\<lambda>h. Ret (sha256 h))"

definition array_ident :: "(bytes \<Rightarrow> bytes) \<Rightarrow> u64 \<Rightarrow> bytes res \<Rightarrow> bytes res" where
  "array_ident sha256 n t =
     bindR (helper_string_non_ascii [] ''[]'') (\<lambda>h.
     bindR (helper_type_ident (helper_usize (helper_type_args_count h 1) n) t) (\<lambda>h.
     Ret (sha256 h)))"

text \<open>\<open>Vec\<close>, \<open>Option\<close>, and \<open>OrdMap\<close> and \<open>OrdSet\<close> of the crate \<open>im\<close>.\<close>

definition constructor_ident :: "(bytes \<Rightarrow> bytes) \<Rightarrow> string \<Rightarrow> bytes res list \<Rightarrow> bytes res" where
  "constructor_ident sha256 name ts =
     bindR (helper_type_constructor [] name) (\<lambda>h.
     bindR (foldR helper_type_ident (helper_type_args_count h (of_nat (length ts))) ts) (\<lambda>h.
     Ret (sha256 h)))"

section \<open>Declarations\<close>

text \<open>
  What the macro reads of a declaration. \<open>first_segment\<close> is the first segment of the path of the type of
  a field, \<open>None\<close> when the type is not a path; \<open>'t\<close> is the type itself. An attribute
  is \<open>NameValue\<close> of the first segment of its path and its value when that is a string literal.
\<close>

datatype 't field = Field (field_ident: string) (first_segment: "string option") (field_type: 't)

datatype 't fields = NamedFields "'t field list" | UnnamedFields "'t field list" | UnitFields

datatype 't decl_data =
    StructData "'t fields"
  | EnumData "(string \<times> 't fields) list"
  | UnionData

datatype generic_param = LifetimeParam | TypeParam | ConstParam

datatype meta = NameValue "string option" "string option" | OtherMeta

datatype attribute = Attribute (outer_attribute: bool) (attribute_meta: meta)

datatype 't decl = Decl (decl_ident: string) (decl_params: "generic_param list") (decl_attrs: "attribute list") (decl_data: "'t decl_data")

section \<open>The macro\<close>

text \<open>
  Generated statements. \<open>Update\<close> feeds the id of a type to the hasher. \<open>HelperCounterAlone\<close> is a
  call of \<open>helper_counter\<close> with a number only, which does not type-check: the function takes
  the hasher too.
\<close>

datatype 't stmt =
    HelperU8 u8
  | HelperCounter nat
  | HelperCounterAlone nat
  | HelperString string
  | HelperTypeConstructor string
  | HelperTypeArgsCount u8
  | Update 't

fun skip_field :: "'t field \<Rightarrow> bool" where
  "skip_field (Field _ seg _) = (case seg of None \<Rightarrow> False | Some n \<Rightarrow> n = ''PhantomData'')"

fun impl_fields :: "'t fields \<Rightarrow> 't stmt list" where
  "impl_fields (NamedFields fs) =
     (let fs = sort_key field_ident (filter (\<lambda>f. \<not> skip_field f) fs) in
      [HelperU8 0, HelperCounter (length fs)] @ concat (map (\<lambda>f. [HelperString (field_ident f), Update (field_type f)]) fs))"
| "impl_fields (UnnamedFields fs) =
     (let fs = filter (\<lambda>f. \<not> skip_field f) fs in
      [HelperU8 1, HelperCounter (length fs)] @ map (\<lambda>f. Update (field_type f)) fs)"
| "impl_fields UnitFields = [HelperU8 0, HelperCounter 0]"

fun get_tag :: "meta \<Rightarrow> string option" where
  "get_tag (NameValue seg v) = (case seg of None \<Rightarrow> None | Some n \<Rightarrow> if n = ''tag'' then v else None)"
| "get_tag OtherMeta = None"

fun find_tag :: "attribute list \<Rightarrow> string option" where
  "find_tag [] = None"
| "find_tag (a # as) =
     (case (if outer_attribute a then get_tag (attribute_meta a) else None) of Some s \<Rightarrow> Some s | None \<Rightarrow> find_tag as)"

definition impl_tag :: "attribute list \<Rightarrow> 't stmt list" where
  "impl_tag attrs = (case find_tag attrs of None \<Rightarrow> [] | Some s \<Rightarrow> [HelperString s])"

definition is_type_arg :: "generic_param \<Rightarrow> bool" where
  "is_type_arg a = (a = TypeParam)"

fun impl_body :: "'t decl_data \<Rightarrow> 't stmt list option" where
  "impl_body (StructData fs) = Some (HelperU8 0 # impl_fields fs)"
| "impl_body (EnumData vs) =
     Some ([HelperU8 1, HelperCounterAlone (length vs)] @
           concat (map (\<lambda>(n, fs). HelperString n # impl_fields fs) vs))"
| "impl_body UnionData = None"

text \<open>The body of the derived \<open>type_ident\<close>; \<open>None\<close> when the macro panics.\<close>

definition impl_typeable :: "'t decl \<Rightarrow> 't stmt list option" where
  "impl_typeable d =
     (let n = length (filter is_type_arg (decl_params d)) in
      if n < 256 then
        map_option (\<lambda>body. [HelperTypeConstructor (decl_ident d), HelperTypeArgsCount (of_nat n)] @ impl_tag (decl_attrs d) @ body)
          (impl_body (decl_data d))
      else None)"

section \<open>Ids\<close>

text \<open>
  \<open>PhantomData\<close> has no id of its own. A type that contains itself would ask for its own id without
  end; it is not a \<open>rust_type\<close>.

  Running the generated statements with the ids of the types of the fields, and what type-checks:
  \<open>None\<close> is a type that has no id.
\<close>

fun run_stmt :: "hasher \<Rightarrow> bytes res option stmt \<Rightarrow> hasher res option" where
  "run_stmt h (HelperU8 n) = Some (Ret (helper_u8 h n))"
| "run_stmt h (HelperCounter n) = Some (helper_counter h n)"
| "run_stmt h (HelperCounterAlone n) = None"
| "run_stmt h (HelperString s) = Some (helper_string h s)"
| "run_stmt h (HelperTypeConstructor s) = Some (helper_type_constructor h s)"
| "run_stmt h (HelperTypeArgsCount n) = Some (Ret (helper_type_args_count h n))"
| "run_stmt h (Update i) = map_option (helper_type_ident h) i"

fun type_checks :: "bytes res option stmt \<Rightarrow> bool" where
  "type_checks (HelperCounterAlone n) = False"
| "type_checks (Update i) = (i \<noteq> None)"
| "type_checks _ = True"

definition derived_ident :: "(bytes \<Rightarrow> bytes) \<Rightarrow> bytes res option decl \<Rightarrow> bytes res option" where
  "derived_ident sha256 d =
     (case impl_typeable d of
        None \<Rightarrow> None
      | Some stmts \<Rightarrow>
          if list_all type_checks stmts then bindL (foldL run_stmt [] stmts) (\<lambda>h. Some (Ret (sha256 h))) else None)"

datatype rust_type =
    Primitive string
  | ArrayOf u64 rust_type
  | VecOf rust_type
  | OptionOf rust_type
  | OrdMapOf rust_type rust_type
  | OrdSetOf rust_type
  | Derived "rust_type decl"
  | PhantomOf rust_type

primrec type_ident :: "(bytes \<Rightarrow> bytes) \<Rightarrow> rust_type \<Rightarrow> bytes res option" where
  "type_ident sha256 (Primitive n) = Some (primitive_ident sha256 n)"
| "type_ident sha256 (ArrayOf n t) = map_option (array_ident sha256 n) (type_ident sha256 t)"
| "type_ident sha256 (VecOf t) = map_option (\<lambda>i. constructor_ident sha256 ''Vec'' [i]) (type_ident sha256 t)"
| "type_ident sha256 (OptionOf t) = map_option (\<lambda>i. constructor_ident sha256 ''Option'' [i]) (type_ident sha256 t)"
| "type_ident sha256 (OrdMapOf k v) =
     (case (type_ident sha256 k, type_ident sha256 v) of
        (Some i, Some j) \<Rightarrow> Some (constructor_ident sha256 ''im__OrdMap'' [i, j]) | _ \<Rightarrow> None)"
| "type_ident sha256 (OrdSetOf t) = map_option (\<lambda>i. constructor_ident sha256 ''im__OrdSet'' [i]) (type_ident sha256 t)"
| "type_ident sha256 (Derived d) = derived_ident sha256 (map_decl (type_ident sha256) d)"
| "type_ident sha256 (PhantomOf t) = None"

section \<open>What an id stands for\<close>

text \<open>
  The content of the encoding: the name of a type, the number of its type parameters, its tag,
  whether its fields are named, and the fields that are not phantom, in the order of their names.
\<close>

datatype shape =
    PrimitiveShape string
  | ArrayShape u64 shape
  | ConstructorShape string "shape list"
  | StructShape string nat "string option" bool "(string \<times> shape) list"
  | NoShape

fun fields_shape :: "'t fields \<Rightarrow> bool \<times> (string \<times> 't) list" where
  "fields_shape (NamedFields fs) =
     (True, map (\<lambda>f. (field_ident f, field_type f)) (sort_key field_ident (filter (\<lambda>f. \<not> skip_field f) fs)))"
| "fields_shape (UnnamedFields fs) = (False, map (\<lambda>f. ([], field_type f)) (filter (\<lambda>f. \<not> skip_field f) fs))"
| "fields_shape UnitFields = (True, [])"

fun decl_shape :: "shape decl \<Rightarrow> shape" where
  "decl_shape (Decl n ps as (StructData fs)) =
     StructShape n (length (filter is_type_arg ps)) (find_tag as) (fst (fields_shape fs)) (snd (fields_shape fs))"
| "decl_shape (Decl n ps as _) = NoShape"

primrec shape_of :: "rust_type \<Rightarrow> shape" where
  "shape_of (Primitive n) = PrimitiveShape n"
| "shape_of (ArrayOf n t) = ArrayShape n (shape_of t)"
| "shape_of (VecOf t) = ConstructorShape ''Vec'' [shape_of t]"
| "shape_of (OptionOf t) = ConstructorShape ''Option'' [shape_of t]"
| "shape_of (OrdMapOf k v) = ConstructorShape ''im__OrdMap'' [shape_of k, shape_of v]"
| "shape_of (OrdSetOf t) = ConstructorShape ''im__OrdSet'' [shape_of t]"
| "shape_of (Derived d) = decl_shape (map_decl shape_of d)"
| "shape_of (PhantomOf t) = NoShape"

definition enc_string :: "string \<Rightarrow> bytes" where
  "enc_string s = of_nat (length s) # bytes_of s"

primrec enc :: "(bytes \<Rightarrow> bytes) \<Rightarrow> shape \<Rightarrow> bytes" where
  "enc H (PrimitiveShape n) = enc_string n"
| "enc H (ArrayShape n a) = enc_string ''[]'' @ [1] @ to_be_bytes n @ H (enc H a)"
| "enc H (ConstructorShape n as) = enc_string n @ [of_nat (length as)] @ concat (map (\<lambda>e. H e) (map (enc H) as))"
| "enc H (StructShape n k tag named fs) =
     enc_string n @ [of_nat k] @ (case tag of None \<Rightarrow> [] | Some s \<Rightarrow> enc_string s) @
     [0, if named then 0 else 1, of_nat (length fs)] @
     concat (map (\<lambda>(m, e). (if named then enc_string m else []) @ H e) (map (map_prod id (enc H)) fs))"
| "enc H NoShape = []"

text \<open>Strings and counters that the helpers take without a panic.\<close>

definition fits :: "string \<Rightarrow> bool" where
  "fits s \<longleftrightarrow> list_all is_valid_char s \<and> length s < 256"

primrec valid_shape :: "shape \<Rightarrow> bool" where
  "valid_shape (PrimitiveShape n) = fits n"
| "valid_shape (ArrayShape n a) = valid_shape a"
| "valid_shape (ConstructorShape n as) = (n \<in> {''Vec'', ''Option'', ''im__OrdMap'', ''im__OrdSet''} \<and> length as < 256 \<and> list_all id (map valid_shape as))"
| "valid_shape (StructShape n k tag named fs) =
     (fits n \<and> k < 256 \<and> (\<forall>s \<in> set_option tag. fits s) \<and> length fs < 256 \<and>
      list_all (\<lambda>(m, v). (if named then fits m else m = []) \<and> v) (map (map_prod id valid_shape) fs))"
| "valid_shape NoShape = False"

text \<open>
  Declarations whose encoding no other kind of type has: not named like a type of the library,
  and not tagged with the empty string.
\<close>

primrec regular :: "shape \<Rightarrow> bool" where
  "regular (PrimitiveShape n) = True"
| "regular (ArrayShape n a) = regular a"
| "regular (ConstructorShape n as) = list_all id (map regular as)"
| "regular (StructShape n k tag named fs) =
     (n \<notin> {''Vec'', ''Option'', ''im__OrdMap'', ''im__OrdSet''} \<and> tag \<noteq> Some [] \<and> list_all snd (map (map_prod id regular) fs))"
| "regular NoShape = True"

primrec parts :: "shape \<Rightarrow> shape set" where
  "parts (PrimitiveShape n) = {PrimitiveShape n}"
| "parts (ArrayShape n a) = insert (ArrayShape n a) (parts a)"
| "parts (ConstructorShape n as) = insert (ConstructorShape n as) (\<Union> (set (map parts as)))"
| "parts (StructShape n k tag named fs) = insert (StructShape n k tag named fs) (\<Union> (snd ` set (map (map_prod id parts) fs)))"
| "parts NoShape = {NoShape}"

lemma parts_self: "a \<in> parts a"
  by (cases a) auto

section \<open>The encoding is unambiguous\<close>

lemma byte_inj: "m < 256 \<Longrightarrow> n < 256 \<Longrightarrow> (of_nat m :: u8) = of_nat n \<longleftrightarrow> m = n"
  by (simp add: word_unat_eq_iff unsigned_of_nat take_bit_eq_mod)

lemma bytes_of_inj: "bytes_of s = bytes_of t \<longleftrightarrow> s = t"
proof -
  have "(of_char c :: nat) < 256" for c :: char by (cases c) (simp add: of_char_def)
  then have "inj (\<lambda>c. of_nat (of_char c) :: u8)" by (auto simp: inj_def byte_inj)
  then show ?thesis by (simp add: bytes_of_def)
qed

lemma enc_string_prefix:
  assumes "length s < 256" and "length t < 256"
  shows "enc_string s @ x = enc_string t @ y \<longleftrightarrow> s = t \<and> x = y"
proof -
  have "length (bytes_of s) = length s" "length (bytes_of t) = length t" by (simp_all add: bytes_of_def)
  then have "enc_string s @ x = enc_string t @ y \<longleftrightarrow> length s = length t \<and> bytes_of s = bytes_of t \<and> x = y"
    using assms by (auto simp: enc_string_def byte_inj)
  then show ?thesis by (auto simp: bytes_of_inj)
qed

definition enc_items :: "bool \<Rightarrow> (string \<times> bytes) list \<Rightarrow> bytes" where
  "enc_items named fs = concat (map (\<lambda>(m, e). (if named then enc_string m else []) @ e) fs)"

lemma enc_items_inj:
  assumes "length fs = length gs" and "enc_items named fs = enc_items named gs"
    and "\<forall>(m, e) \<in> set fs. (if named then length m < 256 else m = []) \<and> length e = 32"
    and "\<forall>(m, e) \<in> set gs. (if named then length m < 256 else m = []) \<and> length e = 32"
  shows "fs = gs"
  using assms
proof (induction fs gs rule: list_induct2)
  case (Cons f fs g gs)
  obtain m e m' e' where fg: "f = (m, e)" "g = (m', e')" by (cases f, cases g) auto
  have e: "length e = length e'" using Cons.prems by (simp add: fg)
  have split: "(if named then enc_string m else []) @ e @ enc_items named fs = (if named then enc_string m' else []) @ e' @ enc_items named gs"
    using Cons.prems(1) by (simp add: fg enc_items_def)
  have m: "m = m'" and "e @ enc_items named fs = e' @ enc_items named gs"
    using split Cons.prems(2,3) by (simp_all add: fg enc_string_prefix split: if_splits)
  then have "e = e'" "enc_items named fs = enc_items named gs" using e by simp_all
  with Cons.IH Cons.prems(2,3) m show ?case by (simp add: fg)
qed simp

lemma map_eq_elim:
  "map f xs = map g ys \<Longrightarrow> (\<And>x y. x \<in> set xs \<Longrightarrow> y \<in> set ys \<Longrightarrow> f x = g y \<Longrightarrow> x = y) \<Longrightarrow> xs = ys"
  by (induction xs arbitrary: ys) (auto simp: Cons_eq_map_conv)

lemma enc_StructShape:
  "enc H (StructShape n k tag named fs) =
     enc_string n @ [of_nat k] @ (case tag of None \<Rightarrow> [] | Some s \<Rightarrow> enc_string s) @
     [0, if named then 0 else 1, of_nat (length fs)] @ enc_items named (map (\<lambda>(m, a). (m, H (enc H a))) fs)"
  by (cases named) (simp_all add: enc_items_def comp_def case_prod_unfold)

lemma enc_ConstructorShape:
  "enc H (ConstructorShape n as) = enc_string n @ [of_nat (length as)] @ enc_items False (map (\<lambda>a. ([], H (enc H a))) as)"
  by (simp add: enc_items_def comp_def)

declare enc.simps(3,4) [simp del]

text \<open>The bytes after the name and the number of parameters of a struct, with its tag or without.\<close>

lemma tag_prefix:
  assumes "tag \<noteq> Some []" "tag' \<noteq> Some []" "\<forall>s \<in> set_option tag. length s < 256" "\<forall>s \<in> set_option tag'. length s < 256"
    and "(case tag of None \<Rightarrow> [] | Some s \<Rightarrow> enc_string s) @ 0 # x = (case tag' of None \<Rightarrow> [] | Some s \<Rightarrow> enc_string s) @ 0 # y"
  shows "tag = tag' \<and> x = y"
proof -
  have no: "0 # z \<noteq> enc_string s @ z'" if "s \<noteq> []" "length s < 256" for s z z'
    using that byte_inj [of 0 "length s"] by (auto simp: enc_string_def)
  show ?thesis
  proof (cases tag; cases tag')
    fix a assume "tag = None" "tag' = Some a"
    with assms no [of a x "0 # y"] show ?thesis by auto
  next
    fix a assume "tag = Some a" "tag' = None"
    with assms no [of a y "0 # x"] show ?thesis by auto
  qed (use assms in \<open>auto simp: enc_string_prefix\<close>)
qed

definition distinguished :: "(bytes \<Rightarrow> bytes) \<Rightarrow> shape \<Rightarrow> shape \<Rightarrow> bool" where
  "distinguished H a b \<longleftrightarrow> valid_shape a \<and> valid_shape b \<and> regular a \<and> regular b \<and> inj_on H (enc H ` (parts a \<union> parts b))"

lemma distinguished_part:
  assumes "distinguished H a b" and "parts x \<subseteq> parts a" "parts y \<subseteq> parts b"
    and "valid_shape x" "valid_shape y" "regular x" "regular y"
  shows "distinguished H x y"
  using assms unfolding distinguished_def by (blast intro: inj_on_subset)

lemma distinguished_enc: "distinguished H x y \<Longrightarrow> H (enc H x) = H (enc H y) \<Longrightarrow> enc H x = enc H y"
  unfolding distinguished_def by (metis Un_iff imageI inj_onD parts_self)

fun head :: "shape \<Rightarrow> string" where
  "head (PrimitiveShape n) = n"
| "head (ArrayShape n a) = ''[]''"
| "head (ConstructorShape n as) = n"
| "head (StructShape n k tag named fs) = n"
| "head NoShape = []"

fun tail :: "(bytes \<Rightarrow> bytes) \<Rightarrow> shape \<Rightarrow> bytes" where
  "tail H (ArrayShape n a) = [1] @ to_be_bytes n @ H (enc H a)"
| "tail H (ConstructorShape n as) = [of_nat (length as)] @ enc_items False (map (\<lambda>a. ([], H (enc H a))) as)"
| "tail H (StructShape n k tag named fs) =
     [of_nat k] @ (case tag of None \<Rightarrow> [] | Some s \<Rightarrow> enc_string s) @
     [0, if named then 0 else 1, of_nat (length fs)] @ enc_items named (map (\<lambda>(m, a). (m, H (enc H a))) fs)"
| "tail H _ = []"

lemma enc_head_tail:
  assumes "valid_shape a" and "valid_shape b" and "enc H a = enc H b"
  shows "head a = head b \<and> tail H a = tail H b"
proof -
  have "enc H a = enc_string (head a) @ tail H a \<and> length (head a) < 256" if "valid_shape a" for a
    using that by (cases a) (auto simp: enc_StructShape enc_ConstructorShape fits_def simp del: enc_string_def)
  note this [OF assms(1)] this [OF assms(2)]
  with assms(3) show ?thesis using enc_string_prefix [of "head a" "head b" "tail H a" "tail H b"] by metis
qed

lemma not_brackets: "fits n \<Longrightarrow> n \<noteq> ''[]''"
  by (auto simp: fits_def is_valid_char_def)

text \<open>What equal encodings of two structs say before their fields are compared\<close>

lemma enc_struct_inj:
  assumes H: "\<And>x. length (H x) = 32"
    and v: "valid_shape (StructShape n k tag named fs)" "valid_shape (StructShape n k' tag' named' gs)"
    and r: "regular (StructShape n k tag named fs)" "regular (StructShape n k' tag' named' gs)"
    and enc: "enc H (StructShape n k tag named fs) = enc H (StructShape n k' tag' named' gs)"
  shows "k = k' \<and> tag = tag' \<and> named = named' \<and>
    map (\<lambda>(m, a). (m, H (enc H a))) fs = map (\<lambda>(m, a). (m, H (enc H a))) gs"
proof -
  note ht = enc_head_tail [OF v enc]
  have k: "k = k'" and t: "(case tag of None \<Rightarrow> [] | Some s \<Rightarrow> enc_string s) @ 0 # (if named then 0 else 1) # of_nat (length fs) # enc_items named (map (\<lambda>(m, a). (m, H (enc H a))) fs)
      = (case tag' of None \<Rightarrow> [] | Some s \<Rightarrow> enc_string s) @ 0 # (if named' then 0 else 1) # of_nat (length gs) # enc_items named' (map (\<lambda>(m, a). (m, H (enc H a))) gs)"
    using ht v by (simp_all add: byte_inj)
  have "tag = tag' \<and> (if named then 0 else 1 :: u8) # of_nat (length fs) # enc_items named (map (\<lambda>(m, a). (m, H (enc H a))) fs)
      = (if named' then 0 else 1) # of_nat (length gs) # enc_items named' (map (\<lambda>(m, a). (m, H (enc H a))) gs)"
    by (rule tag_prefix [OF _ _ _ _ t]) (use v r in \<open>auto simp: fits_def\<close>)
  then have eqs: "tag = tag'" "named = named'" "length fs = length gs" and
    items: "enc_items named (map (\<lambda>(m, a). (m, H (enc H a))) fs) = enc_items named (map (\<lambda>(m, a). (m, H (enc H a))) gs)"
    using v by (auto simp: byte_inj split: if_splits)
  have fields: "list_all (\<lambda>(m, v). (if named then fits m else m = []) \<and> v) (map (map_prod id valid_shape) hs) \<Longrightarrow>
      \<forall>(m, e) \<in> set (map (\<lambda>(m, a). (m, H (enc H a))) hs). (if named then length m < 256 else m = []) \<and> length e = 32" for hs
    using H by (auto simp: list_all_iff fits_def split: if_splits)
  have "map (\<lambda>(m, a). (m, H (enc H a))) fs = map (\<lambda>(m, a). (m, H (enc H a))) gs"
    by (rule enc_items_inj [OF _ items fields fields]) (use v eqs in simp_all)
  with k eqs show ?thesis by blast
qed

lemma enc_arguments_inj:
  assumes H: "\<And>x. length (H x) = 32"
    and d: "distinguished H (ConstructorShape n as) b" and e: "enc H (ConstructorShape n as) = enc H b"
    and IH: "\<And>x y. x \<in> set as \<Longrightarrow> distinguished H x y \<Longrightarrow> enc H x = enc H y \<Longrightarrow> x = y"
  shows "ConstructorShape n as = b"
proof -
  have v: "valid_shape (ConstructorShape n as)" "valid_shape b" "regular b" using d by (simp_all add: distinguished_def)
  note ht = enc_head_tail [OF v(1,2) e]
  then obtain bs where b: "b = ConstructorShape n bs" using v by (cases b) auto
  have len: "length as = length bs" and
    items: "enc_items False (map (\<lambda>a. ([], H (enc H a))) as) = enc_items False (map (\<lambda>a. ([], H (enc H a))) bs)"
    using ht v by (simp_all add: b byte_inj)
  have "map (\<lambda>a. ([] :: string, H (enc H a))) as = map (\<lambda>a. ([], H (enc H a))) bs"
    by (rule enc_items_inj [OF _ items]) (use len H in auto)
  then have "map snd (map (\<lambda>a. ([] :: string, H (enc H a))) as) = map snd (map (\<lambda>a. ([], H (enc H a))) bs)" by simp
  then have "map (\<lambda>a. H (enc H a)) as = map (\<lambda>a. H (enc H a)) bs" by (simp add: comp_def)
  then have "as = bs"
  proof (rule map_eq_elim)
    fix x y assume xy: "x \<in> set as" "y \<in> set bs" "H (enc H x) = H (enc H y)"
    have "distinguished H x y"
      using d by (rule distinguished_part) (use d xy in \<open>auto simp: b distinguished_def list_all_iff\<close>)
    with IH [OF xy(1) _ distinguished_enc] xy(3) show "x = y" by blast
  qed
  then show ?thesis by (simp add: b)
qed

lemma enc_fields_inj:
  assumes H: "\<And>x. length (H x) = 32"
    and d: "distinguished H (StructShape n k tag named fs) b" and e: "enc H (StructShape n k tag named fs) = enc H b"
    and IH: "\<And>m x y. (m, x) \<in> set fs \<Longrightarrow> distinguished H x y \<Longrightarrow> enc H x = enc H y \<Longrightarrow> x = y"
  shows "StructShape n k tag named fs = b"
proof -
  have v: "valid_shape (StructShape n k tag named fs)" "valid_shape b" "regular b" "regular (StructShape n k tag named fs)"
    using d by (simp_all add: distinguished_def)
  note ht = enc_head_tail [OF v(1,2) e]
  then obtain k' tag' named' gs where b: "b = StructShape n k' tag' named' gs"
    using v not_brackets [of n] by (cases b) auto
  note eqs = enc_struct_inj [OF H v(1,2,4,3) [unfolded b] e [unfolded b]]
  from eqs have "map (\<lambda>(m, a). (m, H (enc H a))) fs = map (\<lambda>(m, a). (m, H (enc H a))) gs" by blast
  then have "fs = gs"
  proof (rule map_eq_elim)
    fix p q assume pq: "p \<in> set fs" "q \<in> set gs" "(case p of (m, a) \<Rightarrow> (m, H (enc H a))) = (case q of (m, a) \<Rightarrow> (m, H (enc H a)))"
    obtain m x y where p: "p = (m, x)" "q = (m, y)" "H (enc H x) = H (enc H y)" using pq(3) by (cases p, cases q) auto
    have "distinguished H x y"
      using d
    proof (rule distinguished_part)
      show "parts x \<subseteq> parts (StructShape n k tag named fs)" using pq(1) by (force simp: p)
      show "parts y \<subseteq> parts b" using pq(2) by (force simp: p b)
    qed (use v pq in \<open>auto simp: b p list_all_iff split: prod.splits\<close>)
    with IH [of m x y] pq(1) distinguished_enc [OF _ p(3)] show "p = q" by (simp add: p)
  qed
  with eqs show ?thesis by (simp add: b)
qed

lemma enc_inj:
  assumes H: "\<And>x. length (H x) = 32"
  shows "distinguished H a b \<Longrightarrow> enc H a = enc H b \<Longrightarrow> a = b"
proof (induction a arbitrary: b)
  case (PrimitiveShape n)
  note ht = enc_head_tail [of "PrimitiveShape n" b H]
  from PrimitiveShape ht show ?case by (cases b) (auto simp: distinguished_def)
next
  case (ArrayShape n a)
  have v: "valid_shape (ArrayShape n a)" "valid_shape b" using ArrayShape.prems by (simp_all add: distinguished_def)
  note ht = enc_head_tail [OF v ArrayShape.prems(2)]
  then obtain m c where b: "b = ArrayShape m c"
    using v not_brackets [of "head b"] by (cases b) auto
  have "to_be_bytes n @ H (enc H a) = to_be_bytes m @ H (enc H c)" using ht by (simp add: b)
  then have "n = m" and same: "H (enc H a) = H (enc H c)" by (simp_all add: to_be_bytes_inj [symmetric] to_be_bytes_def)
  have "distinguished H a c"
    using ArrayShape.prems(1) by (rule distinguished_part) (use ArrayShape.prems(1) in \<open>auto simp: b distinguished_def\<close>)
  with ArrayShape.IH [OF _ distinguished_enc] same have "a = c" by blast
  then show ?case by (simp add: b \<open>n = m\<close>)
next
  case (ConstructorShape n as)
  then show ?case by (intro enc_arguments_inj [OF H])
next
  case (StructShape n k tag named fs)
  show ?case
    by (rule enc_fields_inj [OF H StructShape.prems]) (use StructShape.IH in \<open>force simp: snds.simps\<close>)
next
  case NoShape
  then show ?case by (simp add: distinguished_def)
qed

section \<open>An id is the digest of the shape\<close>

lemma field_map [simp]:
  "field_ident (map_field f x) = field_ident x" "skip_field (map_field f x) = skip_field x"
  "field_type (map_field f x) = f (field_type x)"
  by (cases x; simp)+

lemma sort_fields: "sort_key field_ident (map (map_field f) fs) = map (map_field f) (sort_key field_ident fs)"
proof -
  have "insort_key field_ident (map_field f x) (map (map_field f) ys) = map (map_field f) (insort_key field_ident x ys)" for x ys
    by (induction ys) auto
  then show ?thesis by (induction fs) auto
qed

lemma fields_shape_map: "fields_shape (map_fields f fs) = map_prod id (map (map_prod id f)) (fields_shape fs)"
  by (cases fs) (simp_all add: sort_fields filter_map comp_def)

lemma impl_fields_shape:
  "impl_fields fs =
     [HelperU8 (if fst (fields_shape fs) then 0 else 1), HelperCounter (length (snd (fields_shape fs)))] @
     concat (map (\<lambda>(m, t). (if fst (fields_shape fs) then [HelperString m] else []) @ [Update t]) (snd (fields_shape fs)))"
proof (cases fs)
  case (UnnamedFields gs)
  have "map (\<lambda>f. Update (field_type f)) hs = concat (map (\<lambda>f. [Update (field_type f)]) hs)" for hs :: "'a field list"
    by (induction hs) auto
  then show ?thesis by (simp add: UnnamedFields comp_def Let_def)
qed (simp_all add: Let_def comp_def)

lemma unnamed_fields: "\<not> fst (fields_shape fs) \<Longrightarrow> \<forall>p \<in> set (snd (fields_shape fs)). fst p = []"
  by (cases fs) auto

lemma bindL_assoc: "bindL (bindL m g) k = bindL m (\<lambda>x. bindL (g x) k)"
  by (cases m) (auto simp: bindL_def split: res.splits)

lemma foldL_append: "foldL f s (xs @ ys) = bindL (foldL f s xs) (\<lambda>s. foldL f s ys)"
  by (induction xs arbitrary: s) (simp_all add: bindL_assoc)

lemma helper_string_Ret: "helper_string h s = Ret h' \<longleftrightarrow> fits s \<and> h' = h @ enc_string s"
  by (auto simp: helper_string_def helper_string_non_ascii_def helper_counter_def fits_def enc_string_def bytes_of_def)

lemma run_items:
  assumes "foldL run_stmt h (concat (map (\<lambda>(m, t). (if named then [HelperString m] else []) @ [Update t]) (map (map_prod id f) items))) = Some (Ret h')"
    and "\<forall>p \<in> set items. \<forall>i. f (snd p) = Some (Ret i) \<longrightarrow> i = H (enc H (g (snd p))) \<and> valid_shape (g (snd p))"
    and "\<not> named \<Longrightarrow> \<forall>p \<in> set items. fst p = []"
  shows "h' = h @ enc_items named (map (\<lambda>(m, a). (m, H (enc H a))) (map (map_prod id g) items)) \<and>
    list_all (\<lambda>(m, v). (if named then fits m else m = []) \<and> v) (map (map_prod id valid_shape) (map (map_prod id g) items))"
  using assms
proof (induction items arbitrary: h)
  case Nil
  then show ?case by (simp add: enc_items_def)
next
  case (Cons p items)
  obtain m x where p: "p = (m, x)" by force
  obtain i h1 where i: "f x = Some (Ret i)" and h1: "h1 = (if named then h @ enc_string m else h) @ i" "named \<longrightarrow> fits m"
    "foldL run_stmt h1 (concat (map (\<lambda>(m, t). (if named then [HelperString m] else []) @ [Update t]) (map (map_prod id f) items))) = Some (Ret h')"
  proof -
    let ?rest = "concat (map (\<lambda>(m, t). (if named then [HelperString m] else []) @ [Update t]) (map (map_prod id f) items))"
    let ?h = "if named then h @ enc_string m else h"
    have "bindL (run_stmt ?h (Update (f x))) (\<lambda>h. foldL run_stmt h ?rest) = Some (Ret h') \<and> (named \<longrightarrow> fits m)"
      using Cons.prems(1) by (cases named) (auto simp: p helper_string_Ret id_def simp del: run_stmt.simps(7))
    moreover from this obtain r where r: "f x = Some r" by (cases "f x") auto
    ultimately obtain i where "r = Ret i" "foldL run_stmt (?h @ i) ?rest = Some (Ret h')" "named \<longrightarrow> fits m"
      by (cases r) (auto simp: helper_type_ident_def)
    with r show thesis by (intro that [of i "?h @ i"]) simp_all
  qed
  have "i = H (enc H (g x)) \<and> valid_shape (g x)" using Cons.prems(2) i by (simp add: p)
  with Cons.IH [OF h1(3)] Cons.prems(2,3) h1(1,2) show ?case by (auto simp: p enc_items_def)
qed

lemma derived_ident_shape:
  assumes run: "derived_ident H (map_decl f d) = Some (Ret i)"
    and parts: "\<forall>x \<in> set_decl d. \<forall>i. f x = Some (Ret i) \<longrightarrow> i = H (enc H (g x)) \<and> valid_shape (g x)"
  shows "i = H (enc H (decl_shape (map_decl g d))) \<and> valid_shape (decl_shape (map_decl g d))"
proof -
  obtain n ps as data where d: "d = Decl n ps as data" by (cases d)
  show ?thesis
  proof (cases data)
    case (StructData fs)
    let ?named = "fst (fields_shape fs)" and ?items = "snd (fields_shape fs)" and ?k = "length (filter is_type_arg ps)"
    have few: "?k < 256" using run by (auto simp: d derived_ident_def impl_typeable_def Let_def split: if_splits)
    have sub: "\<forall>p \<in> set ?items. snd p \<in> set_decl d"
      using field.set_sel by (cases fs) (fastforce simp: d StructData)+
    obtain h where h: "foldL run_stmt [] ([HelperTypeConstructor n, HelperTypeArgsCount (of_nat ?k)] @ impl_tag as @
          HelperU8 0 # impl_fields (map_fields f fs)) = Some (Ret h)" "i = H h"
      using run few by (auto simp: d StructData derived_ident_def impl_typeable_def Let_def simp del: foldL.simps split: if_splits)
    obtain h1 where name: "fits n" and h1: "foldL run_stmt ((enc_string n) @ [of_nat ?k]) (impl_tag as) = Some (Ret h1)"
      and body: "foldL run_stmt (h1 @ [0]) (impl_fields (map_fields f fs)) = Some (Ret h)"
      using h(1) by (auto simp: foldL_append helper_type_constructor_def helper_string_Ret helper_type_args_count_def helper_u8_def)
    have tag: "h1 = enc_string n @ [of_nat ?k] @ (case find_tag as of None \<Rightarrow> [] | Some s \<Rightarrow> enc_string s) \<and>
        (\<forall>s \<in> set_option (find_tag as). fits s)"
      using h1 by (auto simp: impl_tag_def helper_string_Ret split: option.splits)
    have count: "length ?items < 256" and
      items: "foldL run_stmt (h1 @ [0, if ?named then 0 else 1, of_nat (length ?items)])
        (concat (map (\<lambda>(m, t). (if ?named then [HelperString m] else []) @ [Update t]) (map (map_prod id f) ?items))) = Some (Ret h)"
      using body unfolding impl_fields_shape fields_shape_map
      by (auto simp: foldL_append helper_counter_def helper_u8_def split: if_splits)
    from run_items [OF items _ unnamed_fields] parts sub have
      "h = (h1 @ [0, if ?named then 0 else 1, of_nat (length ?items)]) @
         enc_items ?named (map (\<lambda>(m, a). (m, H (enc H a))) (map (map_prod id g) ?items))"
      "list_all (\<lambda>(m, v). (if ?named then fits m else m = []) \<and> v) (map (map_prod id valid_shape) (map (map_prod id g) ?items))"
      by blast+
    then show ?thesis
      using tag name few count by (simp add: h(2) d StructData fields_shape_map enc_StructShape)
  qed (use run in \<open>auto simp: d derived_ident_def impl_typeable_def Let_def split: if_splits\<close>)
qed

lemma type_ident_shape: "type_ident H t = Some (Ret i) \<Longrightarrow> i = H (enc H (shape_of t)) \<and> valid_shape (shape_of t)"
proof (induction t arbitrary: i)
  case (Primitive n)
  then show ?case by (auto simp: primitive_ident_def helper_type_constructor_def helper_string_Ret)
next
  case (Derived d)
  show ?case
    unfolding shape_of.simps
  proof (rule derived_ident_shape)
    show "derived_ident H (map_decl (type_ident H) d) = Some (Ret i)" using Derived.prems by simp
  qed (use Derived.IH in blast)
next
  case (ArrayOf n t)
  then show ?case
    by (auto simp: array_ident_def helper_string_non_ascii_def helper_counter_def helper_usize_def helper_type_args_count_def
        helper_type_ident_def enc_string_def bytes_of_def)
qed (auto simp: constructor_ident_def helper_type_constructor_def helper_string_Ret helper_type_args_count_def
    helper_type_ident_def enc_ConstructorShape enc_items_def split: option.splits)

section \<open>Properties\<close>

text \<open>C15. A type id identifies a declaration. Two types have the same id exactly when their names,
  numbers of type parameters, tags and fields that are not phantom agree, in any order of the
  named fields and through all the types of their fields, provided the digest has no collision among
  the encodings involved and no declaration is named like a type of the library or tagged with
  the empty string.\<close>

theorem type_id_identifies:
  assumes "\<And>x. length (sha256 x) = 32"
    and "type_ident sha256 t = Some (Ret i)" and "type_ident sha256 u = Some (Ret j)"
    and "regular (shape_of t)" and "regular (shape_of u)"
    and "inj_on sha256 (enc sha256 ` (parts (shape_of t) \<union> parts (shape_of u)))"
  shows "i = j \<longleftrightarrow> shape_of t = shape_of u"
proof
  note i = type_ident_shape [OF assms(2)] and j = type_ident_shape [OF assms(3)]
  have d: "distinguished sha256 (shape_of t) (shape_of u)"
    using assms(4-6) i j by (simp add: distinguished_def)
  assume "i = j"
  with i j have "sha256 (enc sha256 (shape_of t)) = sha256 (enc sha256 (shape_of u))" by simp
  with enc_inj [OF assms(1) d] distinguished_enc [OF d] show "shape_of t = shape_of u" by blast
next
  assume "shape_of t = shape_of u"
  with type_ident_shape [OF assms(2)] type_ident_shape [OF assms(3)] show "i = j" by simp
qed

text \<open>The register of \<open>ossa-crdt\<close>, at two instances.\<close>

definition lww_type :: "rust_type \<Rightarrow> rust_type \<Rightarrow> rust_type" where
  "lww_type t a = Derived (Decl ''LWW'' [TypeParam, TypeParam] []
     (StructData (NamedFields [Field ''time'' (Some ''T'') t, Field ''value'' (Some ''A'') a])))"

definition demo_digest :: "bytes \<Rightarrow> bytes" where
  "demo_digest x = take 32 (rev x @ replicate 32 0)"

lemma shape_lww: "shape_of (lww_type t a) = StructShape ''LWW'' 2 None True [(''time'', shape_of t), (''value'', shape_of a)]"
  by (simp add: lww_type_def is_type_arg_def)

definition has_id :: "rust_type \<Rightarrow> bool" where
  "has_id t = (case type_ident demo_digest t of Some (Ret i) \<Rightarrow> True | _ \<Rightarrow> False)"

lemma ident_lww: "has_id (lww_type (Primitive ''u64'') (Primitive ''u8''))" "has_id (lww_type (Primitive ''u8'') (Primitive ''u64''))"
  by code_simp+

theorem type_id_identifies_witness:
  "type_ident demo_digest (lww_type (Primitive ''u64'') (Primitive ''u8'')) \<noteq>
   type_ident demo_digest (lww_type (Primitive ''u8'') (Primitive ''u64''))"
proof -
  let ?t = "lww_type (Primitive ''u64'') (Primitive ''u8'')" and ?u = "lww_type (Primitive ''u8'') (Primitive ''u64'')"
  obtain i j where ij: "type_ident demo_digest ?t = Some (Ret i)" "type_ident demo_digest ?u = Some (Ret j)"
    using ident_lww by (auto simp: has_id_def split: option.splits res.splits)
  have parts: "parts (shape_of ?t) \<union> parts (shape_of ?u) =
      {shape_of ?t, shape_of ?u, PrimitiveShape ''u64'', PrimitiveShape ''u8''}"
    by (auto simp: shape_lww)
  have "inj_on demo_digest (enc demo_digest ` (parts (shape_of ?t) \<union> parts (shape_of ?u)))"
  proof -
    have "\<forall>a \<in> set [shape_of ?t, shape_of ?u, PrimitiveShape ''u64'', PrimitiveShape ''u8''].
        \<forall>b \<in> set [shape_of ?t, shape_of ?u, PrimitiveShape ''u64'', PrimitiveShape ''u8''].
        demo_digest (enc demo_digest a) = demo_digest (enc demo_digest b) \<longrightarrow> enc demo_digest a = enc demo_digest b"
      by code_simp
    then show ?thesis unfolding parts inj_on_def by simp
  qed
  then have "i = j \<longleftrightarrow> shape_of ?t = shape_of ?u"
    by (intro type_id_identifies [of demo_digest, OF _ ij]) (simp_all add: demo_digest_def shape_lww)
  then show ?thesis by (simp add: ij shape_lww)
qed

text \<open>A type argument that only phantom fields use leaves no trace in the id: the instances of a
  generic struct at different arguments get one id, where the documentation asks for a mapping
  that is one to one on fully instantiated types.\<close>

theorem phantom_arguments_collide:
  "type_ident sha256 (Derived (Decl n ps as (StructData (NamedFields (fs @ [Field m (Some ''PhantomData'') (PhantomOf t)]))))) =
   type_ident sha256 (Derived (Decl n ps as (StructData (NamedFields (fs @ [Field m (Some ''PhantomData'') (PhantomOf u)])))))"
  by (simp add: derived_ident_def impl_typeable_def Let_def)

text \<open>No enum can derive an id: the generated code calls \<open>helper_counter\<close> without the hasher and
  does not type-check, whatever its variants, attributes and parameters.\<close>

theorem enums_have_no_id:
  "type_ident sha256 (Derived (Decl n ps as (EnumData vs))) = None"
  by (auto simp: derived_ident_def impl_typeable_def Let_def)

end
