(* ===== verification/Node.thy ===== *)
theory Node
  imports Manager EcgTime StoreProperties "HOL-Library.List_Lexorder"
begin

text \<open>
  A node: \<open>Ossa\<close> in \<open>ossa-core/src/core.rs\<close>. It owns the table of active stores, which the managers of
  its connections watch, and the table of connected peers, which its stores read. Every store
  runs in a task of its own, and so does every connection once its handshake is done.

  Channels are numbered in the order they are made. The tasks a node starts are collected: the
  stores it launched and the connections whose protocols it runs. The listener of the operating
  system and the streams of connections are arguments.
\<close>

record ('h, 'd, 'g, 'id, 'hd, 't) node =
  node_device :: 'd
  active_stores :: "'h store_statuses"
  notifications :: nat
  peer_channels :: "('d, chan) btree"
  next_chan :: chan
  launched :: "('h \<times> chan \<times> ('h, 'd, 'g, 'id, 'hd, 't) store) list"
  connections :: "(party \<times> 'd \<times> chan) list"

definition node_new :: "'d \<Rightarrow> ('h, 'd, 'g, 'id, 'hd, 't) node" where
  "node_new device_id =
     \<lparr>node_device = device_id, active_stores = [], notifications = 0, peer_channels = [], next_chan = 0,
      launched = [], connections = []\<rparr>"

section \<open>Listening\<close>

text \<open>\<open>free\<close> tells whether a port can be bound.\<close>

fun bind_from :: "(u16 \<Rightarrow> bool) \<Rightarrow> nat \<Rightarrow> u16 \<Rightarrow> u16 option res" where
  "bind_from free 0 port = Ret None"
| "bind_from free (Suc n) port =
     (if free port then Ret (Some port)
      else if unat port + 1 < 2 ^ 16 then bind_from free n (port + 1)
      else Panic ArithOverflow)"

definition bind_server_ipv4 :: "(u16 \<Rightarrow> bool) \<Rightarrow> u16 \<Rightarrow> u16 option res" where
  "bind_server_ipv4 free port = bind_from free 10 port"

lemma bind_from_finds:
  "bind_from free n port =
     (case find free (map of_nat [unat port ..< min (unat port + n) (2 ^ 16)]) of
        Some p \<Rightarrow> Ret (Some p)
      | None \<Rightarrow> if unat port + n < 2 ^ 16 then Ret None else Panic ArithOverflow)"
proof (induction n arbitrary: port)
  case 0
  show ?case using unsigned_less [of port, where ?'a = nat] by simp
next
  case (Suc n)
  have lt: "unat port < 2 ^ 16" using unsigned_less [of port, where ?'a = nat] by simp
  then have "unat port < min (unat port + Suc n) (2 ^ 16)" by simp
  from upt_conv_Cons [OF this] have split: "[unat port ..< min (unat port + Suc n) (2 ^ 16)] =
      unat port # [Suc (unat port) ..< min (Suc (unat port) + n) (2 ^ 16)]" by simp
  show ?case
  proof (cases "unat port + 1 < 2 ^ 16")
    case True
    then have "unat (port + 1) = Suc (unat port)" by (simp add: unat_word_ariths)
    with Suc.IH [of "port + 1"] True show ?thesis unfolding split by simp
  next
    case False
    with lt have "[Suc (unat port) ..< min (Suc (unat port) + n) (2 ^ 16)] = []" by simp
    with False show ?thesis unfolding split by simp
  qed
qed

text \<open>A node listens on the first free port of the ten from the configured one; when all are taken it does
  not start, and when the configured port is among the last ten of the range, the step past the last
  port overflows.\<close>

theorem bind_server_tries_ten:
  "bind_server_ipv4 free port =
     (case find free (map of_nat [unat port ..< min (unat port + 10) (2 ^ 16)]) of
        Some p \<Rightarrow> Ret (Some p)
      | None \<Rightarrow> if unat port + 10 < 2 ^ 16 then Ret None else Panic ArithOverflow)"
  unfolding bind_server_ipv4_def by (rule bind_from_finds)

section \<open>Peers\<close>

text \<open>\<open>initiate_peer\<close>; the table is locked while it runs.\<close>

definition initiate_peer ::
    "'d :: linorder \<Rightarrow> ('h, 'd, 'g, 'id, 'hd, 't) node \<Rightarrow> chan option \<times> ('h, 'd, 'g, 'id, 'hd, 't) node" where
  "initiate_peer peer_id n =
     (let c = next_chan n;
          (inserted, m) = bt_try_insert peer_id c (peer_channels n) in
      (if inserted then Some c else None, n\<lparr>peer_channels := m, next_chan := Suc c\<rparr>))"

text \<open>After a handshake, as server or as client. A connection that fails in its handshake ends there.\<close>

definition run_connection ::
    "party \<Rightarrow> ((handshake_error + 'd handshake_info) \<times> 'd stream) res \<Rightarrow> ('h, 'd :: linorder, 'g, 'id, 'hd, 't) node
     \<Rightarrow> ('h, 'd, 'g, 'id, 'hd, 't) node" where
  "run_connection party handshake_result n =
     (case handshake_result of
        Panic _ \<Rightarrow> n
      | Ret (Inl ConnectingToSelf, _) \<Rightarrow> n
      | Ret (Inr info, _) \<Rightarrow>
          (case initiate_peer (hs_peer_id info) n of
             (Some recv, n) \<Rightarrow> n\<lparr>connections := connections n @ [(party, hs_peer_id info, recv)]\<rparr>
           | (None, n) \<Rightarrow> n))"

text \<open>One turn of the accept loop of \<open>start\<close>, and \<open>connect_to_peer_ipv4\<close>; \<open>None\<close> when there is no stream.\<close>

definition accept_turn ::
    "('h, 'd :: linorder, 'g, 'id, 'hd, 't) node \<Rightarrow> 'd stream option \<Rightarrow> ('h, 'd, 'g, 'id, 'hd, 't) node" where
  "accept_turn n accepted =
     (case accepted of
        None \<Rightarrow> n
      | Some s \<Rightarrow> run_connection Server (run_handshake_server s (node_device n)) n)"

definition connect_to_peer_ipv4 ::
    "('h, 'd :: linorder, 'g, 'id, 'hd, 't) node \<Rightarrow> 'd stream option \<Rightarrow> ('h, 'd, 'g, 'id, 'hd, 't) node" where
  "connect_to_peer_ipv4 n connected =
     (case connected of
        None \<Rightarrow> n
      | Some s \<Rightarrow> run_connection Client (run_handshake_client s (node_device n)) n)"

section \<open>Stores\<close>

text \<open>
  \<open>launch_store\<close>: makes the two channels of the task, starts it, and registers the store with the channel
  of untyped commands; whoever watches the stores is notified. The handle is the other channel.
\<close>

definition launch_store ::
    "'h :: linorder \<Rightarrow> ('h, 'd, 'g, 'id, 'hd, 't) store \<Rightarrow> ('h, 'd, 'g, 'id, 'hd, 't) node
     \<Rightarrow> chan \<times> ('h, 'd, 'g, 'id, 'hd, 't) node" where
  "launch_store sid st n =
     (let send_commands = next_chan n; send_commands_untyped = Suc send_commands in
      (send_commands,
       n\<lparr>next_chan := Suc send_commands_untyped,
         launched := launched n @ [(sid, send_commands_untyped, st)],
         active_stores := bt_insert sid (StoreRunning send_commands_untyped) (active_stores n),
         notifications := Suc (notifications n)\<rparr>))"

text \<open>
  \<open>create_store\<close>: the list holds the nonces drawn for the store; when an id is taken the next one is tried.
  \<open>None\<close> is a run that needs more of them.
\<close>

fun create_store ::
    "('s, 'h :: linorder, 'g, 'id, 'hd, 't, 'b, 'op) store_ops \<Rightarrow> bytes list \<Rightarrow> 't \<Rightarrow> ('h, 'd, 'g, 'id, 'hd, 't) node
     \<Rightarrow> (chan \<times> ('h, 'd, 'g, 'id, 'hd, 't) node) res option" where
  "create_store E [] initial_state n = None"
| "create_store E (rnd # rnds) initial_state n =
     bindL (Some (new_syncing E rnd initial_state)) (\<lambda>st.
     let sid = store_id_of E st;
         (inserted, m) = bt_try_insert sid StoreInitializing (active_stores n) in
     if inserted then Some (Ret (launch_store sid st (n\<lparr>active_stores := m\<rparr>)))
     else create_store E rnds initial_state n)"

definition connect_to_store ::
    "'h :: linorder \<Rightarrow> ('h, 'd, 'g, 'id, 'hd, 't) node \<Rightarrow> (chan \<times> ('h, 'd, 'g, 'id, 'hd, 't) node) res" where
  "connect_to_store sid n =
     (let (inserted, m) = bt_try_insert sid StoreInitializing (active_stores n) in
      if inserted then Ret (launch_store sid (new_downloading sid) (n\<lparr>active_stores := m\<rparr>))
      else Panic TodoHit)"

section \<open>Handles\<close>

text \<open>
  What a handle sends to its store: \<open>apply_batch\<close> and \<open>subscribe_to_state\<close>. \<open>open\<close> is whether the task of the store
  still runs, \<open>rnd\<close> the nonce of the header.
\<close>

definition apply_batch ::
    "('op body_v0 \<Rightarrow> 'h) \<Rightarrow> ('h header_v0 \<Rightarrow> 'h) \<Rightarrow> bool \<Rightarrow> u8 \<Rightarrow> 'h :: linorder set \<Rightarrow> 'op list
     \<Rightarrow> ('h \<times> ('h header_v0, 'op body_v0) store_command) res" where
  "apply_batch get_hash tmp_hash opened rnd parents op =
     bindR (new_body op) (\<lambda>body.
     bindR (new_header get_hash rnd body parents) (\<lambda>header.
     if opened then Ret (tmp_hash header, Apply header body) else Panic ExpectFailed))"

definition apply_one ::
    "('op body_v0 \<Rightarrow> 'h) \<Rightarrow> ('h header_v0 \<Rightarrow> 'h) \<Rightarrow> bool \<Rightarrow> u8 \<Rightarrow> 'h :: linorder set \<Rightarrow> 'op
     \<Rightarrow> ('h \<times> ('h header_v0, 'op body_v0) store_command) res" where
  "apply_one get_hash tmp_hash opened rnd parents op = apply_batch get_hash tmp_hash opened rnd parents [op]"

definition subscribe_to_state :: "bool \<Rightarrow> chan \<Rightarrow> (chan \<times> ('hd, 'b) store_command) res" where
  "subscribe_to_state opened c = (if opened then Ret (c, SubscribeState c) else Panic ExpectFailed)"

section \<open>A run of a node\<close>

datatype ('h, 'd, 't) node_event =
    Accepted "'d stream option"
  | ConnectPeer "'d stream option"
  | CreateStore "bytes list" 't
  | ConnectStore 'h

definition node_step ::
    "('s, 'h :: linorder, 'g, 'id, 'hd, 't, 'b, 'op) store_ops \<Rightarrow> ('h, 'd :: linorder, 'g, 'id, 'hd, 't) node
     \<Rightarrow> ('h, 'd, 't) node_event \<Rightarrow> ('h, 'd, 'g, 'id, 'hd, 't) node res option" where
  "node_step E n e =
     (case e of
        Accepted s \<Rightarrow> Some (Ret (accept_turn n s))
      | ConnectPeer s \<Rightarrow> Some (Ret (connect_to_peer_ipv4 n s))
      | CreateStore rnds initial_state \<Rightarrow> bindL (create_store E rnds initial_state n) (\<lambda>(_, n). Some (Ret n))
      | ConnectStore sid \<Rightarrow> bindL (Some (connect_to_store sid n)) (\<lambda>(_, n). Some (Ret n)))"

definition node_run ::
    "('s, 'h :: linorder, 'g, 'id, 'hd, 't, 'b, 'op) store_ops \<Rightarrow> ('h, 'd :: linorder, 'g, 'id, 'hd, 't) node
     \<Rightarrow> ('h, 'd, 't) node_event list \<Rightarrow> ('h, 'd, 'g, 'id, 'hd, 't) node res option" where
  "node_run E n es = foldL (node_step E) n es"

section \<open>Invariants\<close>

lemma foldL_returned:
  assumes "foldL f s xs = Some (Ret s')" and "I s"
    and "\<And>s x s'. x \<in> set xs \<Longrightarrow> I s \<Longrightarrow> f s x = Some (Ret s') \<Longrightarrow> I s'"
  shows "I s'"
  using assms
proof (induction xs arbitrary: s)
  case (Cons x xs)
  from Cons.prems(1) obtain t where t: "f s x = Some (Ret t)" "foldL f t xs = Some (Ret s')" by auto
  have "I t" by (rule Cons.prems(3) [OF _ Cons.prems(2) t(1)]) simp
  with t(2) show ?case by (rule Cons.IH) (metis Cons.prems(3) list.set_intros(2))
qed simp

lemma map_of_bt_try_insert:
  "bt_try_insert k v m = (b, m') \<Longrightarrow>
   (b \<longleftrightarrow> map_of m k = None) \<and> map_of m' = (if b then (map_of m)(k \<mapsto> v) else map_of m)"
  by (auto simp: bt_try_insert_def bt_simps split: option.splits)

lemma running_stores_iff: "(sid, c) \<in> set (running_stores sts) \<longleftrightarrow> (sid, StoreRunning c) \<in> set sts"
proof (induction sts)
  case (Cons p sts)
  then show ?case by (cases p; cases "snd p") auto
qed simp

lemma running_stores_all:
  "(\<And>i s. (i, s) \<in> set sts \<Longrightarrow> \<exists>c. s = StoreRunning c) \<Longrightarrow> length (running_stores sts) = length sts"
proof (induction sts)
  case (Cons p sts)
  obtain i c where "p = (i, StoreRunning c)" using Cons.prems [of "fst p" "snd p"] by (cases p) auto
  moreover have "length (running_stores sts) = length sts" by (rule Cons.IH) (use Cons.prems in auto)
  ultimately show ?case by simp
qed simp

text \<open>The connections of a node, and its tables of peers and stores.\<close>

definition peers_ok :: "('h, 'd, 'g, 'id, 'hd, 't) node \<Rightarrow> bool" where
  "peers_ok n \<longleftrightarrow>
     distinct (map (\<lambda>(_, d, _). d) (connections n)) \<and> distinct (map (\<lambda>(_, _, c). c) (connections n)) \<and>
     (\<forall>d c. map_of (peer_channels n) d = Some c \<longleftrightarrow> (\<exists>p. (p, d, c) \<in> set (connections n))) \<and>
     (\<forall>(_, d, c) \<in> set (connections n). d \<noteq> node_device n \<and> c < next_chan n)"

definition stores_ok :: "('s, 'h, 'g, 'id, 'hd, 't, 'b, 'op) store_ops \<Rightarrow> ('h :: linorder, 'd, 'g, 'id, 'hd, 't) node \<Rightarrow> bool" where
  "stores_ok E n \<longleftrightarrow>
     distinct (map fst (launched n)) \<and> distinct (map (\<lambda>(_, c, _). c) (launched n)) \<and> bt_ok (active_stores n) \<and>
     (\<forall>sid s. map_of (active_stores n) sid = Some s \<longleftrightarrow> (\<exists>c st. s = StoreRunning c \<and> (sid, c, st) \<in> set (launched n))) \<and>
     (\<forall>(sid, c, st) \<in> set (launched n). store_id_of E st = sid \<and> c < next_chan n) \<and>
     notifications n = length (launched n)"

lemma initiate_peer_ok:
  assumes "peers_ok n" and "peer \<noteq> node_device n" and "initiate_peer peer n = (r, n')"
  shows "peers_ok (case r of None \<Rightarrow> n' | Some c \<Rightarrow> n'\<lparr>connections := connections n' @ [(party, peer, c)]\<rparr>)"
proof -
  obtain b m where m: "bt_try_insert peer (next_chan n) (peer_channels n) = (b, m)" by force
  note m' = map_of_bt_try_insert [OF m]
  have n': "n' = n\<lparr>peer_channels := m, next_chan := Suc (next_chan n)\<rparr>" "r = (if b then Some (next_chan n) else None)"
    using assms(3) by (simp_all add: initiate_peer_def m Let_def)
  have table: "map_of (peer_channels n) e = Some c \<longleftrightarrow> (\<exists>p. (p, e, c) \<in> set (connections n))" for e c
    using assms(1) unfolding peers_ok_def by blast
  have fresh: "d \<noteq> node_device n \<and> c < next_chan n" if "(p, d, c) \<in> set (connections n)" for p d c
    using assms(1) that unfolding peers_ok_def by blast
  show ?thesis
  proof (cases b)
    case True
    with m' have "map_of (peer_channels n) peer = None" by simp
    then have new: "(p, peer, c) \<notin> set (connections n)" for p c using table [of peer c] by auto
    have "distinct (map (\<lambda>(_, d, _). d) (connections n @ [(party, peer, next_chan n)]))"
      "distinct (map (\<lambda>(_, _, c). c) (connections n @ [(party, peer, next_chan n)]))"
      using assms(1) new fresh by (auto simp: peers_ok_def)
    moreover have "map_of m e = Some c \<longleftrightarrow> (\<exists>p. (p, e, c) \<in> set (connections n @ [(party, peer, next_chan n)]))" for e c
      using m' True new table [of e c] by auto
    moreover have "\<forall>(p, d, c) \<in> set (connections n @ [(party, peer, next_chan n)]). d \<noteq> node_device n \<and> c < Suc (next_chan n)"
      using fresh assms(2) by (auto intro: less_SucI)
    ultimately show ?thesis using True by (simp add: peers_ok_def n')
  next
    case False
    with m' assms(1) show ?thesis by (auto simp: peers_ok_def n')
  qed
qed

lemma stores_ok_mono:
  assumes "stores_ok E n" and "launched n' = launched n" and "active_stores n' = active_stores n"
    and "notifications n' = notifications n" and "next_chan n \<le> next_chan n'"
  shows "stores_ok E n'"
proof -
  have "\<forall>(sid, c, st) \<in> set (launched n). store_id_of E st = sid \<and> c < next_chan n'"
    using assms(1,5) by (fastforce simp: stores_ok_def)
  with assms show ?thesis by (simp add: stores_ok_def)
qed

lemma peers_ok_mono:
  assumes "peers_ok n" and "connections n' = connections n" and "peer_channels n' = peer_channels n"
    and "node_device n' = node_device n" and "next_chan n \<le> next_chan n'"
  shows "peers_ok n'"
proof -
  have "\<forall>(_, d, c) \<in> set (connections n). d \<noteq> node_device n \<and> c < next_chan n'"
    using assms(1,5) by (fastforce simp: peers_ok_def)
  with assms show ?thesis by (simp add: peers_ok_def)
qed

lemma run_connection_ok:
  assumes "peers_ok n" and "stores_ok E n"
    and "\<And>info s. r = Ret (Inr info, s) \<Longrightarrow> hs_peer_id info \<noteq> node_device n"
  shows "peers_ok (run_connection party r n) \<and> stores_ok E (run_connection party r n) \<and>
    node_device (run_connection party r n) = node_device n"
proof (cases r)
  case (Ret p)
  obtain q s where p: "p = (q, s)" by force
  show ?thesis
  proof (cases q)
    case (Inl e)
    with assms Ret p show ?thesis by (cases e) (simp add: run_connection_def)
  next
    case (Inr info)
    obtain c n' where i: "initiate_peer (hs_peer_id info) n = (c, n')" by force
    have "hs_peer_id info \<noteq> node_device n" using assms(3) Ret p Inr by simp
    note ok = initiate_peer_ok [OF assms(1) this i, of party]
    have "stores_ok E n' \<and> node_device n' = node_device n"
      using i by (auto simp: initiate_peer_def Let_def intro: stores_ok_mono [OF assms(2)] split: prod.splits)
    with ok show ?thesis
      by (cases c) (auto simp: run_connection_def Ret p Inr i intro: stores_ok_mono)
  qed
qed (use assms in \<open>simp add: run_connection_def\<close>)

lemma handshake_other:
  "run_handshake_server s d = Ret (Inr info, s') \<Longrightarrow> hs_peer_id info \<noteq> d"
  "run_handshake_client s d = Ret (Inr info, s') \<Longrightarrow> hs_peer_id info \<noteq> d"
  by (auto simp: run_handshake_server_def run_handshake_client_def handshake_check_def split: if_splits)

lemma launch_store_ok:
  assumes "peers_ok n" and "stores_ok E n" and m: "bt_try_insert sid StoreInitializing (active_stores n) = (True, m)"
    and "store_id_of E st = sid" and "launch_store sid st (n\<lparr>active_stores := m\<rparr>) = (c, n')"
  shows "peers_ok n' \<and> stores_ok E n' \<and> node_device n' = node_device n"
proof -
  note m' = map_of_bt_try_insert [OF m]
  have bt: "bt_ok m" using assms(2) m by (auto simp: bt_try_insert_def stores_ok_def bt_ok_insert split: option.splits)
  have n': "n' = n\<lparr>next_chan := Suc (Suc (next_chan n)), launched := launched n @ [(sid, Suc (next_chan n), st)],
      active_stores := bt_insert sid (StoreRunning (Suc (next_chan n))) m, notifications := Suc (notifications n)\<rparr>"
    using assms(5) by (auto simp: launch_store_def Let_def)
  have peers: "peers_ok n'" by (rule peers_ok_mono [OF assms(1)]) (simp_all add: n')
  have table: "map_of (active_stores n) i = Some s \<longleftrightarrow> (\<exists>c st. s = StoreRunning c \<and> (i, c, st) \<in> set (launched n))" for i s
    using assms(2) unfolding stores_ok_def by blast
  have old: "store_id_of E st' = i \<and> c' < next_chan n" if "(i, c', st') \<in> set (launched n)" for i c' st'
    using assms(2) that unfolding stores_ok_def by blast
  have distinct_launched: "distinct (map fst (launched n))" "distinct (map (\<lambda>(_, c, _). c) (launched n))"
    using assms(2) by (simp_all add: stores_ok_def)
  have new: "(sid, c', st') \<notin> set (launched n)" for c' st' using m' table [of sid] by simp
  have "map_of (active_stores n') i = Some s \<longleftrightarrow> (\<exists>c st. s = StoreRunning c \<and> (i, c, st) \<in> set (launched n'))" for i s
    using m' new table [of i s] by (cases "i = sid") (auto simp: n' bt_simps)
  moreover have "distinct (map fst (launched n'))" "distinct (map (\<lambda>(_, c, _). c) (launched n'))"
    using distinct_launched new old by (force simp: n')+
  moreover have "\<forall>(i, c', st') \<in> set (launched n'). store_id_of E st' = i \<and> c' < next_chan n'"
    using old assms(4) by (force simp: n' less_Suc_eq)
  moreover have "bt_ok (active_stores n')" "notifications n' = length (launched n')"
    using bt assms(2) by (simp_all add: n' bt_ok_insert stores_ok_def)
  ultimately show ?thesis using peers by (simp add: stores_ok_def n')
qed

lemma create_store_ok:
  fixes E :: "('s, 'h :: linorder, 'g, 'id, 'hd, 't, 'b, 'op) store_ops"
    and n :: "('h, 'd :: linorder, 'g, 'id, 'hd, 't) node"
  assumes "peers_ok n" and "stores_ok E n" and "create_store E rnds x n = Some (Ret (c, n'))"
  shows "peers_ok n' \<and> stores_ok E n' \<and> node_device n' = node_device n"
  using assms(3)
proof (induction rnds)
  case (Cons rnd rnds)
  then obtain st :: "('h, 'd, 'g, 'id, 'hd, 't) store" where st: "new_syncing E rnd x = Ret st"
    by (cases "new_syncing E rnd x :: ('h, 'd, 'g, 'id, 'hd, 't) store res") auto
  obtain b m where m: "bt_try_insert (store_id_of E st) StoreInitializing (active_stores n) = (b, m)" by force
  show ?case
  proof (cases b)
    case True
    with m Cons.prems show ?thesis
      by (intro launch_store_ok [OF assms(1,2) _ refl, of st m c]) (simp_all add: st Let_def)
  next
    case False
    with m Cons show ?thesis by (simp add: st Let_def)
  qed
qed simp

lemma node_step_ok:
  assumes "peers_ok n" and "stores_ok E n" and "node_step E n e = Some (Ret n')"
  shows "peers_ok n' \<and> stores_ok E n' \<and> node_device n' = node_device n"
proof (cases e)
  case (Accepted s)
  have "peers_ok (run_connection Server (run_handshake_server t (node_device n)) n) \<and>
      stores_ok E (run_connection Server (run_handshake_server t (node_device n)) n) \<and>
      node_device (run_connection Server (run_handshake_server t (node_device n)) n) = node_device n" for t
    by (rule run_connection_ok [OF assms(1,2)]) (rule handshake_other(1))
  then show ?thesis using assms Accepted by (cases s) (auto simp: node_step_def accept_turn_def)
next
  case (ConnectPeer s)
  have "peers_ok (run_connection Client (run_handshake_client t (node_device n)) n) \<and>
      stores_ok E (run_connection Client (run_handshake_client t (node_device n)) n) \<and>
      node_device (run_connection Client (run_handshake_client t (node_device n)) n) = node_device n" for t
    by (rule run_connection_ok [OF assms(1,2)]) (rule handshake_other(2))
  then show ?thesis using assms ConnectPeer by (cases s) (auto simp: node_step_def connect_to_peer_ipv4_def)
next
  case (CreateStore rnds x)
  with assms(3) obtain c where "create_store E rnds x n = Some (Ret (c, n'))" by (auto simp: node_step_def)
  then show ?thesis by (rule create_store_ok [OF assms(1,2)])
next
  case (ConnectStore sid)
  then show ?thesis
    using assms(3) launch_store_ok [OF assms(1,2) _ _, of sid _ "new_downloading sid"]
    by (auto simp: node_step_def connect_to_store_def Let_def store_id_of_def new_downloading_def fresh_store_def split: prod.splits if_splits)
qed

lemma node_new_ok: "peers_ok (node_new d) \<and> stores_ok E (node_new d) \<and> node_device (node_new d) = d"
  by (simp add: node_new_def peers_ok_def stores_ok_def bt_ok_def)

lemma node_run_ok:
  assumes "node_run E (node_new d) es = Some (Ret n)"
  shows "peers_ok n \<and> stores_ok E n \<and> node_device n = d"
proof (rule foldL_returned [where I = "\<lambda>n. peers_ok n \<and> stores_ok E n \<and> node_device n = d"])
  show "foldL (node_step E) (node_new d) es = Some (Ret n)" using assms by (simp add: node_run_def)
  show "peers_ok (node_new d) \<and> stores_ok E (node_new d) \<and> node_device (node_new d) = d" by (rule node_new_ok)
next
  fix s e s'
  assume "peers_ok s \<and> stores_ok E s \<and> node_device s = d" and step: "node_step E s e = Some (Ret s')"
  then have "peers_ok s" "stores_ok E s" "node_device s = d" by simp_all
  with node_step_ok [OF this(1,2) step] show "peers_ok s' \<and> stores_ok E s' \<and> node_device s' = d" by simp
qed

text \<open>C22. A node is connected to a peer once: after any run, the connections of a node lead to different peers
  and none to itself, each is in the table its stores read, with its channel, and the table holds
  nothing else. A handshake with a peer of the table starts nothing.\<close>

theorem peers_connect_once:
  assumes "node_run E (node_new d) es = Some (Ret n)"
  shows "distinct (map (\<lambda>(_, peer, _). peer) (connections n)) \<and>
    (\<forall>peer c. map_of (peer_channels n) peer = Some c \<longleftrightarrow> (\<exists>p. (p, peer, c) \<in> set (connections n))) \<and>
    (\<forall>(_, peer, c) \<in> set (connections n). peer \<noteq> d) \<and>
    (\<forall>party info s. hs_peer_id info \<in> fst ` set (peer_channels n) \<longrightarrow>
       connections (run_connection party (Ret (Inr info, s)) n) = connections n)"
proof -
  from node_run_ok [OF assms] have ok: "peers_ok n" and d: "node_device n = d" by simp_all
  have "connections (run_connection party (Ret (Inr info, s)) n) = connections n"
    if "hs_peer_id info \<in> fst ` set (peer_channels n)" for party info s
  proof -
    obtain b m where m: "bt_try_insert (hs_peer_id info) (next_chan n) (peer_channels n) = (b, m)" by force
    from that have "map_of (peer_channels n) (hs_peer_id info) \<noteq> None" by (simp add: map_of_eq_None_iff)
    with map_of_bt_try_insert [OF m] have "\<not> b" by simp
    with m show ?thesis by (simp add: run_connection_def initiate_peer_def Let_def)
  qed
  moreover have "\<forall>(_, peer, c) \<in> set (connections n). peer \<noteq> d" using ok d unfolding peers_ok_def by blast
  ultimately show ?thesis using ok unfolding peers_ok_def by blast
qed

text \<open>C21. A node runs one task per store: after any run, the tasks of a node are for different stores and
  have different channels, each keeps the store it was started for, a store is active exactly when
  it has a task, with the channel of that task, and the managers were notified of every one.\<close>

theorem one_task_per_store:
  assumes "node_run E (node_new d) es = Some (Ret n)"
  shows "distinct (map fst (launched n)) \<and> distinct (map (\<lambda>(_, c, _). c) (launched n)) \<and>
    (\<forall>(sid, c, st) \<in> set (launched n). store_id_of E st = sid) \<and>
    (\<forall>sid c. (sid, c) \<in> set (running_stores (active_stores n)) \<longleftrightarrow> (\<exists>st. (sid, c, st) \<in> set (launched n))) \<and>
    length (running_stores (active_stores n)) = length (active_stores n) \<and>
    notifications n = length (launched n)"
proof -
  from node_run_ok [OF assms] have ok: "stores_ok E n" by simp
  then have bt: "bt_ok (active_stores n)" by (simp add: stores_ok_def)
  have table: "map_of (active_stores n) i = Some s \<longleftrightarrow> (\<exists>c st. s = StoreRunning c \<and> (i, c, st) \<in> set (launched n))" for i s
    using ok unfolding stores_ok_def by blast
  have active: "(i, s) \<in> set (active_stores n) \<longleftrightarrow> map_of (active_stores n) i = Some s" for i s
    using bt by (simp add: bt_ok_def strict_sorted_iff)
  have all: "(\<exists>c. s = StoreRunning c)" if "(i, s) \<in> set (active_stores n)" for i s
    using that unfolding active table by blast
  have "(sid, c) \<in> set (running_stores (active_stores n)) \<longleftrightarrow> (sid, StoreRunning c) \<in> set (active_stores n)" for sid c
    by (rule running_stores_iff)
  then have "(sid, c) \<in> set (running_stores (active_stores n)) \<longleftrightarrow> (\<exists>st. (sid, c, st) \<in> set (launched n))" for sid c
    unfolding active table by simp
  moreover have "length (running_stores (active_stores n)) = length (active_stores n)"
    by (rule running_stores_all) (use all in blast)
  moreover have "\<forall>(sid, c, st) \<in> set (launched n). store_id_of E st = sid" using ok unfolding stores_ok_def by blast
  ultimately show ?thesis using ok unfolding stores_ok_def by blast
qed

section \<open>Creating a store\<close>

lemma new_syncing_ids:
  fixes E :: "('s, 'h :: linorder, 'g, 'id, 'hd, 't, 'b, 'op) store_ops"
  assumes "so_to_vec E x \<noteq> []" and "length (so_to_vec E x) \<le> u64_max"
    and K: "collision_free (so_hash E)" and ty: "length (so_type_ident E) = 32"
  shows "\<exists>f. inj_on f {rnd. length rnd = 32} \<and>
    (\<forall>rnd. \<exists>st :: ('h, 'd :: linorder, 'g, 'id, 'hd, 't) store. new_syncing E rnd x = Ret st \<and> store_id_of E st = f rnd)"
proof -
  have "\<forall>rnd. \<exists>md. \<exists>st :: ('h, 'd, 'g, 'id, 'hd, 't) store. new_syncing E rnd x = Ret st \<and>
      store_id_of E st = store_id (so_hash E) md \<and> md_nonce md = rnd \<and> md_store_type md = so_type_ident E"
  proof
    fix rnd
    from new_syncing_state [OF assms(1,2), of rnd] obtain st :: "('h, 'd, 'g, 'id, 'hd, 't) store" and md t where
      "new_syncing E rnd x = Ret st"
      "state_machine st = SyncingStore md t (so_to_vec E x) (ecg_new (so_dag E)) \<lparr>latest_state = x, latest_headers = {}\<rparr>"
      "md_nonce md = rnd" "md_store_type md = so_type_ident E" by blast
    then show "\<exists>md. \<exists>st :: ('h, 'd, 'g, 'id, 'hd, 't) store. new_syncing E rnd x = Ret st \<and>
      store_id_of E st = store_id (so_hash E) md \<and> md_nonce md = rnd \<and> md_store_type md = so_type_ident E"
      by (intro exI [of _ md] exI [of _ st]) (simp add: store_id_of_def)
  qed
  from choice [OF this] obtain md where md: "\<And>rnd. \<exists>st :: ('h, 'd, 'g, 'id, 'hd, 't) store. new_syncing E rnd x = Ret st \<and>
      store_id_of E st = store_id (so_hash E) (md rnd) \<and> md_nonce (md rnd) = rnd \<and> md_store_type (md rnd) = so_type_ident E"
    by blast
  have "inj_on (\<lambda>rnd. store_id (so_hash E) (md rnd)) {rnd. length rnd = 32}"
  proof (rule inj_onI)
    fix a b assume "a \<in> {rnd. length rnd = 32}" "b \<in> {rnd. length rnd = 32}"
      and eq: "store_id (so_hash E) (md a) = store_id (so_hash E) (md b)"
    then have "wf_metadata (md a)" "wf_metadata (md b)" using md [of a] md [of b] ty by (auto simp: wf_metadata_def)
    from store_id_inj [OF K this eq] show "a = b" using md [of a] md [of b] by metis
  qed
  moreover have "\<forall>rnd. \<exists>st :: ('h, 'd, 'g, 'id, 'hd, 't) store. new_syncing E rnd x = Ret st \<and>
      store_id_of E st = store_id (so_hash E) (md rnd)" using md by blast
  ultimately show ?thesis by (intro exI [of _ "\<lambda>rnd. store_id (so_hash E) (md rnd)"]) simp
qed

lemma create_store_free:
  fixes E :: "('s, 'h :: linorder, 'g, 'id, 'hd, 't, 'b, 'op) store_ops"
    and n :: "('h, 'd :: linorder, 'g, 'id, 'hd, 't) node"
  assumes st: "\<And>rnd. \<exists>st :: ('h, 'd, 'g, 'id, 'hd, 't) store. new_syncing E rnd x = Ret st \<and> store_id_of E st = f rnd"
    and "\<exists>rnd \<in> set rnds. map_of (active_stores n) (f rnd) = None"
  shows "\<exists>st n'. create_store E rnds x n = Some (Ret (next_chan n, n')) \<and> map_of (active_stores n) (store_id_of E st) = None \<and>
    launched n' = launched n @ [(store_id_of E st, Suc (next_chan n), st)] \<and> (\<exists>rnd \<in> set rnds. new_syncing E rnd x = Ret st) \<and>
    map_of (active_stores n') = (map_of (active_stores n))(store_id_of E st \<mapsto> StoreRunning (Suc (next_chan n)))"
  using assms(2)
proof (induction rnds)
  case (Cons rnd rnds)
  obtain t :: "('h, 'd, 'g, 'id, 'hd, 't) store" where t: "new_syncing E rnd x = Ret t" "store_id_of E t = f rnd" using st by blast
  obtain b m where m: "bt_try_insert (f rnd) StoreInitializing (active_stores n) = (b, m)" by force
  note m' = map_of_bt_try_insert [OF m]
  show ?case
  proof (cases b)
    case True
    then have "create_store E (rnd # rnds) x n = Some (Ret (launch_store (f rnd) t (n\<lparr>active_stores := m\<rparr>)))"
      using m by (simp add: t)
    then show ?thesis using True m' t
      by (intro exI [of _ t]) (auto simp: launch_store_def Let_def bt_simps intro: bexI [of _ rnd])
  next
    case False
    then have skip: "create_store E (rnd # rnds) x n = create_store E rnds x n" using m by (simp add: t)
    have "map_of (active_stores n) (f rnd) \<noteq> None" using False m' by blast
    with Cons.prems have "\<exists>r \<in> set rnds. map_of (active_stores n) (f r) = None" by auto
    from Cons.IH [OF this] show ?thesis unfolding skip by (meson list.set_intros(2))
  qed
qed simp

text \<open>C20. Creating a store returns: when the hash has no collisions, the store is found a free id before the
  node has drawn more different nonces than it has stores, and the store is then started under it,
  with the commands of the handle on the first of its channels.\<close>

theorem create_store_returns:
  fixes E :: "('s, 'h :: linorder, 'g, 'id, 'hd, 't, 'b, 'op) store_ops"
    and n :: "('h, 'd :: linorder, 'g, 'id, 'hd, 't) node"
  assumes "so_to_vec E x \<noteq> []" and "length (so_to_vec E x) \<le> u64_max"
    and "collision_free (so_hash E)" and "length (so_type_ident E) = 32"
    and rnds: "distinct rnds" "\<forall>rnd \<in> set rnds. length rnd = 32" "length (active_stores n) < length rnds"
  shows "\<exists>st n'. create_store E rnds x n = Some (Ret (next_chan n, n')) \<and> map_of (active_stores n) (store_id_of E st) = None \<and>
    launched n' = launched n @ [(store_id_of E st, Suc (next_chan n), st)] \<and> (\<exists>rnd \<in> set rnds. new_syncing E rnd x = Ret st) \<and>
    map_of (active_stores n') = (map_of (active_stores n))(store_id_of E st \<mapsto> StoreRunning (Suc (next_chan n)))"
proof -
  obtain f where inj: "inj_on f {rnd. length rnd = 32}"
    and f: "\<forall>rnd. \<exists>st :: ('h, 'd, 'g, 'id, 'hd, 't) store. new_syncing E rnd x = Ret st \<and> store_id_of E st = f rnd"
    using new_syncing_ids [OF assms(1-4), where ?'d = 'd] by blast
  have "inj_on f (set rnds)" by (rule inj_on_subset [OF inj]) (use rnds(2) in blast)
  then have "card (f ` set rnds) = length rnds" using rnds(1) by (simp add: card_image distinct_card)
  moreover have "card (fst ` set (active_stores n)) \<le> length (active_stores n)"
    by (metis card_length length_map list.set_map)
  ultimately have "\<not> f ` set rnds \<subseteq> fst ` set (active_stores n)"
    using rnds(3) card_mono [of "fst ` set (active_stores n)" "f ` set rnds"] by auto
  then have "\<exists>rnd \<in> set rnds. map_of (active_stores n) (f rnd) = None" by (auto simp: map_of_eq_None_iff)
  with f show ?thesis by (intro create_store_free) blast+
qed

section \<open>Witnesses\<close>

text \<open>Device 1: device 2 connects twice, it connects to device 3 and to itself, creates a store and joins another.\<close>

definition demo_events :: "(bytes, nat, bytes) node_event list" where
  "demo_events =
     (let arrives = \<lambda>d. Some \<lparr>incoming = [Inr d], outgoing = [], is_open = True\<rparr> in
      [Accepted (arrives 2), Accepted None, ConnectPeer (arrives 3), Accepted (arrives 2), ConnectPeer (arrives 1),
       CreateStore [replicate 32 1] [1, 2, 3], ConnectStore [9]])"

lemma demo_node:
  "case node_run demo_ops (node_new 1) demo_events of
     Some (Ret n) \<Rightarrow> connections n = [(Server, 2, 0), (Client, 3, 1)] \<and> peer_channels n = [(2, 0), (3, 1)] \<and>
       map (fst \<circ> snd) (launched n) = [4, 6] \<and> notifications n = 2
   | _ \<Rightarrow> False"
  by code_simp

theorem peers_connect_once_witness:
  "\<exists>n. node_run demo_ops (node_new 1) demo_events = Some (Ret n) \<and> length (connections n) = 2 \<and>
     distinct (map (\<lambda>(_, peer, _). peer) (connections n)) \<and>
     connections (run_connection Client (Ret (Inr \<lparr>hs_version = V0, hs_peer_id = 2\<rparr>, \<lparr>incoming = [], outgoing = [], is_open = True\<rparr>)) n) = connections n"
proof -
  obtain n where n: "node_run demo_ops (node_new 1) demo_events = Some (Ret n)" "length (connections n) = 2"
      "2 \<in> fst ` set (peer_channels n)"
    using demo_node by (auto split: option.splits res.splits)
  from peers_connect_once [OF n(1)] n show ?thesis by (intro exI [of _ n]) simp
qed

theorem one_task_per_store_witness:
  "\<exists>n. node_run demo_ops (node_new 1) demo_events = Some (Ret n) \<and>
     length (running_stores (active_stores n)) = length (active_stores n) \<and> notifications n = 2 \<and> length (launched n) = 2"
proof -
  obtain n where n: "node_run demo_ops (node_new 1) demo_events = Some (Ret n)" "notifications n = 2"
    using demo_node by (auto split: option.splits res.splits)
  from one_task_per_store [OF n(1)] n show ?thesis by auto
qed

theorem create_store_returns_witness:
  "\<exists>st n'. create_store demo_ops [replicate 32 1] [1, 2, 3] (node_new (1 :: nat)) = Some (Ret (0, n')) \<and>
     launched n' = [(store_id_of demo_ops st, 1, st)]"
proof -
  have new: "active_stores (node_new (1 :: nat)) = []" "next_chan (node_new (1 :: nat)) = 0" "launched (node_new (1 :: nat)) = []"
    by (simp_all add: node_new_def)
  show ?thesis
    using create_store_returns [of demo_ops "[1, 2, 3]" "[replicate 32 1]" "node_new (1 :: nat)", unfolded new]
    by (simp add: u64_max_def plain_collision_free del: create_store.simps) blast
qed

end
