(* ===== verification/Hooks.thy ===== *)
theory Hooks
  imports Node
begin

text \<open>
  \<open>ossa-dioxus/src/lib.rs\<close>: the hooks through which a user interface reads a store and applies
  operations to it. A hook holds the handle of its store and the state last received, or nothing
  while the store is downloading. Signals and coroutines of the user interface library carry
  the state and are not modelled: \<open>runtime\<close> is whether there is one to spawn a task in.
\<close>

section \<open>State\<close>

record ('g, 'h, 'hd, 't) store_state =
  ss_state :: 't
  ss_ecg :: "('g, 'h, 'hd) ecg"

record ('g, 'h, 'hd, 't) use_store =
  us_handle :: chan
  us_state :: "('g, 'h, 'hd, 't) store_state option"

text \<open>The task of a hook: one turn of its loop, and what it holds after some messages.\<close>

definition receive_update ::
    "('g, 'h, 'hd, 't) store_state option \<Rightarrow> ('g, 'h, 'hd, 't) state_update \<Rightarrow> ('g, 'h, 'hd, 't) store_state option" where
  "receive_update s msg =
     (case msg of
        Snapshot snapshot ecg_state \<Rightarrow> Some \<lparr>ss_state = snapshot, ss_ecg = ecg_state\<rparr>
      | Downloading percent \<Rightarrow> None)"

definition store_future :: "('g, 'h, 'hd, 't) state_update list \<Rightarrow> ('g, 'h, 'hd, 't) store_state option" where
  "store_future msgs = foldl receive_update None msgs"

text \<open>
  \<open>new_store_helper\<close>: builds the handle and subscribes to the state. \<open>c\<close> is the channel on which the
  updates arrive, \<open>opened\<close> whether the task of the store runs.
\<close>

definition new_store_helper ::
    "bool \<Rightarrow> bool \<Rightarrow> chan \<Rightarrow> ('n \<Rightarrow> (chan \<times> 'n) res) \<Rightarrow> 'n
     \<Rightarrow> (('g, 'h, 'hd, 't) use_store option \<times> ('hd, 'b) store_command \<times> 'n) res" where
  "new_store_helper runtime opened c build_store_handle ossa =
     bindR (build_store_handle ossa) (\<lambda>(handle, ossa).
     bindR (subscribe_to_state opened c) (\<lambda>(recv_st, cmd).
     Ret (if runtime then Some \<lparr>us_handle = handle, us_state = store_future []\<rparr> else None, cmd, ossa)))"

definition use_store_hook ::
    "bool \<Rightarrow> bool \<Rightarrow> chan \<Rightarrow> ('n \<Rightarrow> (chan \<times> 'n) res) \<Rightarrow> 'n
     \<Rightarrow> (('g, 'h, 'hd, 't) use_store \<times> ('hd, 'b) store_command \<times> 'n) res" where
  "use_store_hook runtime opened c build_store_handle ossa =
     bindR (new_store_helper runtime opened c build_store_handle ossa) (\<lambda>(u, cmd, ossa).
     bindR (unwrap u) (\<lambda>u. Ret (u, cmd, ossa)))"

definition get_current_state :: "('g, 'h, 'hd, 't) use_store \<Rightarrow> 't option" where
  "get_current_state u = map_option ss_state (us_state u)"

definition get_current_store_state :: "('g, 'h, 'hd, 't) use_store \<Rightarrow> ('g, 'h, 'hd, 't) store_state option" where
  "get_current_store_state u = us_state u"

section \<open>Applying one operation\<close>

definition apply_with_parents ::
    "('op body_v0 \<Rightarrow> 'h) \<Rightarrow> ('h header_v0 \<Rightarrow> 'h) \<Rightarrow> bool \<Rightarrow> u8 \<Rightarrow> 'h :: linorder set
     \<Rightarrow> ('h operation_id causal_time \<Rightarrow> 'op) \<Rightarrow> ('h operation_id \<times> ('h header_v0, 'op body_v0) store_command) res" where
  "apply_with_parents get_hash tmp_hash opened rnd parents op =
     (let t = current_time 0 in
      bindR (apply_one get_hash tmp_hash opened rnd parents (op t)) (\<lambda>(header_id, cmd).
      Ret (OperationId (Some header_id) 0, cmd)))"

definition use_store_apply ::
    "('op body_v0 \<Rightarrow> 'h) \<Rightarrow> ('h header_v0 \<Rightarrow> 'h) \<Rightarrow> bool \<Rightarrow> u8 \<Rightarrow> ('g, 'h :: linorder, 'h header_v0, 't) use_store
     \<Rightarrow> ('h operation_id causal_time \<Rightarrow> 'op) \<Rightarrow> ('h operation_id \<times> ('h header_v0, 'op body_v0) store_command) res" where
  "use_store_apply get_hash tmp_hash opened rnd u op =
     bindR (expect (us_state u)) (\<lambda>s.
     apply_with_parents get_hash tmp_hash opened rnd (tips (ss_ecg s)) op)"

section \<open>Building a batch of operations\<close>

record ('h, 'op) operation_builder =
  ob_parents :: "'h set"
  ob_operations :: "'op list"

definition max_ops :: nat where
  "max_ops = 256"

definition operations_builder :: "('g, 'h, 'hd, 't) use_store \<Rightarrow> ('h, 'op) operation_builder res" where
  "operations_builder u =
     bindR (expect (us_state u)) (\<lambda>s. Ret \<lparr>ob_parents = tips (ss_ecg s), ob_operations = []\<rparr>)"

definition queue ::
    "('h, 'op) operation_builder \<Rightarrow> ('h operation_id causal_time \<Rightarrow> 'op)
     \<Rightarrow> 'h operation_id causal_time option \<times> ('h, 'op) operation_builder" where
  "queue b f =
     (if length (ob_operations b) \<ge> max_ops then (None, b)
      else
        let t = current_time (of_nat (length (ob_operations b))) in
        (Some t, b\<lparr>ob_operations := ob_operations b @ [f t]\<rparr>))"

definition builder_apply ::
    "('op body_v0 \<Rightarrow> 'h) \<Rightarrow> ('h header_v0 \<Rightarrow> 'h) \<Rightarrow> bool \<Rightarrow> u8 \<Rightarrow> ('h :: linorder, 'op) operation_builder
     \<Rightarrow> ('h \<times> ('h header_v0, 'op body_v0) store_command) res" where
  "builder_apply get_hash tmp_hash opened rnd b =
     apply_batch get_hash tmp_hash opened rnd (ob_parents b) (ob_operations b)"

text \<open>The operations \<open>fs\<close> queued one after the other, with the times that were returned.\<close>

fun queue_all ::
    "('h, 'op) operation_builder \<Rightarrow> ('h operation_id causal_time \<Rightarrow> 'op) list
     \<Rightarrow> 'h operation_id causal_time option list \<times> ('h, 'op) operation_builder" where
  "queue_all b [] = ([], b)"
| "queue_all b (f # fs) = (case queue b f of (t, b) \<Rightarrow> (case queue_all b fs of (ts, b) \<Rightarrow> (t # ts, b)))"

section \<open>The hook shows the store\<close>

text \<open>What a syncing store shows, and whether all its listeners have been shown it.\<close>

definition view :: "('h, 'g, 'id, 'hd, 't) state_machine \<Rightarrow> ('g, 'id, 'hd, 't) store_state option" where
  "view sm = (case sm of SyncingStore _ _ _ ecg ds \<Rightarrow> Some \<lparr>ss_state = latest_state ds, ss_ecg = ecg\<rparr> | _ \<Rightarrow> None)"

definition mirrored :: "('h, 'd, 'g, 'id, 'hd, 't) store \<Rightarrow> bool" where
  "mirrored st \<longleftrightarrow> (\<forall>l \<in> set (listeners st). \<forall>s. view (state_machine st) = Some s \<longrightarrow> store_future (updates l (outbox st)) = Some s)"

lemma store_future_snoc [simp]: "store_future (us @ [u]) = receive_update (store_future us) u"
  by (simp add: store_future_def)

lemma mirrored_moved: "mirrored st \<Longrightarrow> peers_moved st st' \<Longrightarrow> mirrored st'"
  by (simp add: mirrored_def peers_moved_def)

lemma mirrored_silent:
  fixes st :: "('h, 'd :: linorder, 'g, 'id, 'hd, 't) store"
  shows "mirrored st \<Longrightarrow> silent st st' \<Longrightarrow> mirrored st'"
  by (rule mirrored_moved [OF _ silent_moved])

lemma mirrored_downloading: "view (state_machine st) = None \<Longrightarrow> mirrored st"
  by (simp add: mirrored_def)

lemma tell_listeners:
  fixes st :: "('h, 'd :: linorder, 'g, 'id, 'hd, 't) store"
  assumes "foldR (tell_listener W latest ecg) st ls = Ret s"
  shows "kept st s \<and> (\<forall>l. updates l (outbox s) = updates l (outbox st) @ replicate (count_list ls l) (Snapshot latest ecg))"
  using assms
proof (induction ls arbitrary: st)
  case (Cons c ls)
  from Cons.prems obtain t where t: "tell_listener W latest ecg st c = Ret t" "foldR (tell_listener W latest ecg) t ls = Ret s" by auto
  from Cons.IH [OF t(2)] kept_trans [OF tell_kept(1) [OF t(1)]] t(1) show ?case
    by (auto simp: tell_listener_def replicate_append_same)
qed simp

lemma update_listeners_shows:
  assumes "update_listeners W st latest ecg from_peer = Ret st'"
  shows "kept st st' \<and> (\<forall>l \<in> set (listeners st). store_future (updates l (outbox st')) = Some \<lparr>ss_state = latest, ss_ecg = ecg\<rparr>)"
proof -
  from assms obtain s where
    s: "foldR (tell_listener W latest ecg) st (listeners st) = Ret s"
      "foldR (tell_ecg_subscriber W ecg from_peer) (s\<lparr>ecg_subscribers := []\<rparr>) (ecg_subscribers s) = Ret st'"
    by (auto simp: update_listeners_def)
  have "silent (s\<lparr>ecg_subscribers := []\<rparr>) st'" by (rule foldR_silent [OF s(2)]) (rule tell_ecg_silent)
  then have quiet: "updates l (outbox st') = updates l (outbox s)" for l by (simp add: silent_def)
  have "store_future (updates l (outbox st')) = Some \<lparr>ss_state = latest, ss_ecg = ecg\<rparr>" if l: "l \<in> set (listeners st)" for l
  proof -
    obtain n where n: "count_list (listeners st) l = Suc n" using l by (cases "count_list (listeners st) l") (auto simp: count_list_0_iff)
    have "updates l (outbox s) = (updates l (outbox st) @ replicate n (Snapshot latest ecg)) @ [Snapshot latest ecg]"
      using tell_listeners [OF s(1)] n by (simp add: replicate_append_same)
    then show ?thesis unfolding quiet by (simp del: append_assoc add: receive_update_def)
  qed
  with update_listeners_kept [OF assms] show ?thesis by blast
qed

lemma syncing_mirrored:
  fixes st :: "('h, 'd :: linorder, 'g, 'id, 'hd, 't) store"
  assumes "update_state_to_syncing E W st peer = Ret st'"
  shows "mirrored st'"
proof -
  from assms obtain md t bs where "state_machine st = DownloadingInitialState md t bs"
    by (auto simp: update_state_to_syncing_def split: state_machine.splits)
  with assms obtain md t init x s where
    s: "update_listeners W (st\<lparr>state_machine := SyncingStore md t init (ecg_new (so_dag E)) \<lparr>latest_state = x, latest_headers = {}\<rparr>\<rparr>)
        x (ecg_new (so_dag E)) (Some peer) = Ret s"
    and st': "foldR (wake_block_subscriber W) (s\<lparr>block_subscribers := []\<rparr>) (block_subscribers s) = Ret st'"
    by (auto simp: update_state_to_syncing_def Let_def split: option.splits)
  have "mirrored s" using update_listeners_shows [OF s] by (simp add: mirrored_def view_def kept_def)
  moreover have "silent s st'"
    by (rule silent_trans [OF silent_subscribers(3) foldR_silent [OF st' wake_silent(1)]])
  ultimately show ?thesis by (rule mirrored_silent)
qed

lemma downloading_initial_state_mirrored:
  fixes st :: "('h, 'd :: linorder, 'g, 'id, 'hd, 't) store"
  assumes "update_state_to_downloading_initial_state E W st peer = Ret st'"
  shows "mirrored st'"
proof -
  from assms obtain md p where sm: "state_machine st = DownloadingMerkle md p"
    by (auto simp: update_state_to_downloading_initial_state_def split: state_machine.splits)
  show ?thesis
  proof (cases "try_complete p")
    case None
    with assms sm have "st' = st" by (simp add: update_state_to_downloading_initial_state_def)
    with sm show ?thesis by (simp add: mirrored_downloading view_def)
  next
    case (Some t)
    let ?s = "st\<lparr>state_machine := DownloadingInitialState md t (replicate (block_count md) None), merkle_subscribers := []\<rparr>"
    from assms sm Some obtain s where
      s: "foldR (wake_merkle_subscriber W peer t) ?s (merkle_subscribers st) = Ret s"
      and st': "(if md_initial_state_size md = 0 then update_state_to_syncing E W s peer else Ret s) = Ret st'"
      by (auto simp: update_state_to_downloading_initial_state_def Let_def)
    have "kept ?s s" by (rule foldR_kept [OF s wake_kept(2)])
    then have "mirrored s" by (simp add: kept_def mirrored_downloading view_def)
    with st' show ?thesis by (auto dest: syncing_mirrored split: if_splits)
  qed
qed

lemma received_metadata_mirrored:
  fixes st :: "('h, 'd :: linorder, 'g, 'id, 'hd, 't) store"
  assumes "mirrored st" and "handle_received_metadata E W st peer md = Ret st'"
  shows "mirrored st'"
proof -
  from assms(2) obtain s where s: "update_outgoing_peer_to_ready st peer = Ret s" by (auto simp: handle_received_metadata_def)
  show ?thesis
  proof (cases "validate_store_id (so_hash E) md (store_id_of E s)")
    case False
    with assms(2) s have "st' = s" by (simp add: handle_received_metadata_def)
    with mirrored_moved [OF assms(1) status_moved(3) [OF s]] show ?thesis by simp
  next
    case True
    with assms(2) s obtain t u where
      u: "foldR (wake_metadata_subscriber W peer md)
        (s\<lparr>state_machine := DownloadingMerkle md t, metadata_subscribers := []\<rparr>) (metadata_subscribers s) = Ret u"
      and st': "(if block_count md \<le> 1 then update_state_to_downloading_initial_state E W u peer else Ret u) = Ret st'"
      by (auto simp: handle_received_metadata_def Let_def)
    from foldR_kept [OF u wake_kept(3)] have "mirrored u" by (simp add: kept_def mirrored_downloading view_def)
    with st' show ?thesis by (auto dest: downloading_initial_state_mirrored split: if_splits)
  qed
qed

lemma received_merkle_mirrored:
  fixes st :: "('h, 'd :: linorder, 'g, 'id, 'hd, 't) store"
  assumes "mirrored st" and "handle_received_merkle_hashes E W st peer rs hs = Some (Ret st')"
  shows "mirrored st'"
proof -
  from assms(2) obtain s where s: "update_outgoing_peer_to_ready st peer = Ret s" by (auto simp: handle_received_merkle_hashes_def)
  with assms(2) have "st' = s \<or> mirrored st'"
    by (auto simp: handle_received_merkle_hashes_def Let_def dest!: downloading_initial_state_mirrored
        split: if_splits state_machine.splits)
  with mirrored_moved [OF assms(1) status_moved(3) [OF s]] show ?thesis by blast
qed

lemma received_blocks_mirrored:
  fixes st :: "('h, 'd :: linorder, 'g, 'id, 'hd, 't) store"
  assumes "mirrored st" and "handle_received_initial_state_blocks E W st peer rs bs = Ret st'"
  shows "mirrored st'"
proof -
  from assms(2) obtain s where s: "update_outgoing_peer_to_ready st peer = Ret s" by (auto simp: handle_received_initial_state_blocks_def)
  with assms(2) have "st' = s \<or> mirrored st'"
    by (auto simp: handle_received_initial_state_blocks_def Let_def view_def dest!: syncing_mirrored
        intro: mirrored_downloading split: if_splits state_machine.splits)
  with mirrored_moved [OF assms(1) status_moved(3) [OF s]] show ?thesis by blast
qed

lemma received_operations_mirrored:
  fixes st :: "('h, 'd :: linorder, 'g, 'id, 'hd, 't) store"
  assumes "handle_received_ecg_operations E W st peer ops = Ret st'"
  shows "mirrored st'"
proof -
  from assms obtain s where s: "update_outgoing_peer_to_ready st peer = Ret s" by (auto simp: handle_received_ecg_operations_def)
  with assms obtain md t init ecg0 ds0 where sm: "state_machine s = SyncingStore md t init ecg0 ds0"
    by (auto simp: handle_received_ecg_operations_def split: state_machine.splits)
  with assms s obtain ecg ds where
    "update_listeners W (s\<lparr>state_machine := SyncingStore md t init ecg ds\<rparr>) (latest_state ds) ecg (Some peer) = Ret st'"
    by (auto simp: handle_received_ecg_operations_def)
  from update_listeners_shows [OF this] show ?thesis by (simp add: mirrored_def view_def kept_def)
qed

lemma store_command_mirrored:
  fixes st :: "('h, 'd :: linorder, 'g, 'id, 'hd, 't) store"
  assumes "mirrored st" and "handle_store_command E W st cmd = Ret st'"
  shows "mirrored st'"
proof (cases cmd)
  case (SubscribeState l)
  with assms(2) obtain u where u: "current_update (state_machine st) = Ret u"
      "st' = st\<lparr>outbox := outbox st @ [Update l u], listeners := listeners st @ [l]\<rparr>"
    by (auto simp: handle_store_command_def)
  from u(1) have "view (state_machine st) = Some s \<Longrightarrow> receive_update f u = Some s" for f s
    by (auto simp: current_update_def view_def receive_update_def split: state_machine.splits)
  with assms(1) show ?thesis by (auto simp: mirrored_def u(2))
next
  case (Apply hdr b)
  show ?thesis
  proof (cases "\<exists>md t init ecg ds. state_machine st = SyncingStore md t init ecg ds")
    case False
    with assms Apply show ?thesis by (auto simp: handle_store_command_def split: state_machine.splits)
  next
    case True
    with assms(2) Apply obtain md t init ecg ds s where
      s: "update_listeners W st (latest_state ds) ecg None = Ret s" and st': "st' = s\<lparr>state_machine := SyncingStore md t init ecg ds\<rparr>"
      by (auto simp: handle_store_command_def Let_def split: if_splits)
    from update_listeners_shows [OF s] show ?thesis by (simp add: st' mirrored_def view_def kept_def)
  qed
qed

lemma untyped_command_mirrored:
  fixes st :: "('h, 'd :: linorder, 'g, 'id, 'hd, 't) store"
  assumes st: "mirrored st" and r: "handle_untyped_command E W st cmd = Some (Ret st')"
  shows "mirrored st'"
proof -
  have send: "mirrored st'" if "mirrored s" "send_sync_requests W s = Ret st'" for s
    using mirrored_moved [OF that(1) send_sync_requests_moved [OF that(2)]] .
  note moved = mirrored_moved [OF st]
  show ?thesis
  proof (cases cmd)
    case (RegisterPeers ps)
    with r have "manage_peers E W (foldl insert_known_peer st ps) = Ret st'" by (simp add: handle_untyped_command_def)
    from peers_moved_trans [OF foldl_moved [OF insert_known_moved] manage_peers_moved [OF this]] show ?thesis by (rule moved)
  next
    case (SyncWithPeer peer c)
    with r show ?thesis by (auto simp: handle_untyped_command_def intro: moved sync_with_peer_moved)
  next
    case (RegisterOutgoingPeerSyncing peer c)
    with r show ?thesis
      by (auto simp: handle_untyped_command_def update_peer_to_syncing_outgoing_def
          intro: send [OF moved [OF status_moved(2)]])
  next
    case (RegisterIncomingPeerSyncing peer)
    with r show ?thesis
      by (auto simp: handle_untyped_command_def update_peer_to_syncing_incoming_def intro: moved status_moved(2))
  next
    case (ReceivedMetadata peer md)
    with r show ?thesis by (auto simp: handle_untyped_command_def intro: send received_metadata_mirrored [OF st])
  next
    case (ReceivedMerkleHashes peer rs hs)
    with r show ?thesis by (auto simp: handle_untyped_command_def intro: send received_merkle_mirrored [OF st])
  next
    case (ReceivedInitialStateBlocks peer rs bs)
    with r show ?thesis by (auto simp: handle_untyped_command_def intro: send received_blocks_mirrored [OF st])
  next
    case (ReceivedECGOperations peer ops)
    with r show ?thesis by (auto simp: handle_untyped_command_def intro: send received_operations_mirrored)
  qed (use r in \<open>auto simp: handle_untyped_command_def intro: mirrored_silent [OF st] serve_silent\<close>)
qed

lemma run_command_mirrored:
  fixes st :: "('h, 'd :: linorder, 'g, 'id, 'hd, 't) store"
  assumes "mirrored st" and "run_command E st c = Some (Ret st')"
  shows "mirrored st'"
  using assms untyped_command_mirrored store_command_mirrored
  by (auto simp: run_command_def split: prod.splits command.splits)

text \<open>C16. A hook shows its store: whatever commands a store has handled from its start, everyone who has
  subscribed to its state holds, once it has read what it was sent, the state and the graph of the
  store, whenever the store is synchronising.\<close>

theorem hook_shows_store:
  assumes "listeners st0 = []" and "run_handler E st0 cmds = Some (Ret st)"
    and "l \<in> set (listeners st)" and "state_machine st = SyncingStore md t init ecg ds"
  shows "store_future (updates l (outbox st)) = Some \<lparr>ss_state = latest_state ds, ss_ecg = ecg\<rparr>"
proof -
  have "mirrored st"
  proof (rule foldL_returned [where I = mirrored])
    show "foldL (run_command E) st0 cmds = Some (Ret st)" using assms(2) by (simp add: run_handler_def)
    show "mirrored st0" using assms(1) by (simp add: mirrored_def)
  qed (rule run_command_mirrored)
  with assms(3,4) show ?thesis by (simp add: mirrored_def view_def)
qed

section \<open>Operations applied through a hook\<close>

lemma tips_above:
  assumes ok: "ecg_ok D dag_ok H st" and h: "h \<in> dom (node_info_map st)"
  shows "\<exists>t \<in> tips st. (h, t) \<in> (parent_rel H (node_info_map st))\<^sup>*"
proof -
  let ?r = "parent_rel H (node_info_map st)"
  have m: "map_ok H (node_info_map st)" and tips: "tips st = {h \<in> dom (node_info_map st). \<forall>c. (h, c) \<notin> ?r}"
    using ok by (simp_all add: ecg_ok_def)
  have "?r \<subseteq> dom (node_info_map st) \<times> dom (node_info_map st)" using parent_rel_dom [OF m] by auto
  then have "finite ?r" by (rule finite_subset) (use m in \<open>simp add: map_ok_def\<close>)
  then have "wf (?r\<inverse>)" using m by (intro finite_acyclic_wf_converse) (simp_all add: map_ok_def)
  then show ?thesis using h
  proof (induction h rule: wf_induct_rule)
    case (less h)
    show ?case
    proof (cases "h \<in> tips st")
      case False
      with less.prems tips obtain c where c: "(h, c) \<in> ?r" by blast
      with parent_rel_dom [OF m] have "c \<in> dom (node_info_map st)" by blast
      with less.IH c obtain t where "t \<in> tips st" "(c, t) \<in> ?r\<^sup>*" by auto
      with c show ?thesis by (meson converse_rtrancl_into_rtrancl)
    qed blast
  qed
qed

lemma parent_rel_mono:
  assumes "\<And>h d. get_header st h = Some d \<Longrightarrow> get_header st' h = Some d"
  shows "parent_rel H (node_info_map st) \<subseteq> parent_rel H (node_info_map st')"
  using assms unfolding parent_rel_of_headers by blast

lemma apply_with_parents_Ret:
  "apply_with_parents get_hash tmp_hash True rnd parents op =
     (let body = \<lparr>body_operations = [op (Current 0)]\<rparr>;
          header = \<lparr>nonce = rnd, parent_ids = sorted_list_of_set parents, operations_count = 1, operations_hash = get_hash body\<rparr>
      in Ret (OperationId (Some (tmp_hash header)) 0, Apply header body))"
  by (simp add: apply_with_parents_def apply_one_def apply_batch_def new_body_def new_header_def body_operations_count_def
      max_operation_count_def current_time_def Let_def)

lemma inserted_after_tips:
  assumes D: "stable_dag D dag_ok" and seen: "ecg_ok D dag_ok H st"
    and now: "ecg_ok D dag_ok H g" "card (dom (node_info_map g)) < u64_max"
    and grown: "\<And>h d. get_header st h = Some d \<Longrightarrow> get_header g h = Some d"
    and hdr: "set (get_parent_ids H hdr) = tips st" "validate_header H hdr (get_header_id H hdr)"
      "get_header_id H hdr \<notin> dom (node_info_map g)"
  shows "\<exists>g'. insert_header D H g hdr raw = Ret (True, g') \<and> ecg_ok D dag_ok H g' \<and>
    (\<forall>a \<in> known_ops st. happens_before D g' a (OperationId (Some (get_header_id H hdr)) p) = Some (Ret True))"
proof -
  let ?x = "get_header_id H hdr" let ?id = "OperationId (Some ?x) p"
  have dom: "dom (node_info_map st) \<subseteq> dom (node_info_map g)" using grown by (fastforce simp: get_header_def)
  have tips: "tips st \<subseteq> dom (node_info_map st)" using seen by (auto simp: ecg_ok_def)
  with dom hdr have "insertable H g hdr" by (auto simp: insertable_def)
  from stable_dag.insert_header_accepted [OF D now this, of raw] obtain g' i where
    g': "insert_header D H g hdr raw = Ret (True, g')" "ecg_ok D dag_ok H g'"
    and map: "node_info_map g' = (node_info_map g)(?x \<mapsto>
       \<lparr>graph_index = i, depth = depth_from (node_info_map g) (get_parent_ids H hdr), header = hdr, operations = raw\<rparr>)"
    by blast
  have rel: "parent_rel H (node_info_map g') = parent_rel H (node_info_map g) \<union> tips st \<times> {?x}"
    unfolding map using hdr by (subst parent_rel_insert) auto
  have sub: "parent_rel H (node_info_map st) \<subseteq> parent_rel H (node_info_map g')"
    using parent_rel_mono [of st g H] grown unfolding rel by blast
  have "op_before H g' a ?id" if a: "a \<in> known_ops st" for a
  proof (cases "op_header a")
    case (Some x)
    with a have "x \<in> dom (node_info_map st)" by (simp add: known_ops_def)
    from tips_above [OF seen this] obtain t where t: "t \<in> tips st" "(x, t) \<in> (parent_rel H (node_info_map st))\<^sup>*" by blast
    from rtrancl_mono [OF sub] t(2) have "(x, t) \<in> (parent_rel H (node_info_map g'))\<^sup>*" by blast
    moreover have "(t, ?x) \<in> parent_rel H (node_info_map g')" using t(1) by (simp add: rel)
    ultimately show ?thesis using Some by (auto simp: op_before_def dest: rtrancl_into_trancl1)
  qed (simp add: op_before_def)
  moreover have "a \<in> known_ops st \<Longrightarrow> a \<in> known_ops g'" "?id \<in> known_ops g'" for a
    using dom by (auto simp: known_ops_def map)
  ultimately show ?thesis using happens_before_spec [OF D g'(2)] g' by (intro exI [of _ g']) simp
qed


section \<open>Batches\<close>

lemma queue_all_from:
  assumes "length (ob_operations b) = k" and "k \<le> 256"
  shows "queue_all b fs =
    (map (\<lambda>i. if k + i < 256 then Some (Current (of_nat (k + i))) else None) [0 ..< length fs],
     b\<lparr>ob_operations := ob_operations b @ map (\<lambda>i. (fs ! i) (Current (of_nat (k + i)))) [0 ..< min (length fs) (256 - k)]\<rparr>)"
  using assms
proof (induction fs arbitrary: b k)
  case (Cons f fs)
  show ?case
  proof (cases "k < 256")
    case True
    let ?b = "b\<lparr>ob_operations := ob_operations b @ [f (Current (of_nat k))]\<rparr>"
    have q: "queue b f = (Some (Current (of_nat k)), ?b)"
      using Cons.prems True by (simp add: queue_def max_ops_def current_time_def Let_def)
    have m: "min (length (f # fs)) (256 - k) = Suc (min (length fs) (256 - Suc k))" using True by simp
    have "length (ob_operations ?b) = Suc k" using Cons.prems by simp
    from Cons.IH [OF this] True show ?thesis
      unfolding m by (simp add: q map_upt_Suc add.left_commute del: upt_Suc)
  next
    case False
    then have q: "queue b f = (None, b)" and k: "256 - k = 0" using Cons.prems by (simp_all add: queue_def max_ops_def)
    from Cons.IH [OF Cons.prems] False show ?thesis by (simp add: q k map_upt_Suc del: upt_Suc)
  qed
qed simp

text \<open>C18. The times that \<open>queue\<close> returns name the queued operations: the \<open>i\<close>-th of a batch of at most 255 is
  the time at position \<open>i\<close> of the header that \<open>apply\<close> builds over the parents of the batch, and reading
  the body gives back the queued operations in order, each concretized at that header. A batch of
  256 is taken too, further operations are refused, and \<open>apply\<close> then panics.\<close>

theorem queued_times_name_operations:
  assumes "queue_all \<lparr>ob_parents = P, ob_operations = []\<rparr> fs = (ts, b)"
  shows "ts = map (\<lambda>i. if i < 256 then Some (Current (of_nat i)) else None) [0 ..< length fs] \<and>
    (if length fs \<le> 255
     then \<exists>hdr body. builder_apply get_hash tmp_hash True rnd b = Ret (tmp_hash hdr, Apply hdr body) \<and>
       parent_ids hdr = sorted_list_of_set P \<and> unat (operations_count hdr) = length fs \<and>
       body_iter_operations concretize body (tmp_hash hdr) =
         map (\<lambda>i. concretize ((fs ! i) (Current (of_nat i))) (tmp_hash hdr)) [0 ..< length fs] \<and>
       (\<forall>i < length fs. concretize_operation_id (Current (of_nat i)) (tmp_hash hdr) = OperationId (Some (tmp_hash hdr)) (of_nat i)) \<and>
       inj_on (\<lambda>i. of_nat i :: u8) {..< length fs}
     else builder_apply get_hash tmp_hash True rnd b = Panic ExpectFailed)"
proof -
  let ?ops = "map (\<lambda>i. (fs ! i) (Current (of_nat i))) [0 ..< min (length fs) 256]"
  from assms queue_all_from [of "\<lparr>ob_parents = P, ob_operations = []\<rparr>" 0 fs]
  have ts: "ts = map (\<lambda>i. if i < 256 then Some (Current (of_nat i)) else None) [0 ..< length fs]"
    and b: "ob_parents b = P" "ob_operations b = ?ops" by auto
  have body: "new_body ?ops = Ret \<lparr>body_operations = ?ops\<rparr>" by (simp add: new_body_def max_operation_count_def)
  show ?thesis
  proof (cases "length fs \<le> 255")
    case True
    then have n: "min (length fs) 256 = length fs" by simp
    have inj: "inj_on (\<lambda>i. of_nat i :: u8) {..< length fs}"
      using True by (intro inj_onI) (auto simp: word_of_nat_eq_iff take_bit_eq_mod)
    have count: "unat (of_nat (length fs) :: u8) = length fs" using True by (simp add: unat_of_nat take_bit_eq_mod)
    let ?hdr = "\<lparr>nonce = rnd, parent_ids = sorted_list_of_set P, operations_count = of_nat (length fs),
      operations_hash = get_hash \<lparr>body_operations = ?ops\<rparr>\<rparr>"
    have "builder_apply get_hash tmp_hash True rnd b = Ret (tmp_hash ?hdr, Apply ?hdr \<lparr>body_operations = ?ops\<rparr>)"
      unfolding builder_apply_def apply_batch_def b body
      using True by (simp add: new_header_def body_operations_count_def Let_def)
    with ts True inj count n show ?thesis
      by (auto simp: body_iter_operations_def concretize_operation_id_def comp_def intro!: exI [of _ ?hdr])
  next
    case False
    then have "length ?ops = 256" by simp
    then have "builder_apply get_hash tmp_hash True rnd b = Panic ExpectFailed"
      unfolding builder_apply_def apply_batch_def b body by (simp add: new_header_def body_operations_count_def)
    with ts False show ?thesis by simp
  qed
qed

section \<open>Witnesses\<close>

lemma demo_hook_run:
  "\<exists>st md t ecg ds. run_handler demo_ops demo_start ((demo_world, Typed (SubscribeState 9)) # demo_commands) = Some (Ret st) \<and>
     state_machine st = SyncingStore md t [1, 2, 3] ecg ds \<and> latest_state ds = [1, 2, 3, 9, 8] \<and> listeners st = [9]"
proof -
  have "case run_handler demo_ops demo_start ((demo_world, Typed (SubscribeState 9)) # demo_commands) of
      Some (Ret st) \<Rightarrow> (case state_machine st of
         SyncingStore md t bs ecg ds \<Rightarrow> bs = [1, 2, 3] \<and> latest_state ds = [1, 2, 3, 9, 8] \<and> listeners st = [9] | _ \<Rightarrow> False)
    | _ \<Rightarrow> False" by code_simp
  then show ?thesis by (auto split: option.splits res.splits state_machine.splits)
qed

theorem hook_shows_store_witness:
  "\<exists>st s. run_handler demo_ops demo_start ((demo_world, Typed (SubscribeState 9)) # demo_commands) = Some (Ret st) \<and>
     store_future (updates 9 (outbox st)) = Some s \<and> ss_state s = [1, 2, 3, 9, 8]"
proof -
  obtain st md t ecg ds where
    st: "run_handler demo_ops demo_start ((demo_world, Typed (SubscribeState 9)) # demo_commands) = Some (Ret st)"
      "state_machine st = SyncingStore md t [1, 2, 3] ecg ds" "latest_state ds = [1, 2, 3, 9, 8]" "listeners st = [9]"
    using demo_hook_run by blast
  have "listeners demo_start = []" by (simp add: demo_start_def new_downloading_def fresh_store_def)
  from hook_shows_store [OF this st(1) _ st(2), of 9] st show ?thesis by auto
qed

definition demo_tmp_hash :: "nat header_v0 \<Rightarrow> nat" where
  "demo_tmp_hash h = unat (nonce h)"

lemma demo_seen:
  "\<exists>ecg. ecg_ok list_dag list_dag_ok (header_v0_ops demo_tmp_hash) ecg \<and> dom (node_info_map ecg) = {3}"
proof -
  let ?h = "\<lparr>nonce = 3, parent_ids = [], operations_count = 1, operations_hash = 0 :: nat\<rparr>"
  let ?new = "ecg_new list_dag :: (nat list_graph, nat, nat header_v0) ecg"
  have "insertable (header_v0_ops demo_tmp_hash) ?new ?h" "card (dom (node_info_map ?new)) < u64_max"
    by (simp_all add: insertable_def header_v0_ops_def ecg_new_def u64_max_def)
  from list_dag.insert_header_accepted [OF list_dag.ecg_new_ok this(2,1), of "[]"] obtain st' i where
    "ecg_ok list_dag list_dag_ok (header_v0_ops demo_tmp_hash) st'"
    "node_info_map st' = (node_info_map ?new)(get_header_id (header_v0_ops demo_tmp_hash) ?h \<mapsto> i)" by blast
  then show ?thesis by (intro exI [of _ st']) (simp add: header_v0_ops_def demo_tmp_hash_def ecg_new_def)
qed


theorem queued_times_name_operations_witness:
  "\<exists>ts b hdr body. queue_all \<lparr>ob_parents = {5}, ob_operations = []\<rparr> [\<lambda>t. t, \<lambda>t. Time (OperationId (Some 5) 1)] = (ts, b) \<and>
     ts = [Some (Current 0), Some (Current 1)] \<and> builder_apply (\<lambda>_. 0) demo_tmp_hash True 7 b = Ret (7, Apply hdr body) \<and>
     body_iter_operations concretize_operation_id body 7 = [OperationId (Some 7) 0, OperationId (Some 5) 1]"
proof -
  let ?fs = "[\<lambda>t. t, \<lambda>t. Time (OperationId (Some 5) 1)] :: (nat operation_id causal_time \<Rightarrow> nat operation_id causal_time) list"
  obtain ts b where q: "queue_all \<lparr>ob_parents = {5}, ob_operations = []\<rparr> ?fs = (ts, b)" by force
  note * = queued_times_name_operations [OF q, of "\<lambda>_. 0" demo_tmp_hash 7 concretize_operation_id]
  from * obtain hdr body where
    a: "builder_apply (\<lambda>_. 0) demo_tmp_hash True 7 b = Ret (demo_tmp_hash hdr, Apply hdr body)"
    and ops: "body_iter_operations concretize_operation_id body (demo_tmp_hash hdr) =
      map (\<lambda>i. concretize_operation_id ((?fs ! i) (Current (of_nat i))) (demo_tmp_hash hdr)) [0 ..< length ?fs]" by auto
  from a have "nonce hdr = 7"
    by (auto simp: builder_apply_def apply_batch_def new_header_def)
  then have 7: "demo_tmp_hash hdr = 7" by (simp add: demo_tmp_hash_def)
  have "ts = [Some (Current 0), Some (Current 1)]" using * by (simp add: upt_rec)
  moreover from ops have "body_iter_operations concretize_operation_id body 7 = [OperationId (Some 7) 0, OperationId (Some 5) 1]"
    unfolding 7 by (simp add: upt_rec concretize_operation_id_def)
  ultimately show ?thesis using q a unfolding 7 by blast
qed

end
