(* ===== verification/Serde.thy ===== *)
theory Serde
  imports EcgTime Crdt
begin

text \<open>
  The serde instances that are written by hand: the body of a header in \<open>ossa-core/src/store/ecg/v0.rs\<close>
  and the two-phase map in \<open>ossa-crdt/src/map/twopmap.rs\<close>. A value is written to a format as a struct with
  named fields, and read by a visitor that a self-describing format calls with a map. What a
  format does below that, and how the fields themselves are written and read, are arguments.
\<close>

section \<open>Formats\<close>

text \<open>A struct as it is written: its name and its fields in order.\<close>

type_synonym 'v struct_value = "string \<times> (string \<times> 'v) list"

text \<open>What a format finds where a struct is expected: a map, a sequence, or something else.\<close>

datatype 'v found = FoundMap "(string \<times> 'v) list" | FoundSeq "'v list" | FoundOther

datatype de_error =
    DuplicateField string
  | MissingField string
  | UnknownField string
  | InvalidType
  | FieldError nat

text \<open>The visitors only implement \<open>visit_map\<close>; what they inherit for the rest is an error.\<close>

definition deserialize_struct :: "((string \<times> 'v) list \<Rightarrow> de_error + 'a) \<Rightarrow> 'v found \<Rightarrow> de_error + 'a" where
  "deserialize_struct visit_map v =
     (case v of FoundMap m \<Rightarrow> visit_map m | FoundSeq vs \<Rightarrow> Inl InvalidType | FoundOther \<Rightarrow> Inl InvalidType)"

text \<open>\<open>next_value()?\<close> into a field that must not be set yet, and \<open>ok_or_else(missing_field)\<close>\<close>

definition set_field :: "string \<Rightarrow> ('v \<Rightarrow> de_error + 'a) \<Rightarrow> 'a option \<Rightarrow> 'v \<Rightarrow> ('a option \<Rightarrow> de_error + 'r) \<Rightarrow> de_error + 'r" where
  "set_field name de field v k =
     (if field \<noteq> None then Inl (DuplicateField name)
      else case de v of Inl e \<Rightarrow> Inl e | Inr x \<Rightarrow> k (Some x))"

definition need_field :: "string \<Rightarrow> 'a option \<Rightarrow> ('a \<Rightarrow> de_error + 'r) \<Rightarrow> de_error + 'r" where
  "need_field name field k = (case field of None \<Rightarrow> Inl (MissingField name) | Some x \<Rightarrow> k x)"

section \<open>Bodies\<close>

definition body_serialize :: "('op list \<Rightarrow> 'v) \<Rightarrow> 'op body_v0 \<Rightarrow> 'v struct_value" where
  "body_serialize ser b = (''Body'', [(''operations'', ser (body_operations b))])"

datatype body_field = OperationsField

definition body_field_of :: "string \<Rightarrow> body_field option" where
  "body_field_of name = (if name = ''operations'' then Some OperationsField else None)"

fun body_visit_map ::
    "('v \<Rightarrow> de_error + 'op list) \<Rightarrow> 'op list option \<Rightarrow> (string \<times> 'v) list \<Rightarrow> de_error + 'op body_v0" where
  "body_visit_map de ops [] = need_field ''operations'' ops (\<lambda>ops. Inr \<lparr>body_operations = ops\<rparr>)"
| "body_visit_map de ops ((key, v) # m) =
     (case body_field_of key of
        None \<Rightarrow> Inl (UnknownField key)
      | Some OperationsField \<Rightarrow> set_field ''operations'' de ops v (\<lambda>ops. body_visit_map de ops m))"

definition body_deserialize :: "('v \<Rightarrow> de_error + 'op list) \<Rightarrow> 'v found \<Rightarrow> de_error + 'op body_v0" where
  "body_deserialize de v = deserialize_struct (body_visit_map de None) v"

section \<open>Two-phase maps\<close>

definition twop_serialize :: "('m \<Rightarrow> 'v) \<Rightarrow> ('s \<Rightarrow> 'v) \<Rightarrow> ('m, 's) twop_map \<Rightarrow> 'v struct_value" where
  "twop_serialize ser_map ser_set x =
     (''TwoPMap'', [(''map'', ser_map (entries x)), (''tombstones'', ser_set (tombstones x))])"

datatype twop_field = MapField | TombstonesField

definition twop_field_of :: "string \<Rightarrow> twop_field option" where
  "twop_field_of name =
     (if name = ''map'' then Some MapField else if name = ''tombstones'' then Some TombstonesField else None)"

fun twop_visit_map ::
    "('v \<Rightarrow> de_error + 'm) \<Rightarrow> ('v \<Rightarrow> de_error + 's) \<Rightarrow> 'm option \<Rightarrow> 's option \<Rightarrow> (string \<times> 'v) list
     \<Rightarrow> de_error + ('m, 's) twop_map" where
  "twop_visit_map de_map de_set m s [] =
     need_field ''map'' m (\<lambda>m. need_field ''tombstones'' s (\<lambda>s. Inr \<lparr>entries = m, tombstones = s\<rparr>))"
| "twop_visit_map de_map de_set m s ((key, v) # rest) =
     (case twop_field_of key of
        None \<Rightarrow> Inl (UnknownField key)
      | Some MapField \<Rightarrow> set_field ''map'' de_map m v (\<lambda>m. twop_visit_map de_map de_set m s rest)
      | Some TombstonesField \<Rightarrow> set_field ''tombstones'' de_set s v (\<lambda>s. twop_visit_map de_map de_set m s rest))"

definition twop_deserialize ::
    "('v \<Rightarrow> de_error + 'm) \<Rightarrow> ('v \<Rightarrow> de_error + 's) \<Rightarrow> 'v found \<Rightarrow> de_error + ('m, 's) twop_map" where
  "twop_deserialize de_map de_set v = deserialize_struct (twop_visit_map de_map de_set None None) v"

section \<open>What is read\<close>

lemma set_field_Inr:
  "set_field name de field v k = Inr r \<longleftrightarrow> field = None \<and> (\<exists>x. de v = Inr x \<and> k (Some x) = Inr r)"
  by (auto simp: set_field_def split: sum.split)

lemma need_field_Inr: "need_field name field k = Inr r \<longleftrightarrow> (\<exists>x. field = Some x \<and> k x = Inr r)"
  by (auto simp: need_field_def split: option.split)

lemmas field_simps_Inr = set_field_Inr need_field_Inr

lemma body_visit_Inr:
  "body_visit_map de ops m = Inr b \<longleftrightarrow>
     (case ops of
        None \<Rightarrow> \<exists>v. m = [(''operations'', v)] \<and> de v = Inr (body_operations b)
      | Some o' \<Rightarrow> m = [] \<and> body_operations b = o')"
proof (induction m arbitrary: ops)
  case Nil
  show ?case by (cases b) (auto simp: field_simps_Inr split: option.split)
next
  case (Cons p m)
  obtain k v where p: "p = (k, v)" by force
  show ?case by (auto simp: p body_field_of_def field_simps_Inr Cons.IH split: option.splits body_field.splits)
qed

lemma twop_visit_Inr:
  "twop_visit_map de_map de_set m s fs = Inr x \<longleftrightarrow>
     (case (m, s) of
        (Some m, Some s) \<Rightarrow> fs = [] \<and> x = \<lparr>entries = m, tombstones = s\<rparr>
      | (Some m, None) \<Rightarrow> \<exists>v. fs = [(''tombstones'', v)] \<and> de_set v = Inr (tombstones x) \<and> entries x = m
      | (None, Some s) \<Rightarrow> \<exists>v. fs = [(''map'', v)] \<and> de_map v = Inr (entries x) \<and> tombstones x = s
      | (None, None) \<Rightarrow> \<exists>v w. (fs = [(''map'', v), (''tombstones'', w)] \<or> fs = [(''tombstones'', w), (''map'', v)]) \<and>
          de_map v = Inr (entries x) \<and> de_set w = Inr (tombstones x))"
proof (induction fs arbitrary: m s x)
  case Nil
  show ?case by (cases x) (auto simp: field_simps_Inr split: option.split)
next
  case (Cons p fs)
  obtain k v where p: "p = (k, v)" by force
  show ?case
    by (cases m; cases s; cases x)
      (auto simp: p twop_field_of_def field_simps_Inr Cons.IH split: option.splits twop_field.splits)
qed

text \<open>C29. Bodies and two-phase maps are read exactly as they are written: a map of fields is accepted when it
  has each field once, in any order, with a value that reads, and nothing else; the value that was
  written is read back. The number of operations and the separation of keys and tombstones, which the
  rest of the code relies on, are not checked.\<close>

theorem structs_read_as_written:
  assumes "\<And>ops. de_ops (ser_ops ops) = Inr ops" and "\<And>m. de_map (ser_map m) = Inr m" and "\<And>s. de_set (ser_set s) = Inr s"
  shows "body_deserialize de_ops (FoundMap (snd (body_serialize ser_ops b))) = Inr b \<and>
    twop_deserialize de_map de_set (FoundMap (snd (twop_serialize ser_map ser_set x))) = Inr x \<and>
    (\<forall>f b. body_deserialize de_ops f = Inr b \<longleftrightarrow>
       (\<exists>v. f = FoundMap [(''operations'', v)] \<and> de_ops v = Inr (body_operations b))) \<and>
    (\<forall>f x. twop_deserialize de_map de_set f = Inr x \<longleftrightarrow>
       (\<exists>v w. (f = FoundMap [(''map'', v), (''tombstones'', w)] \<or> f = FoundMap [(''tombstones'', w), (''map'', v)]) \<and>
          de_map v = Inr (entries x) \<and> de_set w = Inr (tombstones x)))"
proof -
  have body: "body_deserialize de_ops f = Inr b \<longleftrightarrow> (\<exists>v. f = FoundMap [(''operations'', v)] \<and> de_ops v = Inr (body_operations b))"
    for f b by (cases f) (simp_all add: body_deserialize_def deserialize_struct_def body_visit_Inr)
  have twop: "twop_deserialize de_map de_set f = Inr x \<longleftrightarrow>
      (\<exists>v w. (f = FoundMap [(''map'', v), (''tombstones'', w)] \<or> f = FoundMap [(''tombstones'', w), (''map'', v)]) \<and>
          de_map v = Inr (entries x) \<and> de_set w = Inr (tombstones x))" for f x
    by (cases f) (simp_all add: twop_deserialize_def deserialize_struct_def twop_visit_Inr)
  show ?thesis unfolding body twop by (simp add: body_serialize_def twop_serialize_def assms)
qed

theorem structs_read_as_written_witness:
  "body_deserialize Inr (FoundMap (snd (body_serialize (\<lambda>ops. ops) \<lparr>body_operations = replicate 300 (1 :: nat)\<rparr>))) =
     Inr \<lparr>body_operations = replicate 300 1\<rparr>"
  by (rule structs_read_as_written [of Inr "\<lambda>ops. ops" "Inr :: nat \<Rightarrow> _" "\<lambda>m. m" "Inr :: nat \<Rightarrow> _" "\<lambda>s. s" _
        "\<lparr>entries = 0, tombstones = 0\<rparr>", THEN conjunct1]) simp_all

end
