(* ===== verification/HashText.thy ===== *)
theory HashText
  imports Prelude
begin

text \<open>
  Store ids as text: how \<open>Sha256Hash\<close> of \<open>ossa-core/src/util.rs\<close> is shown and parsed. A hash is 32 bytes
  and text is its UTF-8 bytes. The crates \<open>hex\<close> and \<open>bs58\<close> are arguments: \<open>hex s\<close> and \<open>bs58 s\<close> decode a text or
  give an error, \<open>enc\<close> encodes in base 58.
\<close>

section \<open>Showing\<close>

text \<open>\<open>{:02X}\<close>\<close>

definition hex_digit :: "nat \<Rightarrow> u8" where
  "hex_digit n = (if n < 10 then of_nat (48 + n) else of_nat (55 + n))"

definition hex_byte :: "u8 \<Rightarrow> bytes" where
  "hex_byte b = [hex_digit (unat b div 16), hex_digit (unat b mod 16)]"

text \<open>\<open>Debug\<close> writes \<open>0x\<close> first; \<open>Display\<close> is base 58.\<close>

definition hash_debug :: "bytes \<Rightarrow> bytes" where
  "hash_debug h = [48, 120] @ concat (map hex_byte h)"

definition hash_display :: "(bytes \<Rightarrow> bytes) \<Rightarrow> bytes \<Rightarrow> bytes" where
  "hash_display enc h = enc h"

section \<open>Parsing\<close>

datatype ('b, 'x) hash_parse_error = Base58 'b | Hex 'x

definition is_char_boundary :: "bytes \<Rightarrow> nat \<Rightarrow> bool" where
  "is_char_boundary s i = (i = 0 \<or> i = length s \<or> i < length s \<and> \<not> (128 \<le> s ! i \<and> s ! i < 192))"

text \<open>\<open>&s[i..]\<close>\<close>

definition str_from :: "bytes \<Rightarrow> nat \<Rightarrow> bytes res" where
  "str_from s i = (if is_char_boundary s i then Ret (drop i s) else Panic IndexOutOfBounds)"

definition map_err :: "('e \<Rightarrow> 'f) \<Rightarrow> 'e + 'a \<Rightarrow> 'f + 'a" where
  "map_err f r = (case r of Inl e \<Rightarrow> Inl (f e) | Inr x \<Rightarrow> Inr x)"

text \<open>Decoding into a buffer overwrites its start; it fails when the buffer is too small.\<close>

definition bs58_onto :: "(bytes \<Rightarrow> 'b + bytes) \<Rightarrow> 'b \<Rightarrow> bytes \<Rightarrow> bytes \<Rightarrow> 'b + bytes" where
  "bs58_onto bs58 too_small s buf =
     (case bs58 s of
        Inl e \<Rightarrow> Inl e
      | Inr bs \<Rightarrow> if length buf < length bs then Inl too_small else Inr (bs @ drop (length bs) buf))"

definition hash_from_str ::
    "(bytes \<Rightarrow> 'x + bytes) \<Rightarrow> (bytes \<Rightarrow> 'b + bytes) \<Rightarrow> 'b \<Rightarrow> bytes \<Rightarrow> (('b, 'x) hash_parse_error + bytes) res" where
  "hash_from_str hex bs58 too_small s =
     (if length s = 66 then bindR (str_from s 2) (\<lambda>s. Ret (map_err Hex (hex s)))
      else if length s = 64 then Ret (map_err Hex (hex s))
      else Ret (map_err Base58 (bs58_onto bs58 too_small s (replicate 32 0))))"

section \<open>Properties\<close>

lemma length_hex_bytes: "length (concat (map hex_byte h)) = 2 * length h"
  by (induction h) (simp_all add: hex_byte_def)

lemma hex_digit_ascii: "n < 16 \<Longrightarrow> hex_digit n < 128"
proof -
  have "\<forall>n \<in> {..< 16}. hex_digit n < 128" by code_simp
  then show "n < 16 \<Longrightarrow> ?thesis" by simp
qed

lemma debug_boundary:
  assumes "h \<noteq> []"
  shows "is_char_boundary (hash_debug h) 2"
proof -
  obtain b bs where h: "h = b # bs" using assms by (cases h) auto
  have "unat b div 16 < 16" using unsigned_less [of b, where ?'a = nat] by simp
  moreover have "hash_debug h ! 2 = hex_digit (unat b div 16)"
    by (simp add: hash_debug_def h hex_byte_def numeral_2_eq_2)
  ultimately have "hash_debug h ! 2 < 128" using hex_digit_ascii by metis
  moreover have "2 < length (hash_debug h)" by (simp add: hash_debug_def h hex_byte_def)
  ultimately show ?thesis by (auto simp: is_char_boundary_def not_le)
qed

text \<open>C30. An id that is shown parses back, in each of its forms: as it is debugged, the same without \<open>0x\<close>, and as
  it is displayed. But more parses than is shown: a text in base 58 for fewer than 32 bytes, the
  empty one included, is taken for an id that ends in zeros, and the two characters before 64
  hexadecimal digits may be anything.\<close>

theorem shown_ids_parse:
  assumes hex: "\<And>h. length h = 32 \<Longrightarrow> hex (concat (map hex_byte h)) = Inr h"
    and bs58: "\<And>h. length h = 32 \<Longrightarrow> bs58 (enc h) = Inr h \<and> length (enc h) \<le> 44"
    and h: "length h = 32"
  shows "hash_from_str hex bs58 e (hash_debug h) = Ret (Inr h) \<and>
    hash_from_str hex bs58 e (concat (map hex_byte h)) = Ret (Inr h) \<and>
    hash_from_str hex bs58 e (hash_display enc h) = Ret (Inr h) \<and>
    (\<forall>s bs. bs58 s = Inr bs \<and> length s < 64 \<and> length bs \<le> 32 \<longrightarrow>
       hash_from_str hex bs58 e s = Ret (Inr (bs @ replicate (32 - length bs) 0))) \<and>
    (\<forall>a b. a < 128 \<and> b < 128 \<longrightarrow> hash_from_str hex bs58 e ([a, b] @ concat (map hex_byte h)) = Ret (Inr h))"
proof -
  have "h \<noteq> []" using h by auto
  note boundary = debug_boundary [OF this]
  have any: "hash_from_str hex bs58 e ([a, b] @ concat (map hex_byte h)) = Ret (Inr h)" for a b
  proof -
    have "is_char_boundary ([a, b] @ concat (map hex_byte h)) 2"
      using boundary by (simp add: is_char_boundary_def hash_debug_def)
    then show ?thesis using hex [OF h] h by (simp add: hash_from_str_def str_from_def length_hex_bytes map_err_def)
  qed
  from any [of 48 120] have "hash_from_str hex bs58 e (hash_debug h) = Ret (Inr h)" by (simp add: hash_debug_def)
  moreover have "hash_from_str hex bs58 e (concat (map hex_byte h)) = Ret (Inr h)"
    using hex [OF h] h by (simp add: hash_from_str_def length_hex_bytes map_err_def)
  moreover have "hash_from_str hex bs58 e (hash_display enc h) = Ret (Inr h)"
    using bs58 [OF h] h by (simp add: hash_from_str_def hash_display_def bs58_onto_def map_err_def)
  ultimately show ?thesis using any by (simp add: hash_from_str_def bs58_onto_def map_err_def)
qed

text \<open>For the witness: a decoder of hexadecimal digits, and bytes for base 58.\<close>

fun demo_unhex :: "bytes \<Rightarrow> bytes" where
  "demo_unhex (a # b # s) = (let v = \<lambda>c. if c < 58 then c - 48 else c - 55 in (16 * v a + v b) # demo_unhex s)"
| "demo_unhex _ = []"

lemma hex_digit_value: "n < 16 \<Longrightarrow> (if hex_digit n < 58 then hex_digit n - 48 else hex_digit n - 55) = of_nat n"
proof -
  have "\<forall>n \<in> {..< 16}. (if hex_digit n < 58 then hex_digit n - 48 else hex_digit n - 55) = of_nat n" by code_simp
  then show "n < 16 \<Longrightarrow> ?thesis" by simp
qed

lemma demo_unhex_hex: "demo_unhex (concat (map hex_byte h)) = h"
proof (induction h)
  case (Cons b h)
  have "unat b div 16 < 16" using unsigned_less [of b, where ?'a = nat] by simp
  then have "16 * of_nat (unat b div 16) + of_nat (unat b mod 16) = b"
    by (metis mult_div_mod_eq of_nat_add of_nat_mult of_nat_numeral of_nat_unat ucast_id)
  with Cons show ?case
    using hex_digit_value [of "unat b div 16"] hex_digit_value [of "unat b mod 16"] \<open>unat b div 16 < 16\<close>
    by (simp add: hex_byte_def Let_def)
qed simp

theorem shown_ids_parse_witness:
  "hash_from_str (\<lambda>s. Inr (demo_unhex s) :: unit + bytes) (\<lambda>s. Inr s :: unit + bytes) () (hash_debug (replicate 32 171)) = Ret (Inr (replicate 32 171)) \<and>
   hash_from_str (\<lambda>s. Inr (demo_unhex s) :: unit + bytes) (\<lambda>s. Inr s :: unit + bytes) () [] = Ret (Inr (replicate 32 0))"
proof -
  note * = shown_ids_parse [of "\<lambda>s. Inr (demo_unhex s) :: unit + bytes" "\<lambda>s. Inr s :: unit + bytes" "\<lambda>h. h" "replicate 32 171" "()"]
  have debug: "hash_from_str (\<lambda>s. Inr (demo_unhex s) :: unit + bytes) (\<lambda>s. Inr s :: unit + bytes) () (hash_debug (replicate 32 171)) = Ret (Inr (replicate 32 171))"
    and short: "\<forall>s bs. (Inr s :: unit + bytes) = Inr bs \<and> length s < 64 \<and> length bs \<le> 32 \<longrightarrow>
      hash_from_str (\<lambda>s. Inr (demo_unhex s) :: unit + bytes) (\<lambda>s. Inr s :: unit + bytes) () s = Ret (Inr (bs @ replicate (32 - length bs) 0))"
    using * by (simp_all add: demo_unhex_hex)
  from debug short [rule_format, of "[]" "[]"] show ?thesis by simp
qed

end
