(* ===== verification/Streams.thy ===== *)
theory Streams
  imports Multiplexer NetProtocol
begin

text \<open>
  Typed messages over byte channels: \<open>MuxStream\<close> of \<open>ossa-core/src/network/multiplexer.rs\<close>, between a protocol
  and the multiplexer, and \<open>TypedStream\<close> of \<open>ossa-core/src/util.rs\<close>, between the handshake and its connection.
  Both serialize what is sent and parse what arrives, and pass on polls.

  The serializer and the channels are arguments: \<open>codec\<close>, a sink as the record \<open>sink_ops\<close> of its polls, and a
  source as its \<open>poll_next\<close>. The locale \<open>channel\<close> states what sending relies on; it is interpreted on a bounded
  queue.
\<close>

section \<open>Polls\<close>

datatype 'a poll = Ready 'a | Pending

fun map_ready :: "('a \<Rightarrow> 'b) \<Rightarrow> 'a poll \<Rightarrow> 'b poll" where
  "map_ready f (Ready x) = Ready (f x)"
| "map_ready f Pending = Pending"

record 'm codec =
  to_vec :: "'m \<Rightarrow> bytes option"
  from_slice :: "bytes \<Rightarrow> 'm option"

text \<open>The polls of a sink say whether it is fine; \<open>False\<close> is an error.\<close>

record ('c, 'x) sink_ops =
  sink_ready :: "'c \<Rightarrow> bool poll \<times> 'c"
  sink_start :: "'c \<Rightarrow> 'x \<Rightarrow> bool \<times> 'c"
  sink_flush :: "'c \<Rightarrow> bool poll \<times> 'c"
  sink_close :: "'c \<Rightarrow> bool poll \<times> 'c"

definition or_error :: "protocol_error \<Rightarrow> bool \<Rightarrow> protocol_error + unit" where
  "or_error e ok = (if ok then Inr () else Inl e)"

definition parse :: "'m codec \<Rightarrow> bytes \<Rightarrow> protocol_error + 'm" where
  "parse K bs = (case from_slice K bs of None \<Rightarrow> Inl DeserializationError | Some m \<Rightarrow> Inr m)"

section \<open>Streams of the multiplexer\<close>

record ('c, 'r) mux_stream =
  mx_stream_id :: stream_id
  mx_sender :: 'c
  mx_receiver :: 'r

definition mux_stream_new :: "stream_id \<Rightarrow> 'c \<Rightarrow> 'r \<Rightarrow> ('c, 'r) mux_stream" where
  "mux_stream_new i c r = \<lparr>mx_stream_id = i, mx_sender = c, mx_receiver = r\<rparr>"

definition mux_poll_next ::
    "'m codec \<Rightarrow> ('r \<Rightarrow> bytes option poll \<times> 'r) \<Rightarrow> ('c, 'r) mux_stream
     \<Rightarrow> (protocol_error + 'm) option poll \<times> ('c, 'r) mux_stream" where
  "mux_poll_next K next s =
     (case next (mx_receiver s) of (p, r) \<Rightarrow> (map_ready (map_option (parse K)) p, s\<lparr>mx_receiver := r\<rparr>))"

definition mux_poll ::
    "('c \<Rightarrow> bool poll \<times> 'c) \<Rightarrow> ('c, 'r) mux_stream \<Rightarrow> (protocol_error + unit) poll \<times> ('c, 'r) mux_stream" where
  "mux_poll f s = (case f (mx_sender s) of (p, c) \<Rightarrow> (map_ready (or_error ChannelSendError) p, s\<lparr>mx_sender := c\<rparr>))"

definition mux_poll_ready ::
    "('c, stream_id \<times> bytes) sink_ops \<Rightarrow> ('c, 'r) mux_stream \<Rightarrow> (protocol_error + unit) poll \<times> ('c, 'r) mux_stream" where
  "mux_poll_ready S s = mux_poll (sink_ready S) s"

definition mux_start_send ::
    "'m codec \<Rightarrow> ('c, stream_id \<times> bytes) sink_ops \<Rightarrow> ('c, 'r) mux_stream \<Rightarrow> 'm
     \<Rightarrow> (protocol_error + unit) \<times> ('c, 'r) mux_stream" where
  "mux_start_send K S s x =
     (case to_vec K x of
        None \<Rightarrow> (Inl SerializationError, s)
      | Some cbor \<Rightarrow>
          (case sink_start S (mx_sender s) (mx_stream_id s, cbor) of
             (ok, c) \<Rightarrow> (or_error ChannelSendError ok, s\<lparr>mx_sender := c\<rparr>)))"

definition mux_poll_flush ::
    "('c, stream_id \<times> bytes) sink_ops \<Rightarrow> ('c, 'r) mux_stream \<Rightarrow> (protocol_error + unit) poll \<times> ('c, 'r) mux_stream" where
  "mux_poll_flush S s = mux_poll (sink_flush S) s"

definition mux_poll_close ::
    "('c, stream_id \<times> bytes) sink_ops \<Rightarrow> ('c, 'r) mux_stream \<Rightarrow> (protocol_error + unit) poll \<times> ('c, 'r) mux_stream" where
  "mux_poll_close S s = mux_poll (sink_close S) s"

section \<open>Streams of a connection\<close>

text \<open>\<open>TypedStream\<close>: one inner stream both ways, its items bytes or an error.\<close>

definition typed_poll_next ::
    "'m codec \<Rightarrow> ('s \<Rightarrow> (unit + bytes) option poll \<times> 's) \<Rightarrow> 's \<Rightarrow> (protocol_error + 'm) option poll \<times> 's" where
  "typed_poll_next K next s =
     (case next s of
        (p, s) \<Rightarrow> (map_ready (map_option (\<lambda>t. case t of Inr bs \<Rightarrow> parse K bs | Inl _ \<Rightarrow> Inl StreamReceiveError)) p, s))"

definition typed_poll :: "('s \<Rightarrow> bool poll \<times> 's) \<Rightarrow> 's \<Rightarrow> (protocol_error + unit) poll \<times> 's" where
  "typed_poll f s = (case f s of (p, s) \<Rightarrow> (map_ready (or_error StreamSendError) p, s))"

definition typed_poll_ready :: "('s, bytes) sink_ops \<Rightarrow> 's \<Rightarrow> (protocol_error + unit) poll \<times> 's" where
  "typed_poll_ready S s = typed_poll (sink_ready S) s"

definition typed_start_send :: "'m codec \<Rightarrow> ('s, bytes) sink_ops \<Rightarrow> 's \<Rightarrow> 'm \<Rightarrow> (protocol_error + unit) \<times> 's" where
  "typed_start_send K S s x =
     (case to_vec K x of
        None \<Rightarrow> (Inl SerializationError, s)
      | Some cbor \<Rightarrow> (case sink_start S s cbor of (ok, s) \<Rightarrow> (or_error StreamSendError ok, s)))"

definition typed_poll_flush :: "('s, bytes) sink_ops \<Rightarrow> 's \<Rightarrow> (protocol_error + unit) poll \<times> 's" where
  "typed_poll_flush S s = typed_poll (sink_flush S) s"

definition typed_poll_close :: "('s, bytes) sink_ops \<Rightarrow> 's \<Rightarrow> (protocol_error + unit) poll \<times> 's" where
  "typed_poll_close S s = typed_poll (sink_close S) s"

section \<open>Sending a message\<close>

text \<open>
  \<open>stream.send(x).await\<close>: ready, start, flush. A task that has to wait is polled again after others have
  run, which is \<open>others\<close>; the fuel bounds how often. \<open>None\<close> is a send that still waits.
\<close>

fun poll_until :: "nat \<Rightarrow> ('s \<Rightarrow> 's) \<Rightarrow> ('s \<Rightarrow> 'a poll \<times> 's) \<Rightarrow> 's \<Rightarrow> ('a \<times> 's) option" where
  "poll_until 0 others f s = None"
| "poll_until (Suc n) others f s =
     (case f s of (Ready x, s) \<Rightarrow> Some (x, s) | (Pending, s) \<Rightarrow> poll_until n others f (others s))"

definition send_await ::
    "nat \<Rightarrow> ('s \<Rightarrow> 's) \<Rightarrow> ('s \<Rightarrow> (protocol_error + unit) poll \<times> 's) \<Rightarrow> ('s \<Rightarrow> 'm \<Rightarrow> (protocol_error + unit) \<times> 's)
     \<Rightarrow> ('s \<Rightarrow> (protocol_error + unit) poll \<times> 's) \<Rightarrow> 's \<Rightarrow> 'm \<Rightarrow> ((protocol_error + unit) \<times> 's) option" where
  "send_await n others ready start flush s x =
     (case poll_until n others ready s of
        None \<Rightarrow> None
      | Some (Inl e, s) \<Rightarrow> Some (Inl e, s)
      | Some (Inr _, s) \<Rightarrow>
          (case start s x of
             (Inl e, s) \<Rightarrow> Some (Inl e, s)
           | (Inr _, s) \<Rightarrow> poll_until n others flush s))"

definition mux_send ::
    "nat \<Rightarrow> ('c \<Rightarrow> 'c) \<Rightarrow> 'm codec \<Rightarrow> ('c, stream_id \<times> bytes) sink_ops \<Rightarrow> ('c, 'r) mux_stream \<Rightarrow> 'm
     \<Rightarrow> ((protocol_error + unit) \<times> ('c, 'r) mux_stream) option" where
  "mux_send n others K S s x =
     send_await n (\<lambda>s. s\<lparr>mx_sender := others (mx_sender s)\<rparr>)
       (mux_poll_ready S) (mux_start_send K S) (mux_poll_flush S) s x"

text \<open>Messages sent one after the other, up to the first error, and \<open>n\<close> polls for what has arrived.\<close>

fun mux_send_all ::
    "nat \<Rightarrow> ('c \<Rightarrow> 'c) \<Rightarrow> 'm codec \<Rightarrow> ('c, stream_id \<times> bytes) sink_ops \<Rightarrow> ('c, 'r) mux_stream \<Rightarrow> 'm list
     \<Rightarrow> ((protocol_error + unit) \<times> ('c, 'r) mux_stream) option" where
  "mux_send_all n others K S s [] = Some (Inr (), s)"
| "mux_send_all n others K S s (x # xs) =
     (case mux_send n others K S s x of
        None \<Rightarrow> None
      | Some (Inl e, s) \<Rightarrow> Some (Inl e, s)
      | Some (Inr _, s) \<Rightarrow> mux_send_all n others K S s xs)"

fun mux_receive ::
    "nat \<Rightarrow> 'm codec \<Rightarrow> ('r \<Rightarrow> bytes option poll \<times> 'r) \<Rightarrow> ('c, 'r) mux_stream \<Rightarrow> (protocol_error + 'm) list" where
  "mux_receive 0 K next s = []"
| "mux_receive (Suc n) K next s =
     (case mux_poll_next K next s of (Ready (Some m), s) \<Rightarrow> m # mux_receive n K next s | _ \<Rightarrow> [])"

section \<open>What sending relies on\<close>

locale channel =
  fixes S :: "('c, stream_id \<times> bytes) sink_ops" and sent :: "'c \<Rightarrow> (stream_id \<times> bytes) list"
  assumes ready_sent: "sink_ready S c = (p, c') \<Longrightarrow> sent c' = sent c"
    and start_sent: "sink_start S c x = (True, c') \<Longrightarrow> sent c' = sent c @ [x]"
    and flush_sent: "sink_flush S c = (p, c') \<Longrightarrow> sent c' = sent c"
begin

lemma poll_until_sent:
  assumes "\<And>c p c'. f c = (p, c') \<Longrightarrow> sent c' = sent c" and "\<And>c. sent (others c) = sent c"
    and "poll_until n (\<lambda>s. s\<lparr>mx_sender := others (mx_sender s)\<rparr>) (mux_poll f) s = Some (x, s')"
  shows "sent (mx_sender s') = sent (mx_sender s) \<and> mx_stream_id s' = mx_stream_id s \<and> mx_receiver s' = mx_receiver s"
  using assms(3)
proof (induction n arbitrary: s)
  case (Suc n)
  obtain p c where f: "f (mx_sender s) = (p, c)" by force
  show ?case
  proof (cases p)
    case (Ready y)
    with Suc.prems f assms(1) [OF f] show ?thesis by (auto simp: mux_poll_def)
  next
    case Pending
    with f have "mux_poll f s = (Pending, s\<lparr>mx_sender := c\<rparr>)" by (simp add: mux_poll_def)
    with Suc.prems have "poll_until n (\<lambda>s. s\<lparr>mx_sender := others (mx_sender s)\<rparr>) (mux_poll f)
      (s\<lparr>mx_sender := others c\<rparr>) = Some (x, s')" by simp
    from Suc.IH [OF this] assms(1) [OF f] assms(2) show ?thesis by simp
  qed
qed simp

lemma mux_send_sent:
  fixes s :: "('c, 'r) mux_stream"
  assumes others: "\<And>c. sent (others c) = sent c" and r: "mux_send n others K S s x = Some (Inr (), s')"
  shows "\<exists>bs. to_vec K x = Some bs \<and> sent (mx_sender s') = sent (mx_sender s) @ [(mx_stream_id s, bs)] \<and>
    mx_stream_id s' = mx_stream_id s \<and> mx_receiver s' = mx_receiver s"
proof -
  let ?others = "\<lambda>s :: ('c, 'r) mux_stream. s\<lparr>mx_sender := others (mx_sender s)\<rparr>"
  from r obtain t u where t: "poll_until n ?others (mux_poll (sink_ready S)) s = Some (Inr (), t)"
    and u: "mux_start_send K S t x = (Inr (), u)" and s': "poll_until n ?others (mux_poll (sink_flush S)) u = Some (Inr (), s')"
    by (auto simp: mux_send_def send_await_def mux_poll_ready_def [abs_def] mux_poll_flush_def [abs_def]
        split: option.splits sum.splits prod.splits)
  note a = poll_until_sent [OF ready_sent others t] and b = poll_until_sent [OF flush_sent others s']
  from u obtain bs c where "to_vec K x = Some bs" "sink_start S (mx_sender t) (mx_stream_id t, bs) = (True, c)" "u = t\<lparr>mx_sender := c\<rparr>"
    by (auto simp: mux_start_send_def or_error_def split: option.splits prod.splits if_splits)
  with a b start_sent [OF this(2)] show ?thesis by auto
qed

lemma mux_send_all_sent:
  fixes s :: "('c, 'r) mux_stream"
  assumes others: "\<And>c. sent (others c) = sent c" and "mux_send_all n others K S s ms = Some (Inr (), s')"
  shows "\<exists>bss. map (to_vec K) ms = map Some bss \<and> sent (mx_sender s') = sent (mx_sender s) @ map (Pair (mx_stream_id s)) bss"
  using assms(2)
proof (induction ms arbitrary: s)
  case (Cons m ms)
  then obtain t where t: "mux_send n others K S s m = Some (Inr (), t)" "mux_send_all n others K S t ms = Some (Inr (), s')"
    by (auto split: option.splits sum.splits)
  from mux_send_sent [OF others t(1)] obtain bs where bs: "to_vec K m = Some bs"
    "sent (mx_sender t) = sent (mx_sender s) @ [(mx_stream_id s, bs)]" "mx_stream_id t = mx_stream_id s" by blast
  from Cons.IH [OF t(2)] obtain bss where "map (to_vec K) ms = map Some bss"
    "sent (mx_sender s') = sent (mx_sender t) @ map (Pair (mx_stream_id t)) bss" by blast
  with bs show ?case by (intro exI [of _ "bs # bss"]) simp
qed simp

end

section \<open>A bounded queue\<close>

text \<open>All that was sent, how much of it was taken, and how much fits at once.\<close>

record 'x queue =
  q_items :: "'x list"
  q_taken :: nat
  q_capacity :: nat
  q_open :: bool

definition queue_new :: "nat \<Rightarrow> 'x queue" where
  "queue_new capacity = \<lparr>q_items = [], q_taken = 0, q_capacity = capacity, q_open = True\<rparr>"

definition queue_take :: "'x queue \<Rightarrow> 'x queue" where
  "queue_take q = (if q_taken q < length (q_items q) then q\<lparr>q_taken := Suc (q_taken q)\<rparr> else q)"

definition queue_ops :: "('x queue, 'x) sink_ops" where
  "queue_ops =
     \<lparr>sink_ready = (\<lambda>q. (if \<not> q_open q then Ready False
                     else if length (q_items q) - q_taken q < q_capacity q then Ready True else Pending, q)),
      sink_start = (\<lambda>q x. if q_open q \<and> length (q_items q) - q_taken q < q_capacity q
                     then (True, q\<lparr>q_items := q_items q @ [x]\<rparr>) else (False, q)),
      sink_flush = (\<lambda>q. (Ready True, q)),
      sink_close = (\<lambda>q. (Ready True, q\<lparr>q_open := False\<rparr>))\<rparr>"

interpretation queue: channel queue_ops q_items
  by unfold_locales (auto simp: queue_ops_def split: if_splits)

lemma queue_take_items: "q_items (queue_take q) = q_items q"
  by (simp add: queue_take_def)

text \<open>While others take what was sent, sending to an open queue returns.\<close>

lemma queue_send_returns:
  assumes "q_open (mx_sender s)" and "q_taken (mx_sender s) \<le> length (q_items (mx_sender s))"
    and "length (q_items (mx_sender s)) - q_taken (mx_sender s) \<le> q_capacity (mx_sender s)" and "0 < q_capacity (mx_sender s)"
    and "to_vec K x = Some bs"
  shows "\<exists>s'. mux_send 2 queue_take K queue_ops s x = Some (Inr (), s') \<and> q_open (mx_sender s') \<and>
    q_taken (mx_sender s') \<le> length (q_items (mx_sender s')) \<and> q_capacity (mx_sender s') = q_capacity (mx_sender s) \<and>
    length (q_items (mx_sender s')) - q_taken (mx_sender s') \<le> q_capacity (mx_sender s')"
proof (cases "length (q_items (mx_sender s)) - q_taken (mx_sender s) < q_capacity (mx_sender s)")
  case True
  with assms show ?thesis
    by (simp add: mux_send_def send_await_def mux_poll_ready_def mux_poll_flush_def mux_poll_def mux_start_send_def
        queue_ops_def or_error_def numeral_2_eq_2)
next
  case False
  with assms have "q_taken (mx_sender s) < length (q_items (mx_sender s))"
    "length (q_items (mx_sender s)) - Suc (q_taken (mx_sender s)) < q_capacity (mx_sender s)" by linarith+
  with False assms show ?thesis
    by (simp add: mux_send_def send_await_def mux_poll_ready_def mux_poll_flush_def mux_poll_def mux_start_send_def
        queue_ops_def or_error_def numeral_2_eq_2 queue_take_def)
qed

lemma queue_send_all_returns:
  assumes "\<forall>m \<in> set ms. to_vec K m \<noteq> None"
    and "q_open (mx_sender s)" and "q_taken (mx_sender s) \<le> length (q_items (mx_sender s))"
    and "length (q_items (mx_sender s)) - q_taken (mx_sender s) \<le> q_capacity (mx_sender s)" and "0 < q_capacity (mx_sender s)"
  shows "\<exists>s'. mux_send_all 2 queue_take K queue_ops s ms = Some (Inr (), s')"
  using assms
proof (induction ms arbitrary: s)
  case (Cons m ms)
  obtain bs where "to_vec K m = Some bs" using Cons.prems(1) by auto
  from queue_send_returns [OF Cons.prems(2-) this] obtain t where
    t: "mux_send 2 queue_take K queue_ops s m = Some (Inr (), t)" "q_open (mx_sender t)"
      "q_taken (mx_sender t) \<le> length (q_items (mx_sender t))" "q_capacity (mx_sender t) = q_capacity (mx_sender s)"
      "length (q_items (mx_sender t)) - q_taken (mx_sender t) \<le> q_capacity (mx_sender t)" by blast
  with Cons.prems(1,5) Cons.IH [of t] show ?case by simp
qed simp

section \<open>Messages cross a connection\<close>

lemma mux_sends_return:
  assumes "\<forall>(i, m) \<in> set msgs. length m < 2 ^ 32"
  shows "\<exists>s' bs. mux_run p alive s (map (\<lambda>(i, m). Outgoing i m) msgs) = Ret s' \<and> written s' = written s @ bs"
  using assms
proof (induction msgs arbitrary: s)
  case Nil
  show ?case by simp
next
  case (Cons im msgs)
  obtain i m where im: "im = (i, m)" by force
  with Cons.prems obtain bs where turn: "mux_turn p alive s (Outgoing i m) = Ret (s\<lparr>written := written s @ bs\<rparr>)"
    by (simp add: mux_turn_def frame_def)
  from Cons.IH [of "s\<lparr>written := written s @ bs\<rparr>"] Cons.prems obtain s' cs where
    "mux_run p alive (s\<lparr>written := written s @ bs\<rparr>) (map (\<lambda>(i, m). Outgoing i m) msgs) = Ret s'"
    "written s' = written s @ bs @ cs" by auto
  with turn show ?case by (auto simp: im mux_run_Cons)
qed

text \<open>The receiving end of a channel that holds some messages.\<close>

definition list_next :: "bytes list \<Rightarrow> bytes option poll \<times> bytes list" where
  "list_next bss = (case bss of [] \<Rightarrow> (Pending, []) | bs # bss \<Rightarrow> (Ready (Some bs), bss))"

lemma mux_receive_list:
  assumes "\<forall>m \<in> set ms. \<forall>bs. to_vec K m = Some bs \<longrightarrow> from_slice K bs = Some m" and "map (to_vec K) ms = map Some bss"
  shows "mux_receive (length ms) K list_next (mux_stream_new i c bss) = map Inr ms"
  using assms
proof (induction ms arbitrary: bss)
  case (Cons m ms)
  from Cons.prems(2) obtain bs rest where bss: "bss = bs # rest" "to_vec K m = Some bs" "map (to_vec K) ms = map Some rest"
    by (cases bss) auto
  from Cons.IH [OF _ bss(3)] Cons.prems(1) bss(2) show ?case
    by (simp add: bss mux_poll_next_def list_next_def parse_def mux_stream_new_def)
qed simp

text \<open>C28. Typed messages cross a connection: sending on the stream of a protocol returns, though its channel is
  full at times, the multiplexer sends the bytes, and however the connection cuts them, the one on
  the other side hands them to the channel of the same stream, where the protocol reads the same
  messages in the same order. What is serialized must parse back and fit a frame.\<close>

theorem typed_messages_arrive:
  assumes codec: "\<forall>m \<in> set ms. \<exists>bs. to_vec K m = Some bs \<and> from_slice K bs = Some m \<and> length bs \<le> unat max_message_length"
    and capacity: "0 < capacity"
    and r: "read_state r = read_state_new" "stream_map r i = Some c" "alive c"
  shows "\<exists>a s' bytes. mux_send_all 2 queue_take K queue_ops (mux_stream_new i (queue_new capacity) rx) ms = Some (Inr (), a) \<and>
    mux_run p alive' s (map (\<lambda>(i, bs). Outgoing i bs) (q_items (mx_sender a))) = Ret s' \<and> written s' = written s @ bytes \<and>
    (\<forall>segs. concat segs = bytes \<longrightarrow>
      (\<exists>bss. mux_run q alive r (map Incoming segs) = Ret (r\<lparr>delivered := delivered r @ map (Pair c) bss\<rparr>) \<and>
        mux_receive (length ms) K list_next (mux_stream_new i tx bss) = map Inr ms))"
proof -
  have "\<forall>m \<in> set ms. to_vec K m \<noteq> None" using codec by auto
  from queue_send_all_returns [OF this, of "mux_stream_new i (queue_new capacity) rx"] capacity obtain a where
    sends: "mux_send_all 2 queue_take K queue_ops (mux_stream_new i (queue_new capacity) rx) ms = Some (Inr (), a)"
    by (auto simp: mux_stream_new_def queue_new_def)
  from queue.mux_send_all_sent [OF queue_take_items sends] obtain bss where
    bss: "map (to_vec K) ms = map Some bss" and items: "q_items (mx_sender a) = map (Pair i) bss"
    by (auto simp: mux_stream_new_def queue_new_def)
  have short: "length bs \<le> unat max_message_length" if bs: "bs \<in> set bss" for bs
  proof -
    from bs have "Some bs \<in> to_vec K ` set ms" using arg_cong [OF bss, of set] by auto
    then obtain m where "m \<in> set ms" "to_vec K m = Some bs" by auto
    with codec show ?thesis by fastforce
  qed
  then have known: "\<forall>(j, m) \<in> set (map (Pair i) bss). (\<exists>c. stream_map r j = Some c \<and> alive c) \<and> length m \<le> unat max_message_length"
    using r by auto
  have "length bs < 2 ^ 32" if "bs \<in> set bss" for bs using short [OF that] by (simp add: max_message_length_def)
  with mux_sends_return [of "map (Pair i) bss" p alive' s] obtain s' bytes where
    s': "mux_run p alive' s (map (\<lambda>(i, bs). Outgoing i bs) (map (Pair i) bss)) = Ret s'" "written s' = written s @ bytes"
    by auto
  have "mux_run q alive r (map Incoming segs) = Ret (r\<lparr>delivered := delivered r @ map (Pair c) bss\<rparr>)" if "concat segs = bytes" for segs
    using receive_all_frames [OF known s'(1) _ r(1), of segs] s'(2) that r(2) by (simp add: comp_def)
  moreover have "\<forall>m \<in> set ms. \<forall>bs. to_vec K m = Some bs \<longrightarrow> from_slice K bs = Some m" using codec by fastforce
  note mux_receive_list [OF this bss, of i tx]
  ultimately have "\<forall>segs. concat segs = bytes \<longrightarrow>
      (\<exists>bss. mux_run q alive r (map Incoming segs) = Ret (r\<lparr>delivered := delivered r @ map (Pair c) bss\<rparr>) \<and>
        mux_receive (length ms) K list_next (mux_stream_new i tx bss) = map Inr ms)" by blast
  with sends s' items show ?thesis by (intro exI [of _ a] exI [of _ s'] exI [of _ bytes]) simp
qed

text \<open>Two messages through a queue with room for one, the second longer than a read\<close>

definition demo_codec :: "bytes codec" where
  "demo_codec = \<lparr>to_vec = Some, from_slice = Some\<rparr>"

theorem typed_messages_arrive_witness:
  "\<exists>a. mux_send_all 2 queue_take demo_codec queue_ops (mux_stream_new 0 (queue_new 1) ()) [[65], [66, 67]] = Some (Inr (), a) \<and>
    q_items (mx_sender a) = [(0, [65]), (0, [66, 67])]"
proof -
  have "\<forall>m \<in> set [[65], [66, 67]]. \<exists>bs. to_vec demo_codec m = Some bs \<and> from_slice demo_codec bs = Some m \<and>
      length bs \<le> unat max_message_length"
    by (simp add: demo_codec_def max_message_length_def)
  from typed_messages_arrive [OF this, of 1 demo_mux 0 7 "\<lambda>c. True" "()" Client "\<lambda>c. True" mux_new Server "()"] obtain a where
    a: "mux_send_all 2 queue_take demo_codec queue_ops (mux_stream_new 0 (queue_new 1) ()) [[65], [66, 67]] = Some (Inr (), a)"
    by (auto simp: demo_mux_def mux_new_def)
  from queue.mux_send_all_sent [OF queue_take_items a] have "q_items (mx_sender a) = [(0, [65]), (0, [66, 67])]"
    by (auto simp: demo_codec_def mux_stream_new_def queue_new_def)
  with a show ?thesis by blast
qed

end
