(* ===== verification/HeaderSync.thy ===== *)
theory HeaderSync
  imports EcgSyncRounds
begin

text \<open>
  The first version of the header exchange, \<open>ossa-core/src/network/protocol/ecg_sync/v0\<close>, which is compiled for tests. Its
  two sides are alike: each proposes headers it has, says which of the headers the other proposed it
  knows, and sends headers the other lacks. They go on until a round has nothing in it.

  The variables that the loops of \<open>client.rs\<close> and \<open>server.rs\<close> share with \<open>mod.rs\<close> are the record \<open>sync_side\<close>.
\<close>

definition max_have :: nat where "max_have = 32"
definition max_deliver :: nat where "max_deliver = 32"

section \<open>Messages\<close>

record 'id sync_request =
  req_tip_count :: u16
  req_have :: "'id list"

record ('id, 'hd) sync_data =
  data_have :: "'id list"
  data_known :: header_bitmap
  data_headers :: "'hd list"

record ('id, 'hd) sync_response =
  resp_tip_count :: u16
  resp_sync :: "('id, 'hd) sync_data"

datatype ('id, 'hd) msg_ecg_sync =
    SyncRequest "'id sync_request"
  | SyncResponse "('id, 'hd) sync_response"
  | SyncData "('id, 'hd) sync_data"

fun try_into_sync_request :: "('id, 'hd) msg_ecg_sync \<Rightarrow> 'id sync_request option" where
  "try_into_sync_request (SyncRequest r) = Some r"
| "try_into_sync_request _ = None"

fun try_into_sync_response :: "('id, 'hd) msg_ecg_sync \<Rightarrow> ('id, 'hd) sync_response option" where
  "try_into_sync_response (SyncResponse r) = Some r"
| "try_into_sync_response _ = None"

fun try_into_sync_data :: "('id, 'hd) msg_ecg_sync \<Rightarrow> ('id, 'hd) sync_data option" where
  "try_into_sync_data (SyncData s) = Some s"
| "try_into_sync_data _ = None"

definition data_is_done :: "('id, 'hd) sync_data \<Rightarrow> bool" where
  "data_is_done m = (data_have m = [] \<and> data_headers m = [])"

definition request_is_done :: "'id sync_request \<Rightarrow> bool" where
  "request_is_done r = (req_have r = [])"

definition response_is_done :: "('id, 'hd) sync_response \<Rightarrow> bool" where
  "response_is_done r = data_is_done (resp_sync r)"

section \<open>One side\<close>

record ('g, 'id, 'hd) sync_side =
  graph :: "('g, 'id, 'hd) ecg"
  tips_remaining :: nat
  tips_of_peer :: "'id list"
  known_by_peer :: "'id set"
  to_send :: "(nat reverse \<times> 'id) list"
  to_propose :: "(bool \<times> nat \<times> 'id \<times> u64) list"
  side_haves :: "'id list"
  side_headers :: "'hd list"
  known_bitmap :: header_bitmap

text \<open>\<open>mark_as_known\<close>\<close>

partial_function (option) known_loop ::
    "('g, 'id) dag_ops \<Rightarrow> ('g, 'id, 'hd) ecg \<Rightarrow> 'id set \<Rightarrow> 'id list \<Rightarrow> 'id set res option" where
  "known_loop D st known queue =
     (case queue of
        [] \<Rightarrow> Some (Ret known)
      | header_id # rest \<Rightarrow>
          let contains = header_id \<notin> known; known' = insert header_id known in
          if \<not> contains then
            (case get_parents D st header_id of
               Some parents \<Rightarrow> known_loop D st known' (rest @ parents)
             | None \<Rightarrow> Some (Panic TodoHit))
          else known_loop D st known' rest)"

declare known_loop.simps [code]

definition mark_header_known ::
    "('g, 'id) dag_ops \<Rightarrow> ('g, 'id, 'hd) ecg \<Rightarrow> 'id set \<Rightarrow> 'id \<Rightarrow> 'id set res option" where
  "mark_header_known D st known header_id = known_loop D st known [header_id]"

partial_function (option) propose_loop ::
    "('g, 'id :: linorder) dag_ops \<Rightarrow> ('g, 'id, 'hd) ecg \<Rightarrow> 'id set \<Rightarrow> (bool \<times> nat \<times> 'id \<times> u64) list \<Rightarrow> 'id list
     \<Rightarrow> ((bool \<times> nat \<times> 'id \<times> u64) list \<times> 'id list) res option" where
  "propose_loop D st known queue hs =
     (if length hs = max_have then Some (Ret (queue, hs))
      else case heap_pop queue of
        None \<Rightarrow> Some (Ret (queue, hs))
      | Some e \<Rightarrow>
          let d = fst (snd (fst e)); h = fst (snd (snd (fst e))); distance = snd (snd (snd (fst e))) in
          if h \<in> known then propose_loop D st known (snd e) hs
          else
            let hs' = (if is_power_of_two distance \<or> d = 1 then hs @ [h] else hs) in
            case get_parents_with_depth D st h of
              None \<Rightarrow> Some (Panic TodoHit)
            | Some parents \<Rightarrow> propose_loop D st known (foldl (push_parent distance) (snd e) parents) hs')"

declare propose_loop.simps [code]

definition prepare_haves ::
    "('g, 'id :: linorder) dag_ops \<Rightarrow> ('g, 'id, 'hd) sync_side \<Rightarrow> ('g, 'id, 'hd) sync_side res option" where
  "prepare_haves D S =
     bindL (propose_loop D (graph S) (known_by_peer S) (to_propose S) []) (\<lambda>(q, hs).
     Some (Ret (S\<lparr>to_propose := q, side_haves := hs\<rparr>)))"

definition receive_have ::
    "('g, 'id) dag_ops \<Rightarrow> ('g, 'id, 'hd) ecg \<Rightarrow> 'id set \<times> header_bitmap \<Rightarrow> nat \<times> 'id \<Rightarrow> ('id set \<times> header_bitmap) res option" where
  "receive_have D st kb ih =
     (case (kb, ih) of
        ((known, bits), (i, header_id)) \<Rightarrow>
          if contains st header_id then
            bindL (mark_header_known D st known header_id) (\<lambda>known.
            bindL (Some (store_at bits i True)) (\<lambda>bits.
            Some (Ret (known, bits))))
          else Some (Ret (known, bits)))"

definition handle_received_have ::
    "('g, 'id) dag_ops \<Rightarrow> ('g, 'id, 'hd) sync_side \<Rightarrow> 'id list \<Rightarrow> ('g, 'id, 'hd) sync_side res option" where
  "handle_received_have D S have =
     (let provided_tip_c = min (tips_remaining S) (length have);
          S = S\<lparr>tips_of_peer := tips_of_peer S @ take provided_tip_c have, tips_remaining := tips_remaining S - provided_tip_c\<rparr>
      in bindL (foldL (receive_have D (graph S)) (known_by_peer S, replicate (length (known_bitmap S)) False)
                  (zip [0 ..< length have] have)) (\<lambda>(known, bits).
         Some (Ret (S\<lparr>known_by_peer := known, known_bitmap := bits\<rparr>))))"

definition handle_received_headers ::
    "('g, 'id) dag_ops \<Rightarrow> ('id, 'hd) header_ops \<Rightarrow> ('g, 'id, 'hd) ecg \<Rightarrow> 'hd list \<Rightarrow> ('g, 'id, 'hd) ecg res" where
  "handle_received_headers D H st hdrs =
     foldR (\<lambda>st hdr. bindR (insert_header D H st hdr []) (\<lambda>(_, st). Ret st)) st hdrs"

partial_function (option) headers_loop ::
    "('g, 'id :: linorder) dag_ops \<Rightarrow> ('g, 'id, 'hd) ecg \<Rightarrow> (nat reverse \<times> 'id) list \<Rightarrow> 'id set \<Rightarrow> 'hd list
     \<Rightarrow> ((nat reverse \<times> 'id) list \<times> 'id set \<times> 'hd list) res option" where
  "headers_loop D st queue known hdrs =
     (if length hdrs = max_deliver then Some (Ret (queue, known, hdrs))
      else case heap_pop queue of
        None \<Rightarrow> Some (Ret (queue, known, hdrs))
      | Some e \<Rightarrow>
          let h = snd (fst e) in
          bindL (if h \<in> known then Some (Ret (known, hdrs))
                 else case get_header st h of
                   None \<Rightarrow> Some (Panic TodoHit)
                 | Some hdr \<Rightarrow>
                     bindL (mark_header_known D st known h) (\<lambda>known. Some (Ret (known, hdrs @ [hdr])))) (\<lambda>p.
          bindL (Some (expect (get_children_with_depth D st h))) (\<lambda>children.
          headers_loop D st (heap_extend children (snd e)) (fst p) (snd p))))"

declare headers_loop.simps [code]

definition prepare_headers ::
    "('g, 'id :: linorder) dag_ops \<Rightarrow> ('g, 'id, 'hd) sync_side \<Rightarrow> ('g, 'id, 'hd) sync_side res option" where
  "prepare_headers D S =
     bindL (headers_loop D (graph S) (to_send S) (known_by_peer S) []) (\<lambda>(q, known, hdrs).
     Some (Ret (S\<lparr>to_send := q, known_by_peer := known, side_headers := hdrs\<rparr>)))"

definition receive_known ::
    "('g, 'id :: linorder) dag_ops \<Rightarrow> ('g, 'id, 'hd) ecg \<Rightarrow> header_bitmap \<Rightarrow> 'id set \<times> (nat reverse \<times> 'id) list
     \<Rightarrow> nat \<times> 'id \<Rightarrow> ('id set \<times> (nat reverse \<times> 'id) list) res option" where
  "receive_known D st bits kq ih =
     (case (kq, ih) of
        ((known, queue), (i, header_id)) \<Rightarrow>
          bindL (Some (expect (if i < length bits then Some (bits ! i) else None))) (\<lambda>they_know.
          if they_know then
            bindL (mark_header_known D st known header_id) (\<lambda>known.
            bindL (Some (expect (get_children_with_depth D st header_id))) (\<lambda>children.
            Some (Ret (known, heap_extend children queue))))
          else
            bindL (Some (expect (get_parents D st header_id))) (\<lambda>parents.
            if is_root_node st header_id \<or> list_all (\<lambda>p. p \<in> known) parents then
              bindL (Some (expect (get_header_depth st header_id))) (\<lambda>depth.
              Some (Ret (known, heap_push (Reverse depth, header_id) queue)))
            else Some (Ret (known, queue)))))"

definition handle_received_known ::
    "('g, 'id :: linorder) dag_ops \<Rightarrow> ('g, 'id, 'hd) sync_side \<Rightarrow> header_bitmap \<Rightarrow> ('g, 'id, 'hd) sync_side res option" where
  "handle_received_known D S bits =
     bindL (foldL (receive_known D (graph S) bits) (known_by_peer S, to_send S)
              (zip [0 ..< length (side_haves S)] (side_haves S))) (\<lambda>(known, queue).
     Some (Ret (S\<lparr>known_by_peer := known, to_send := queue\<rparr>)))"

definition handle_received_ecg_sync ::
    "('g, 'id :: linorder) dag_ops \<Rightarrow> ('id, 'hd) header_ops \<Rightarrow> ('g, 'id, 'hd) sync_side \<Rightarrow> ('id, 'hd) sync_data
     \<Rightarrow> ('g, 'id, 'hd) sync_side res option" where
  "handle_received_ecg_sync D H S m =
     bindL (handle_received_known D S (data_known m)) (\<lambda>S.
     bindL (Some (handle_received_headers D H (graph S) (data_headers m))) (\<lambda>st.
     bindL (handle_received_have D (S\<lparr>graph := st\<rparr>) (data_have m)) (\<lambda>S.
     bindL (prepare_headers D S) (\<lambda>S.
     prepare_haves D S))))"

section \<open>The two ends\<close>

datatype ecg_sync_error = TooManyTips

definition tip_count :: "('g, 'id, 'hd) ecg \<Rightarrow> ecg_sync_error + u16" where
  "tip_count st = (if card (tips st) < 2 ^ 16 then Inr (of_nat (card (tips st))) else Inl TooManyTips)"

definition tip_entry :: "('g, 'id, 'hd) ecg \<Rightarrow> 'id \<Rightarrow> (bool \<times> nat \<times> 'id \<times> u64) res" where
  "tip_entry st x = (case get_header_depth st x of Some d \<Rightarrow> Ret (True, d, x, 0) | None \<Rightarrow> Panic TodoHit)"

definition tip_queue :: "('g, 'id :: linorder, 'hd) ecg \<Rightarrow> (bool \<times> nat \<times> 'id \<times> u64) list res" where
  "tip_queue st = bindR (mapR (tip_entry st) (sorted_list_of_set (tips st))) (\<lambda>es. Ret (heap_extend es []))"

definition sync_message :: "('g, 'id, 'hd) sync_side \<Rightarrow> ('id, 'hd) sync_data" where
  "sync_message S = \<lparr>data_have = side_haves S, data_known = known_bitmap S, data_headers = side_headers S\<rparr>"

definition new_side :: "('g, 'id, 'hd) ecg \<Rightarrow> u16 \<Rightarrow> ('g, 'id, 'hd) sync_side" where
  "new_side st tip_c =
     \<lparr>graph = st, tips_remaining = unat tip_c, tips_of_peer = [], known_by_peer = {}, to_send = [], to_propose = [],
      side_haves = [], side_headers = [], known_bitmap = replicate max_have False\<rparr>"

definition client_turn ::
    "('g, 'id :: linorder) dag_ops \<Rightarrow> ('id, 'hd) header_ops \<Rightarrow> ('g, 'id, 'hd) sync_side \<Rightarrow> ('id, 'hd) msg_ecg_sync stream
     \<Rightarrow> (bool \<times> ('g, 'id, 'hd) sync_side \<times> ('id, 'hd) msg_ecg_sync stream) res option" where
  "client_turn D H S s =
     (let m = sync_message S in
      bindL (Some (send_expect SyncData s m)) (\<lambda>s.
      bindL (Some (receive_expect try_into_sync_data s)) (\<lambda>(received, s).
      bindL (handle_received_ecg_sync D H S received) (\<lambda>S.
      Some (Ret (data_is_done m \<and> data_is_done received, S, s))))))"

partial_function (option) client_loop ::
    "('g, 'id :: linorder) dag_ops \<Rightarrow> ('id, 'hd) header_ops \<Rightarrow> bool \<Rightarrow> ('g, 'id, 'hd) sync_side \<Rightarrow> ('id, 'hd) msg_ecg_sync stream
     \<Rightarrow> (('g, 'id, 'hd) sync_side \<times> ('id, 'hd) msg_ecg_sync stream) res option" where
  "client_loop D H finished S s =
     (if finished then Some (Ret (S, s))
      else bindL (client_turn D H S s) (\<lambda>p. client_loop D H (fst p) (fst (snd p)) (snd (snd p))))"

declare client_loop.simps [code]

definition ecg_sync_client ::
    "('g, 'id :: linorder) dag_ops \<Rightarrow> ('id, 'hd) header_ops \<Rightarrow> ('g, 'id, 'hd) ecg \<Rightarrow> ('id, 'hd) msg_ecg_sync stream
     \<Rightarrow> ((ecg_sync_error + unit) \<times> ('g, 'id, 'hd) ecg \<times> ('id, 'hd) msg_ecg_sync stream) res option" where
  "ecg_sync_client D H st s =
     (case tip_count st of
        Inl e \<Rightarrow> Some (Ret (Inl e, st, s))
      | Inr our_tips_c \<Rightarrow>
          bindL (Some (tip_queue st)) (\<lambda>queue.
          bindL (propose_loop D st {} queue []) (\<lambda>(queue, hs).
          let request = \<lparr>req_tip_count = our_tips_c, req_have = hs\<rparr> in
          bindL (Some (send_expect SyncRequest s request)) (\<lambda>s.
          bindL (Some (receive_expect try_into_sync_response s)) (\<lambda>(response, s).
          let S = new_side st (resp_tip_count response)\<lparr>to_propose := queue, side_haves := hs\<rparr> in
          bindL (handle_received_ecg_sync D H S (resp_sync response)) (\<lambda>S.
          bindL (client_loop D H (request_is_done request \<and> response_is_done response) S s) (\<lambda>(S, s).
          Some (Ret (Inr (), graph S, s)))))))))"

definition server_turn ::
    "('g, 'id :: linorder) dag_ops \<Rightarrow> ('id, 'hd) header_ops \<Rightarrow> ('g, 'id, 'hd) sync_side \<Rightarrow> ('id, 'hd) msg_ecg_sync stream
     \<Rightarrow> (bool \<times> ('g, 'id, 'hd) sync_side \<times> ('id, 'hd) msg_ecg_sync stream) res option" where
  "server_turn D H S s =
     bindL (Some (receive_expect try_into_sync_data s)) (\<lambda>(received, s).
     bindL (handle_received_ecg_sync D H S received) (\<lambda>S.
     let m = sync_message S in
     bindL (Some (send_expect SyncData s m)) (\<lambda>s.
     Some (Ret (data_is_done received \<and> data_is_done m, S, s)))))"

partial_function (option) server_loop ::
    "('g, 'id :: linorder) dag_ops \<Rightarrow> ('id, 'hd) header_ops \<Rightarrow> bool \<Rightarrow> ('g, 'id, 'hd) sync_side \<Rightarrow> ('id, 'hd) msg_ecg_sync stream
     \<Rightarrow> (('g, 'id, 'hd) sync_side \<times> ('id, 'hd) msg_ecg_sync stream) res option" where
  "server_loop D H finished S s =
     (if finished then Some (Ret (S, s))
      else bindL (server_turn D H S s) (\<lambda>p. server_loop D H (fst p) (fst (snd p)) (snd (snd p))))"

declare server_loop.simps [code]

definition ecg_sync_server ::
    "('g, 'id :: linorder) dag_ops \<Rightarrow> ('id, 'hd) header_ops \<Rightarrow> ('g, 'id, 'hd) ecg \<Rightarrow> ('id, 'hd) msg_ecg_sync stream
     \<Rightarrow> ((ecg_sync_error + unit) \<times> ('g, 'id, 'hd) ecg \<times> ('id, 'hd) msg_ecg_sync stream) res option" where
  "ecg_sync_server D H st s =
     bindL (Some (receive_expect try_into_sync_request s)) (\<lambda>(request, s).
     bindL (handle_received_have D (new_side st (req_tip_count request)) (req_have request)) (\<lambda>S.
     bindL (prepare_headers D S) (\<lambda>S.
     case tip_count st of
       Inl e \<Rightarrow> Some (Ret (Inl e, st, s))
     | Inr our_tips_c \<Rightarrow>
         bindL (Some (tip_queue st)) (\<lambda>queue.
         bindL (prepare_haves D (S\<lparr>to_propose := queue\<rparr>)) (\<lambda>S.
         let response = \<lparr>resp_tip_count = our_tips_c, resp_sync = sync_message S\<rparr> in
         bindL (Some (send_expect SyncResponse s response)) (\<lambda>s.
         bindL (server_loop D H (request_is_done request \<and> response_is_done response) S s) (\<lambda>(S, s).
         Some (Ret (Inr (), graph S, s)))))))))"

section \<open>The loops return\<close>

text \<open>Both versions mark alike, but for the panic that is never reached.\<close>

lemma known_loop_marks:
  assumes "mark_loop D st known q = Some (Ret V)"
  shows "known_loop D st known q = Some (Ret V)"
proof -
  let ?P = "\<lambda>D st known q r. \<forall>V. r = Ret V \<longrightarrow> known_loop D st known q = Some (Ret V)"
  have "?P D st known q (Ret V)"
  proof (rule mark_loop.raw_induct [where P = ?P, OF _ assms], intro allI impI, goal_cases)
    case (1 loop D st known q r V)
    then show ?case
      by (subst known_loop.simps) (auto simp: Let_def split: list.splits option.splits if_splits)
  qed
  then show ?thesis by simp
qed

context known_ecg
begin

lemma mark_header_known_ok:
  assumes "known \<subseteq> dom (node_info_map st)" and "h \<in> dom (node_info_map st)"
  shows "\<exists>k. mark_header_known D st known h = Some (Ret k) \<and> k \<subseteq> dom (node_info_map st)"
proof -
  from mark_loop_ok [of "[h]" known] assms(2) obtain V where
    V: "mark_loop D st known [h] = Some (Ret V)" "V \<subseteq> known \<union> ancestors H st {h}" by auto
  then have "V \<subseteq> dom (node_info_map st)" using assms closure_in_dom(1) [OF ok, of "{h}"] by auto
  with known_loop_marks [OF V(1)] show ?thesis by (auto simp: mark_header_known_def)
qed

lemma queues_ok:
  "responder_ok st (responder_new\<lparr>haves_queue := q\<rparr>) \<longleftrightarrow> have_id ` set q \<subseteq> dom (node_info_map st)"
  "responder_ok st (responder_new\<lparr>send_queue := q'\<rparr>) \<longleftrightarrow> snd ` set q' \<subseteq> dom (node_info_map st)"
  by (auto simp: responder_ok_def responder_new_def)

lemma propose_loop_ok:
  assumes "have_id ` set q \<subseteq> dom (node_info_map st)" and "set hs \<subseteq> dom (node_info_map st)" and "length hs \<le> max_have"
  shows "\<exists>q' hs'. propose_loop D st known q hs = Some (Ret (q', hs')) \<and> have_id ` set q' \<subseteq> dom (node_info_map st) \<and>
    set hs' \<subseteq> dom (node_info_map st) \<and> length hs' \<le> max_have \<and>
    (if q = [] \<or> length hs = max_have then q' = q \<and> hs' = hs
     else (image_mset have_id (mset q'), image_mset have_id (mset q)) \<in> mult (parent_rel H (node_info_map st)))"
  using wf_mult [OF ecg_ok_wf(1) [OF ok]] assms
proof (induction "image_mset have_id (mset q)" arbitrary: q hs rule: wf_induct_rule)
  case less
  let ?R = "mult (parent_rel H (node_info_map st))"
  show ?case
  proof (cases "q = [] \<or> length hs = max_have")
    case True
    with less.prems show ?thesis by (intro exI [of _ q] exI [of _ hs]) (auto simp: propose_loop.simps)
  next
    case False
    then obtain x q0 where q: "q = x # q0" by (cases q) auto
    have pop: "heap_pop (haves_queue (responder_new\<lparr>haves_queue := q\<rparr>)) = Some (x, q0)" by (simp add: q)
    note popped = haves_pop [OF queues_ok(1) [THEN iffD2, OF less.prems(1)] pop]
    have step: "\<exists>q1 hs1. propose_loop D st known q hs = propose_loop D st known q1 hs1 \<and>
      have_id ` set q1 \<subseteq> dom (node_info_map st) \<and> set hs1 \<subseteq> dom (node_info_map st) \<and> length hs1 \<le> max_have \<and>
      (image_mset have_id (mset q1), image_mset have_id (mset q)) \<in> ?R"
    proof (cases "have_id x \<in> known")
      case True
      have "have_id ` set q0 \<subseteq> dom (node_info_map st)" using less.prems(1) by (simp add: q)
      moreover have "propose_loop D st known q hs = propose_loop D st known q0 hs"
        using False True by (subst propose_loop.simps) (simp add: q Let_def have_id_def)
      ultimately show ?thesis using popped(4) less.prems by (intro exI [of _ q0] exI [of _ hs]) simp
    next
      case unknown: False
      let ?d = "snd (snd (snd x))"
      from popped(5) [of ?d] obtain ps where ps: "get_parents_with_depth D st (have_id x) = Some ps"
        "responder_ok st (responder_new\<lparr>haves_queue := q, haves_queue := foldl (push_parent ?d) q0 ps\<rparr>)"
        and dec: "(image_mset have_id (mset (foldl (push_parent ?d) q0 ps)), image_mset have_id (mset q)) \<in> ?R" by auto
      let ?hs = "if proposable x then hs @ [have_id x] else hs"
      have "propose_loop D st known q hs = propose_loop D st known (foldl (push_parent ?d) q0 ps) ?hs"
        using False unknown ps(1) by (subst propose_loop.simps) (simp add: q Let_def have_id_def proposable_def)
      moreover have "have_id ` set (foldl (push_parent ?d) q0 ps) \<subseteq> dom (node_info_map st)"
        using ps(2) by (simp add: queues_ok)
      moreover have "set ?hs \<subseteq> dom (node_info_map st)" "length ?hs \<le> max_have"
        using less.prems False by (auto simp: q)
      ultimately show ?thesis using dec by blast
    qed
    then obtain q1 hs1 where s: "propose_loop D st known q hs = propose_loop D st known q1 hs1"
      "have_id ` set q1 \<subseteq> dom (node_info_map st)" "set hs1 \<subseteq> dom (node_info_map st)" "length hs1 \<le> max_have"
      and dec: "(image_mset have_id (mset q1), image_mset have_id (mset q)) \<in> ?R" by blast
    from less.hyps [OF dec s(2-4)] obtain q' hs' where IH: "propose_loop D st known q1 hs1 = Some (Ret (q', hs'))"
      "have_id ` set q' \<subseteq> dom (node_info_map st)" "set hs' \<subseteq> dom (node_info_map st)" "length hs' \<le> max_have"
      "if q1 = [] \<or> length hs1 = max_have then q' = q1 \<and> hs' = hs1
       else (image_mset have_id (mset q'), image_mset have_id (mset q1)) \<in> ?R" by blast
    have "(image_mset have_id (mset q'), image_mset have_id (mset q)) \<in> ?R"
      using IH(5) dec unfolding mult_def by (auto split: if_splits intro: trancl_trans)
    with False s(1) IH(1-4) show ?thesis by auto
  qed
qed

lemma headers_loop_ok:
  assumes "snd ` set q \<subseteq> dom (node_info_map st)" and "known \<subseteq> dom (node_info_map st)" and "length hdrs \<le> max_deliver"
    and "set hdrs \<subseteq> header ` ran (node_info_map st)"
  shows "\<exists>q' known' hdrs'. headers_loop D st q known hdrs = Some (Ret (q', known', hdrs')) \<and>
    snd ` set q' \<subseteq> dom (node_info_map st) \<and> known' \<subseteq> dom (node_info_map st) \<and> length hdrs' \<le> max_deliver \<and>
    set hdrs' \<subseteq> header ` ran (node_info_map st) \<and>
    (if q = [] \<or> length hdrs = max_deliver then q' = q \<and> hdrs' = hdrs
     else (image_mset snd (mset q'), image_mset snd (mset q)) \<in> mult ((parent_rel H (node_info_map st))\<inverse>))"
  using wf_mult [OF ecg_ok_wf(2) [OF ok]] assms
proof (induction "image_mset snd (mset q)" arbitrary: q known hdrs rule: wf_induct_rule)
  case less
  let ?R = "mult ((parent_rel H (node_info_map st))\<inverse>)"
  show ?case
  proof (cases "q = [] \<or> length hdrs = max_deliver")
    case True
    with less.prems show ?thesis
      by (intro exI [of _ q] exI [of _ known] exI [of _ hdrs]) (auto simp: headers_loop.simps)
  next
    case False
    then obtain x q0 where q: "q = x # q0" by (cases q) auto
    have pop: "heap_pop (send_queue (responder_new\<lparr>send_queue := q\<rparr>)) = Some (x, q0)" by (simp add: q)
    from deliver_pop [OF queues_ok(2) [THEN iffD2, OF less.prems(1)] pop] obtain cs where
      cs: "get_children_with_depth D st (snd x) = Some cs" "snd x \<in> dom (node_info_map st)"
        "snd ` set (heap_extend cs q0) \<subseteq> dom (node_info_map st)"
      and dec: "(image_mset snd (mset (heap_extend cs q0)), image_mset snd (mset q)) \<in> ?R"
      by (auto simp: queues_ok)
    have "\<exists>known1 hdrs1. headers_loop D st q known hdrs = headers_loop D st (heap_extend cs q0) known1 hdrs1 \<and>
      known1 \<subseteq> dom (node_info_map st) \<and> length hdrs1 \<le> max_deliver \<and> set hdrs1 \<subseteq> header ` ran (node_info_map st)"
    proof (cases "snd x \<in> known")
      case True
      then have "headers_loop D st q known hdrs = headers_loop D st (heap_extend cs q0) known hdrs"
        using False cs(1) by (subst headers_loop.simps) (simp add: q Let_def)
      with less.prems show ?thesis by blast
    next
      case unknown: False
      from cs(2) obtain n where n: "node_info_map st (snd x) = Some n" by auto
      from mark_header_known_ok [OF less.prems(2) cs(2)] obtain k where
        k: "mark_header_known D st known (snd x) = Some (Ret k)" "k \<subseteq> dom (node_info_map st)" by blast
      have "headers_loop D st q known hdrs = headers_loop D st (heap_extend cs q0) k (hdrs @ [header n])"
        using False unknown cs(1) n k(1) by (subst headers_loop.simps) (simp add: q Let_def get_header_def)
      moreover have "header n \<in> header ` ran (node_info_map st)" using n by (blast intro: ranI)
      ultimately show ?thesis using less.prems k(2) False q by (intro exI [of _ k] exI [of _ "hdrs @ [header n]"]) auto
    qed
    then obtain known1 hdrs1 where s: "headers_loop D st q known hdrs = headers_loop D st (heap_extend cs q0) known1 hdrs1"
      "known1 \<subseteq> dom (node_info_map st)" "length hdrs1 \<le> max_deliver" "set hdrs1 \<subseteq> header ` ran (node_info_map st)" by blast
    from less.hyps [OF dec cs(3) s(2-4)] obtain q' known' hdrs' where
      IH: "headers_loop D st (heap_extend cs q0) known1 hdrs1 = Some (Ret (q', known', hdrs'))"
        "snd ` set q' \<subseteq> dom (node_info_map st)" "known' \<subseteq> dom (node_info_map st)" "length hdrs' \<le> max_deliver"
        "set hdrs' \<subseteq> header ` ran (node_info_map st)"
        "if heap_extend cs q0 = [] \<or> length hdrs1 = max_deliver then q' = heap_extend cs q0 \<and> hdrs' = hdrs1
         else (image_mset snd (mset q'), image_mset snd (mset (heap_extend cs q0))) \<in> ?R" by blast
    have "(image_mset snd (mset q'), image_mset snd (mset q)) \<in> ?R"
      using IH(6) dec unfolding mult_def by (auto split: if_splits intro: trancl_trans)
    with False s(1) IH(1-5) show ?thesis by auto
  qed
qed

lemma receive_known_ok:
  assumes k: "known \<subseteq> dom (node_info_map st)" and q: "snd ` set q \<subseteq> dom (node_info_map st)"
    and h: "h \<in> dom (node_info_map st)" and i: "i < length bits"
  shows "\<exists>known' q'. receive_known D st bits (known, q) (i, h) = Some (Ret (known', q')) \<and>
    known' \<subseteq> dom (node_info_map st) \<and> snd ` set q' \<subseteq> dom (node_info_map st)"
proof (cases "bits ! i")
  case True
  from mark_header_known_ok [OF k h] obtain k' where
    k': "mark_header_known D st known h = Some (Ret k')" "k' \<subseteq> dom (node_info_map st)" by blast
  from children_of [OF h] obtain cs where cs: "get_children_with_depth D st h = Some cs" by blast
  have "snd ` set (heap_extend cs q) \<subseteq> dom (node_info_map st)"
    using extend_children_ok [OF queues_ok(2) [THEN iffD2, OF q] h cs] by (simp add: queues_ok)
  with k' cs True i show ?thesis by (auto simp: receive_known_def)
next
  case False
  from parents_of [OF h] obtain ps where ps: "get_parents D st h = Some ps" by blast
  from h obtain n where "node_info_map st h = Some n" by auto
  then have "get_header_depth st h = Some (depth n)" by (simp add: get_header_depth_def)
  with ps False i k q h show ?thesis by (auto simp: receive_known_def heap_simps)
qed

lemma receive_have_ok:
  assumes k: "known \<subseteq> dom (node_info_map st)" and i: "i < length bits"
  shows "\<exists>known' bits'. receive_have D st (known, bits) (i, h) = Some (Ret (known', bits')) \<and>
    known' \<subseteq> dom (node_info_map st) \<and> length bits' = length bits"
proof (cases "contains st h")
  case True
  then have "h \<in> dom (node_info_map st)" by (cases "node_info_map st h") (auto simp: contains_def)
  from mark_header_known_ok [OF k this] True i show ?thesis by (auto simp: receive_have_def)
next
  case False
  with k show ?thesis by (simp add: receive_have_def)
qed

end

lemma enumerate_nth: "x \<in> set (zip [0 ..< length xs] xs) \<Longrightarrow> \<exists>i < length xs. x = (i, xs ! i)"
  by (auto simp: set_zip)

text \<open>Inserting what was received keeps the graph, and takes from the message only.\<close>

lemma handle_received_headers_ok:
  assumes D: "stable_dag D dag_ok" and "ecg_ok D dag_ok H st" and U: "finite U" "card U < u64_max"
    and "dom (node_info_map st) \<subseteq> U" and "get_header_id H ` set hdrs \<subseteq> U"
  shows "\<exists>st'. handle_received_headers D H st hdrs = Ret st' \<and> ecg_ok D dag_ok H st' \<and>
    dom (node_info_map st) \<subseteq> dom (node_info_map st') \<and> dom (node_info_map st') \<subseteq> U \<and>
    header ` ran (node_info_map st) \<subseteq> header ` ran (node_info_map st') \<and>
    header ` ran (node_info_map st') \<subseteq> header ` ran (node_info_map st) \<union> set hdrs \<and>
    (dom (node_info_map st') = dom (node_info_map st) \<longrightarrow> st' = st)"
  using assms(2,5,6)
proof (induction hdrs arbitrary: st)
  case Nil
  then show ?case by (simp add: handle_received_headers_def)
next
  case (Cons hdr hdrs)
  let ?m = "node_info_map st"
  have room: "card (dom ?m) < u64_max" using card_mono [OF U(1) Cons.prems(2)] U(2) by simp
  have "\<exists>b st1. insert_header D H st hdr [] = Ret (b, st1) \<and> ecg_ok D dag_ok H st1 \<and>
      dom ?m \<subseteq> dom (node_info_map st1) \<and> dom (node_info_map st1) \<subseteq> U \<and>
      header ` ran ?m \<subseteq> header ` ran (node_info_map st1) \<and> header ` ran (node_info_map st1) \<subseteq> insert hdr (header ` ran ?m) \<and>
      (dom (node_info_map st1) = dom ?m \<longrightarrow> st1 = st)"
  proof (cases "insertable H st hdr")
    case True
    then have new: "?m (get_header_id H hdr) = None" by (auto simp: insertable_def)
    from stable_dag.insert_header_accepted [OF D Cons.prems(1) room True, of "[]"] obtain st1 i where
      "insert_header D H st hdr [] = Ret (True, st1)" "ecg_ok D dag_ok H st1"
      "node_info_map st1 = ?m(get_header_id H hdr \<mapsto>
         \<lparr>graph_index = i, depth = depth_from ?m (get_parent_ids H hdr), header = hdr, operations = []\<rparr>)" by blast
    moreover have "get_header_id H hdr \<notin> dom ?m" using new by auto
    ultimately show ?thesis using Cons.prems(2,3) new by (intro exI [of _ True] exI [of _ st1]) auto
  next
    case False
    from stable_dag.insert_header_rejected [OF D Cons.prems(1) room False, of "[]"] Cons.prems show ?thesis by auto
  qed
  then obtain b st1 where st1: "insert_header D H st hdr [] = Ret (b, st1)" "ecg_ok D dag_ok H st1"
    "dom ?m \<subseteq> dom (node_info_map st1)" "dom (node_info_map st1) \<subseteq> U"
    "header ` ran ?m \<subseteq> header ` ran (node_info_map st1)" "header ` ran (node_info_map st1) \<subseteq> insert hdr (header ` ran ?m)"
    "dom (node_info_map st1) = dom ?m \<longrightarrow> st1 = st" by (elim exE conjE) (rule that)
  have "get_header_id H ` set hdrs \<subseteq> U" using Cons.prems(3) by simp
  from Cons.IH [OF st1(2,4) this] obtain st' where st': "handle_received_headers D H st1 hdrs = Ret st'"
    "ecg_ok D dag_ok H st'" "dom (node_info_map st1) \<subseteq> dom (node_info_map st')" "dom (node_info_map st') \<subseteq> U"
    "header ` ran (node_info_map st1) \<subseteq> header ` ran (node_info_map st')"
    "header ` ran (node_info_map st') \<subseteq> header ` ran (node_info_map st1) \<union> set hdrs"
    "dom (node_info_map st') = dom (node_info_map st1) \<longrightarrow> st' = st1" by (elim exE conjE) (rule that)
  have "handle_received_headers D H st (hdr # hdrs) = Ret st'"
    using st1(1) st'(1) by (simp add: handle_received_headers_def)
  moreover have "dom (node_info_map st') = dom ?m \<longrightarrow> st' = st"
  proof
    assume e: "dom (node_info_map st') = dom ?m"
    then have e1: "dom (node_info_map st1) = dom ?m" using st1(3) st'(3) by (simp add: subset_antisym)
    with st1(7) st'(7) e show "st' = st" by simp
  qed
  moreover have "header ` ran ?m \<subseteq> header ` ran (node_info_map st')" using st1(5) st'(5) by (rule order_trans)
  moreover have "header ` ran (node_info_map st') \<subseteq> header ` ran ?m \<union> set (hdr # hdrs)"
    unfolding list.set by (rule order_trans [OF st'(6)]) (use st1(6) in blast)
  moreover have "dom ?m \<subseteq> dom (node_info_map st')" using st1(3) st'(3) by (rule order_trans)
  ultimately show ?case using st'(2,4) by (intro exI [of _ st'] conjI)
qed

section \<open>What a side keeps\<close>

definition side_ok ::
    "('g, 'h :: linorder) dag_ops \<Rightarrow> ('g \<Rightarrow> bool) \<Rightarrow> ('h, 'hd) header_ops \<Rightarrow> ('g, 'h, 'hd) sync_side \<Rightarrow> bool" where
  "side_ok D dag_ok H S \<longleftrightarrow>
     ecg_ok D dag_ok H (graph S) \<and> known_by_peer S \<subseteq> dom (node_info_map (graph S)) \<and>
     snd ` set (to_send S) \<subseteq> dom (node_info_map (graph S)) \<and>
     have_id ` set (to_propose S) \<subseteq> dom (node_info_map (graph S)) \<and>
     set (side_haves S) \<subseteq> dom (node_info_map (graph S)) \<and> length (side_haves S) \<le> max_have \<and>
     set (side_headers S) \<subseteq> header ` ran (node_info_map (graph S)) \<and> length (side_headers S) \<le> max_deliver \<and>
     length (known_bitmap S) = max_have"

text \<open>
  How far a side is from having nothing more to say, while its graph stays as it is: the ids in its
  queue of proposals go to parents, and once it proposes nothing, the ids in its queue of headers go
  to children.
\<close>

definition proposals :: "('g, 'id, 'hd) sync_side \<Rightarrow> 'id multiset" where
  "proposals S = image_mset have_id (mset (to_propose S))"

definition sendings :: "('g, 'id, 'hd) sync_side \<Rightarrow> 'id multiset" where
  "sendings S = image_mset snd (mset (to_send S))"

definition side_advances ::
    "('h, 'hd) header_ops \<Rightarrow> ('g, 'h, 'hd) sync_side \<Rightarrow> ('g, 'h, 'hd) sync_side \<Rightarrow> bool" where
  "side_advances H S S' \<longleftrightarrow>
     (if proposals S = {#} then proposals S' = {#} \<and> side_haves S' = []
      else (proposals S', proposals S) \<in> mult (parent_rel H (node_info_map (graph S)))) \<and>
     (side_haves S = [] \<longrightarrow>
       (if sendings S = {#} then sendings S' = {#} \<and> side_headers S' = []
        else (sendings S', sendings S) \<in> mult ((parent_rel H (node_info_map (graph S)))\<inverse>)))"

lemma known_graph:
  assumes "stable_dag D dag_ok" and "ecg_ok D dag_ok H st"
  shows "known_ecg D dag_ok H st"
  using assms by (intro known_ecg.intro known_ecg_axioms.intro)

lemma handle_received_known_ok:
  fixes S :: "('g, 'h :: linorder, 'hd) sync_side"
  assumes D: "stable_dag D dag_ok" and S: "side_ok D dag_ok H S" and b: "length bits = max_have"
  shows "\<exists>k q. handle_received_known D S bits = Some (Ret (S\<lparr>known_by_peer := k, to_send := q\<rparr>)) \<and>
    side_ok D dag_ok H (S\<lparr>known_by_peer := k, to_send := q\<rparr>) \<and> (side_haves S = [] \<longrightarrow> q = to_send S)"
proof -
  let ?I = "\<lambda>(k, q :: (nat reverse \<times> 'h) list). k \<subseteq> dom (node_info_map (graph S)) \<and> snd ` set q \<subseteq> dom (node_info_map (graph S))"
  have K: "known_ecg D dag_ok H (graph S)" by (rule known_graph [OF D]) (use S in \<open>simp add: side_ok_def\<close>)
  have "\<exists>kq. foldL (receive_known D (graph S) bits) (known_by_peer S, to_send S)
      (zip [0 ..< length (side_haves S)] (side_haves S)) = Some (Ret kq) \<and> ?I kq"
  proof (rule foldL_invariant)
    fix kq x assume "x \<in> set (zip [0 ..< length (side_haves S)] (side_haves S))" and I: "?I kq"
    from enumerate_nth [OF this(1)] obtain i where i: "i < length (side_haves S)" "x = (i, side_haves S ! i)" by blast
    have "side_haves S ! i \<in> dom (node_info_map (graph S))" "i < length bits"
      using S b i(1) subsetD [OF _ nth_mem [OF i(1)], of "dom (node_info_map (graph S))"] by (simp_all add: side_ok_def)
    with known_ecg.receive_known_ok [OF K, of "fst kq" "snd kq"] I i(2)
    show "\<exists>kq'. receive_known D (graph S) bits kq x = Some (Ret kq') \<and> ?I kq'" by (auto simp: case_prod_beta)
  qed (use S in \<open>auto simp: side_ok_def\<close>)
  then obtain k q where r: "foldL (receive_known D (graph S) bits) (known_by_peer S, to_send S)
      (zip [0 ..< length (side_haves S)] (side_haves S)) = Some (Ret (k, q))" "?I (k, q)" by auto
  then have "handle_received_known D S bits = Some (Ret (S\<lparr>known_by_peer := k, to_send := q\<rparr>))"
    by (simp add: handle_received_known_def)
  moreover have "side_ok D dag_ok H (S\<lparr>known_by_peer := k, to_send := q\<rparr>)" using S r(2) by (simp add: side_ok_def)
  moreover have "side_haves S = [] \<longrightarrow> q = to_send S" using r(1) by auto
  ultimately show ?thesis by blast
qed

lemma handle_received_have_ok:
  assumes D: "stable_dag D dag_ok" and S: "side_ok D dag_ok H S" and h: "length have \<le> max_have"
  shows "\<exists>n ts k bs. handle_received_have D S have =
      Some (Ret (S\<lparr>tips_of_peer := ts, tips_remaining := n, known_by_peer := k, known_bitmap := bs\<rparr>)) \<and>
    side_ok D dag_ok H (S\<lparr>tips_of_peer := ts, tips_remaining := n, known_by_peer := k, known_bitmap := bs\<rparr>)"
proof -
  let ?I = "\<lambda>(k, bs :: bool list). k \<subseteq> dom (node_info_map (graph S)) \<and> length bs = max_have"
  have K: "known_ecg D dag_ok H (graph S)" by (rule known_graph [OF D]) (use S in \<open>simp add: side_ok_def\<close>)
  have "\<exists>kb. foldL (receive_have D (graph S)) (known_by_peer S, replicate (length (known_bitmap S)) False)
      (zip [0 ..< length have] have) = Some (Ret kb) \<and> ?I kb"
  proof (rule foldL_invariant)
    fix kb x assume "x \<in> set (zip [0 ..< length have] have)" and I: "?I kb"
    from enumerate_nth [OF this(1)] obtain i where i: "i < length have" "x = (i, have ! i)" by blast
    with known_ecg.receive_have_ok [OF K, of "fst kb" i "snd kb" "have ! i"] I h
    show "\<exists>kb'. receive_have D (graph S) kb x = Some (Ret kb') \<and> ?I kb'" by (auto simp: case_prod_beta)
  qed (use S in \<open>auto simp: side_ok_def\<close>)
  then obtain k bs where r: "foldL (receive_have D (graph S)) (known_by_peer S, replicate (length (known_bitmap S)) False)
      (zip [0 ..< length have] have) = Some (Ret (k, bs))" "?I (k, bs)" by auto
  then show ?thesis using S by (auto simp: handle_received_have_def Let_def side_ok_def)
qed

lemma prepare_headers_ok:
  assumes D: "stable_dag D dag_ok" and S: "side_ok D dag_ok H S"
  shows "\<exists>q k hds. prepare_headers D S = Some (Ret (S\<lparr>to_send := q, known_by_peer := k, side_headers := hds\<rparr>)) \<and>
    side_ok D dag_ok H (S\<lparr>to_send := q, known_by_peer := k, side_headers := hds\<rparr>) \<and>
    (if to_send S = [] then q = [] \<and> hds = []
     else (image_mset snd (mset q), sendings S) \<in> mult ((parent_rel H (node_info_map (graph S)))\<inverse>))"
proof -
  have K: "known_ecg D dag_ok H (graph S)" by (rule known_graph [OF D]) (use S in \<open>simp add: side_ok_def\<close>)
  have "snd ` set (to_send S) \<subseteq> dom (node_info_map (graph S))" "known_by_peer S \<subseteq> dom (node_info_map (graph S))"
    using S by (simp_all add: side_ok_def)
  from known_ecg.headers_loop_ok [OF K this, of "[]"] obtain q k hds where
    r: "headers_loop D (graph S) (to_send S) (known_by_peer S) [] = Some (Ret (q, k, hds))"
      "snd ` set q \<subseteq> dom (node_info_map (graph S))" "k \<subseteq> dom (node_info_map (graph S))" "length hds \<le> max_deliver"
      "set hds \<subseteq> header ` ran (node_info_map (graph S))"
      "if to_send S = [] then q = [] \<and> hds = []
       else (image_mset snd (mset q), sendings S) \<in> mult ((parent_rel H (node_info_map (graph S)))\<inverse>)"
    by (auto simp: max_deliver_def sendings_def split: if_splits)
  have "prepare_headers D S = Some (Ret (S\<lparr>to_send := q, known_by_peer := k, side_headers := hds\<rparr>))"
    by (simp add: prepare_headers_def r(1))
  moreover have "side_ok D dag_ok H (S\<lparr>to_send := q, known_by_peer := k, side_headers := hds\<rparr>)"
    using S r(2-5) by (simp add: side_ok_def)
  ultimately show ?thesis using r(6) by blast
qed

lemma prepare_haves_ok:
  assumes D: "stable_dag D dag_ok" and S: "side_ok D dag_ok H S"
  shows "\<exists>q hs. prepare_haves D S = Some (Ret (S\<lparr>to_propose := q, side_haves := hs\<rparr>)) \<and>
    side_ok D dag_ok H (S\<lparr>to_propose := q, side_haves := hs\<rparr>) \<and>
    (if to_propose S = [] then q = [] \<and> hs = []
     else (image_mset have_id (mset q), proposals S) \<in> mult (parent_rel H (node_info_map (graph S))))"
proof -
  have K: "known_ecg D dag_ok H (graph S)" by (rule known_graph [OF D]) (use S in \<open>simp add: side_ok_def\<close>)
  have "have_id ` set (to_propose S) \<subseteq> dom (node_info_map (graph S))" using S by (simp add: side_ok_def)
  from known_ecg.propose_loop_ok [OF K this, of "[]" "known_by_peer S"] obtain q hs where
    r: "propose_loop D (graph S) (known_by_peer S) (to_propose S) [] = Some (Ret (q, hs))"
      "have_id ` set q \<subseteq> dom (node_info_map (graph S))" "set hs \<subseteq> dom (node_info_map (graph S))" "length hs \<le> max_have"
      "if to_propose S = [] then q = [] \<and> hs = []
       else (image_mset have_id (mset q), proposals S) \<in> mult (parent_rel H (node_info_map (graph S)))"
    by (auto simp: max_have_def proposals_def split: if_splits)
  have "prepare_haves D S = Some (Ret (S\<lparr>to_propose := q, side_haves := hs\<rparr>))"
    by (simp add: prepare_haves_def r(1))
  moreover have "side_ok D dag_ok H (S\<lparr>to_propose := q, side_haves := hs\<rparr>)"
    using S r(2-4) by (simp add: side_ok_def)
  ultimately show ?thesis using r(5) by blast
qed

text \<open>A message as an honest peer sends it, its headers among those of \<open>U\<close>.\<close>

definition message_ok :: "('h, 'hd) header_ops \<Rightarrow> 'h set \<Rightarrow> ('h, 'hd) sync_data \<Rightarrow> bool" where
  "message_ok H U m \<longleftrightarrow> length (data_have m) \<le> max_have \<and> length (data_known m) = max_have \<and>
     get_header_id H ` set (data_headers m) \<subseteq> U"

definition graph_grows ::
    "('g, 'h, 'hd) ecg \<Rightarrow> 'hd set \<Rightarrow> ('g, 'h, 'hd) ecg \<Rightarrow> bool" where
  "graph_grows st new st' \<longleftrightarrow>
     dom (node_info_map st) \<subseteq> dom (node_info_map st') \<and>
     header ` ran (node_info_map st) \<subseteq> header ` ran (node_info_map st') \<and>
     header ` ran (node_info_map st') \<subseteq> header ` ran (node_info_map st) \<union> new"

lemma graph_grows_refl: "graph_grows st new st"
  by (simp add: graph_grows_def)

lemma subset_Un_trans: "A \<subseteq> B \<union> N \<Longrightarrow> C \<subseteq> A \<union> M \<Longrightarrow> N \<union> M \<subseteq> K \<Longrightarrow> C \<subseteq> B \<union> K"
  by blast

lemma graph_grows_trans:
  "graph_grows st new st1 \<Longrightarrow> graph_grows st1 new' st2 \<Longrightarrow> new \<union> new' \<subseteq> new'' \<Longrightarrow> graph_grows st new'' st2"
  unfolding graph_grows_def
  by (elim conjE, intro conjI) (erule (1) order_trans | erule (2) subset_Un_trans)+

lemma side_graph_ok:
  assumes "side_ok D dag_ok H S" and "ecg_ok D dag_ok H st" and "graph_grows (graph S) new st"
  shows "side_ok D dag_ok H (S\<lparr>graph := st\<rparr>)"
proof -
  have "dom (node_info_map (graph S)) \<subseteq> dom (node_info_map st)"
    "header ` ran (node_info_map (graph S)) \<subseteq> header ` ran (node_info_map st)"
    using assms(3) by (simp_all add: graph_grows_def)
  with assms(1,2) show ?thesis unfolding side_ok_def by (simp, elim conjE) (intro conjI; erule (1) order_trans)
qed

theorem handle_received_ecg_sync_ok:
  assumes D: "stable_dag D dag_ok" and S: "side_ok D dag_ok H S" and m: "message_ok H U m"
    and U: "finite U" "card U < u64_max" "dom (node_info_map (graph S)) \<subseteq> U"
  shows "\<exists>S'. handle_received_ecg_sync D H S m = Some (Ret S') \<and> side_ok D dag_ok H S' \<and>
    dom (node_info_map (graph S')) \<subseteq> U \<and> graph_grows (graph S) (set (data_headers m)) (graph S') \<and>
    (dom (node_info_map (graph S')) = dom (node_info_map (graph S)) \<longrightarrow> graph S' = graph S \<and> side_advances H S S')"
proof -
  have m': "length (data_have m) \<le> max_have" "length (data_known m) = max_have" "get_header_id H ` set (data_headers m) \<subseteq> U"
    using m by (simp_all add: message_ok_def)
  from handle_received_known_ok [OF D S m'(2)] obtain k1 q1 where
    s1: "handle_received_known D S (data_known m) = Some (Ret (S\<lparr>known_by_peer := k1, to_send := q1\<rparr>))"
      "side_ok D dag_ok H (S\<lparr>known_by_peer := k1, to_send := q1\<rparr>)" "side_haves S = [] \<longrightarrow> q1 = to_send S"
    by (elim exE conjE) (rule that)
  define S1 where "S1 = S\<lparr>known_by_peer := k1, to_send := q1\<rparr>"
  have g1: "graph S1 = graph S" "ecg_ok D dag_ok H (graph S)" using S by (simp_all add: S1_def side_ok_def)
  from handle_received_headers_ok [OF D g1(2) U m'(3)] obtain st' where
    st': "handle_received_headers D H (graph S) (data_headers m) = Ret st'" "ecg_ok D dag_ok H st'"
      "dom (node_info_map (graph S)) \<subseteq> dom (node_info_map st')" "dom (node_info_map st') \<subseteq> U"
      "header ` ran (node_info_map (graph S)) \<subseteq> header ` ran (node_info_map st')"
      "header ` ran (node_info_map st') \<subseteq> header ` ran (node_info_map (graph S)) \<union> set (data_headers m)"
      "dom (node_info_map st') = dom (node_info_map (graph S)) \<longrightarrow> st' = graph S"
    by (elim exE conjE) (rule that)
  have grows: "graph_grows (graph S) (set (data_headers m)) st'" using st'(3,5,6) by (simp add: graph_grows_def)
  define S2 where "S2 = S1\<lparr>graph := st'\<rparr>"
  have s2: "side_ok D dag_ok H S2" unfolding S2_def
    by (rule side_graph_ok [OF _ st'(2), of S1 "set (data_headers m)"]) (use s1(2) grows g1(1) in \<open>simp_all add: S1_def\<close>)
  from handle_received_have_ok [OF D s2 m'(1)] obtain n ts k3 bs where
    s3: "handle_received_have D S2 (data_have m) =
        Some (Ret (S2\<lparr>tips_of_peer := ts, tips_remaining := n, known_by_peer := k3, known_bitmap := bs\<rparr>))"
      "side_ok D dag_ok H (S2\<lparr>tips_of_peer := ts, tips_remaining := n, known_by_peer := k3, known_bitmap := bs\<rparr>)"
    by (elim exE conjE) (rule that)
  define S3 where "S3 = S2\<lparr>tips_of_peer := ts, tips_remaining := n, known_by_peer := k3, known_bitmap := bs\<rparr>"
  note s3 = s3 [folded S3_def]
  from prepare_headers_ok [OF D s3(2)] obtain q4 k4 hds where
    s4: "prepare_headers D S3 = Some (Ret (S3\<lparr>to_send := q4, known_by_peer := k4, side_headers := hds\<rparr>))"
      "side_ok D dag_ok H (S3\<lparr>to_send := q4, known_by_peer := k4, side_headers := hds\<rparr>)"
      "if to_send S3 = [] then q4 = [] \<and> hds = []
       else (image_mset snd (mset q4), sendings S3) \<in> mult ((parent_rel H (node_info_map (graph S3)))\<inverse>)"
    by (elim exE conjE) (rule that)
  define S4 where "S4 = S3\<lparr>to_send := q4, known_by_peer := k4, side_headers := hds\<rparr>"
  note s4 = s4 [folded S4_def]
  from prepare_haves_ok [OF D s4(2)] obtain q5 hs where
    s5: "prepare_haves D S4 = Some (Ret (S4\<lparr>to_propose := q5, side_haves := hs\<rparr>))"
      "side_ok D dag_ok H (S4\<lparr>to_propose := q5, side_haves := hs\<rparr>)"
      "if to_propose S4 = [] then q5 = [] \<and> hs = []
       else (image_mset have_id (mset q5), proposals S4) \<in> mult (parent_rel H (node_info_map (graph S4)))"
    by (elim exE conjE) (rule that)
  define S5 where "S5 = S4\<lparr>to_propose := q5, side_haves := hs\<rparr>"
  have "handle_received_ecg_sync D H S m = Some (Ret S5)"
    unfolding handle_received_ecg_sync_def
    by (simp add: s1(1) st'(1) S1_def [symmetric] g1(1) S2_def [symmetric] s3(1) s4(1) s5(1) S5_def [symmetric])
  moreover have graph5: "graph S5 = st'" by (simp add: S5_def S4_def S3_def S2_def)
  moreover have "side_advances H S S5" if "st' = graph S"
    using s1(3) s4(3) s5(3) that
    by (auto simp: side_advances_def proposals_def sendings_def S5_def S4_def S3_def S2_def S1_def)
  ultimately show ?thesis using s5(2) st'(4,7) grows by (intro exI [of _ S5] conjI) (simp_all add: S5_def)
qed

end
