(* ===== verification/HeaderSyncEnds.thy ===== *)
theory HeaderSyncEnds
  imports HeaderSync
begin

text \<open>
  The two ends of the first header exchange together. A round takes each side's message to the other
  side; the rounds end because a side either learns a header, of which there are finitely many between
  the two, or moves its queue of proposals towards the roots, or, with nothing proposed, its queue of
  headers towards the tips.
\<close>

section \<open>One round\<close>

definition pending where
  "pending A B = (proposals A, proposals B, length (side_haves A) + length (side_haves B),
     sendings A, sendings B, length (side_headers A) + length (side_headers B))"

definition pending_rel where
  "pending_rel H m m' = mult (parent_rel H m) <*lex*> mult (parent_rel H m') <*lex*> less_than <*lex*>
     mult ((parent_rel H m)\<inverse>) <*lex*> mult ((parent_rel H m')\<inverse>) <*lex*> less_than"

lemma wf_pending_rel:
  assumes "ecg_ok D dag_ok H st" and "ecg_ok D dag_ok H st'"
  shows "wf (pending_rel H (node_info_map st) (node_info_map st'))"
  unfolding pending_rel_def
  by (intro wf_lex_prod wf_less_than wf_mult ecg_ok_wf [OF assms(1)] ecg_ok_wf [OF assms(2)])

lemma round_advances:
  assumes "side_advances H A A'" and "side_advances H B B'"
    and "\<not> (data_is_done (sync_message A) \<and> data_is_done (sync_message B'))"
  shows "(pending A' B', pending A B) \<in> pending_rel H (node_info_map (graph A)) (node_info_map (graph B))"
proof (cases "proposals A = {#} \<and> proposals B = {#} \<and> side_haves A = [] \<and> side_haves B = [] \<and>
    sendings A = {#} \<and> sendings B = {#}")
  case True
  then have "side_haves B' = []" "side_headers A' = []" "side_headers B' = []"
    "side_haves A' = []" "sendings A' = {#}" "sendings B' = {#}" "proposals A' = {#}" "proposals B' = {#}"
    using assms(1,2) by (simp_all add: side_advances_def)
  moreover from this have "side_headers A \<noteq> []"
    using assms(3) True by (auto simp: data_is_done_def sync_message_def)
  ultimately show ?thesis using True by (simp add: pending_def pending_rel_def)
next
  case False
  then show ?thesis
    using assms(1,2) by (auto simp: pending_def pending_rel_def side_advances_def split: if_splits)
qed

lemma sync_message_ok:
  assumes "side_ok D dag_ok H S" and "dom (node_info_map (graph S)) \<subseteq> U"
  shows "message_ok H U (sync_message S)"
proof -
  have "get_header_id H ` header ` ran (node_info_map (graph S)) \<subseteq> dom (node_info_map (graph S))"
    using assms(1) unfolding side_ok_def ecg_ok_def map_ok_def by (auto simp: ran_def)
  moreover have "get_header_id H ` set (side_headers S) \<subseteq> get_header_id H ` header ` ran (node_info_map (graph S))"
    by (rule image_mono) (use assms(1) in \<open>simp add: side_ok_def\<close>)
  ultimately have "get_header_id H ` set (side_headers S) \<subseteq> U" using assms(2) by (meson order_trans)
  with assms(1) show ?thesis by (simp add: side_ok_def message_ok_def sync_message_def)
qed

section \<open>The rounds end\<close>

text \<open>Two sides whose headers are among those of \<open>U\<close> and \<open>Hs\<close>.\<close>

definition sides_ok where
  "sides_ok D dag_ok H U Hs A B \<longleftrightarrow> side_ok D dag_ok H A \<and> side_ok D dag_ok H B \<and>
     dom (node_info_map (graph A)) \<subseteq> U \<and> dom (node_info_map (graph B)) \<subseteq> U \<and>
     header ` ran (node_info_map (graph A)) \<subseteq> Hs \<and> header ` ran (node_info_map (graph B)) \<subseteq> Hs"

definition missing where
  "missing U A B = card (U - dom (node_info_map (graph A))) + card (U - dom (node_info_map (graph B)))"

text \<open>What one side does with the other's message, when both are as they should be.\<close>

lemma exchange_ok:
  assumes D: "stable_dag D dag_ok" and U: "finite U" "card U < u64_max" and ok: "sides_ok D dag_ok H U Hs A B"
  shows "\<exists>B'. handle_received_ecg_sync D H B (sync_message A) = Some (Ret B') \<and> sides_ok D dag_ok H U Hs A B' \<and>
    graph_grows (graph B) Hs (graph B') \<and>
    (dom (node_info_map (graph B')) = dom (node_info_map (graph B)) \<longrightarrow> graph B' = graph B \<and> side_advances H B B')"
proof -
  have A: "side_ok D dag_ok H A" "dom (node_info_map (graph A)) \<subseteq> U" "header ` ran (node_info_map (graph A)) \<subseteq> Hs"
    and B: "side_ok D dag_ok H B" "dom (node_info_map (graph B)) \<subseteq> U" "header ` ran (node_info_map (graph B)) \<subseteq> Hs"
    using ok by (simp_all add: sides_ok_def)
  have sent: "set (data_headers (sync_message A)) \<subseteq> Hs"
    using A(1,3) by (auto simp: side_ok_def sync_message_def dest: order_trans)
  from handle_received_ecg_sync_ok [OF D B(1) sync_message_ok [OF A(1,2)] U B(2)] obtain B' where
    B': "handle_received_ecg_sync D H B (sync_message A) = Some (Ret B')" "side_ok D dag_ok H B'"
      "dom (node_info_map (graph B')) \<subseteq> U" "graph_grows (graph B) (set (data_headers (sync_message A))) (graph B')"
      "dom (node_info_map (graph B')) = dom (node_info_map (graph B)) \<longrightarrow> graph B' = graph B \<and> side_advances H B B'"
    by (elim exE conjE) (rule that)
  have "graph_grows (graph B) Hs (graph B')"
    using graph_grows_trans [OF B'(4) graph_grows_refl, of "{}" Hs] sent by simp
  moreover from this B(3) have "header ` ran (node_info_map (graph B')) \<subseteq> Hs"
    unfolding graph_grows_def by (elim conjE) (rule order_trans, assumption, simp)
  ultimately show ?thesis using A B' by (intro exI [of _ B'] conjI) (simp_all add: sides_ok_def)
qed

lemma sides_ok_sym: "sides_ok D dag_ok H U Hs A B \<longleftrightarrow> sides_ok D dag_ok H U Hs B A"
  by (auto simp: sides_ok_def)

text \<open>A round, the server's half first.\<close>

lemma round_ok:
  assumes D: "stable_dag D dag_ok" and U: "finite U" "card U < u64_max" and ok: "sides_ok D dag_ok H U Hs A B"
  shows "\<exists>A' B'. handle_received_ecg_sync D H B (sync_message A) = Some (Ret B') \<and>
    handle_received_ecg_sync D H A (sync_message B') = Some (Ret A') \<and> sides_ok D dag_ok H U Hs A' B' \<and>
    graph_grows (graph A) Hs (graph A') \<and> graph_grows (graph B) Hs (graph B') \<and>
    (missing U A' B' < missing U A B \<or>
     graph A' = graph A \<and> graph B' = graph B \<and> missing U A' B' = missing U A B \<and>
       (data_is_done (sync_message A) \<and> data_is_done (sync_message B') \<or>
        (pending A' B', pending A B) \<in> pending_rel H (node_info_map (graph A)) (node_info_map (graph B))))"
proof -
  from exchange_ok [OF D U ok] obtain B' where
    B': "handle_received_ecg_sync D H B (sync_message A) = Some (Ret B')" "sides_ok D dag_ok H U Hs A B'"
      "graph_grows (graph B) Hs (graph B')"
      "dom (node_info_map (graph B')) = dom (node_info_map (graph B)) \<longrightarrow> graph B' = graph B \<and> side_advances H B B'"
    by (elim exE conjE) (rule that)
  from exchange_ok [OF D U B'(2) [unfolded sides_ok_sym [of _ _ _ _ _ A]]] obtain A' where
    A': "handle_received_ecg_sync D H A (sync_message B') = Some (Ret A')" "sides_ok D dag_ok H U Hs B' A'"
      "graph_grows (graph A) Hs (graph A')"
      "dom (node_info_map (graph A')) = dom (node_info_map (graph A)) \<longrightarrow> graph A' = graph A \<and> side_advances H A A'"
    by (elim exE conjE) (rule that)
  have doms: "dom (node_info_map (graph A)) \<subseteq> dom (node_info_map (graph A'))" "dom (node_info_map (graph A')) \<subseteq> U"
    "dom (node_info_map (graph B)) \<subseteq> dom (node_info_map (graph B'))" "dom (node_info_map (graph B')) \<subseteq> U"
    using A'(2,3) B'(3) by (simp_all add: graph_grows_def sides_ok_def)
  have less: "card (U - Y) < card (U - X)" if "X \<subseteq> Y" "Y \<subseteq> U" "Y \<noteq> X" for X Y
    using that U(1) by (intro psubset_card_mono) auto
  have le: "card (U - Y) \<le> card (U - X)" if "X \<subseteq> Y" for X Y
    using that U(1) by (intro card_mono) auto
  have "missing U A' B' < missing U A B \<or>
      (graph A' = graph A \<and> side_advances H A A') \<and> (graph B' = graph B \<and> side_advances H B B')"
  proof (cases "dom (node_info_map (graph A')) = dom (node_info_map (graph A))")
    case False
    from less [OF doms(1,2) False] le [OF doms(3)] show ?thesis by (simp add: missing_def)
  next
    case A: True
    show ?thesis
    proof (cases "dom (node_info_map (graph B')) = dom (node_info_map (graph B))")
      case False
      from less [OF doms(3,4) False] A show ?thesis by (simp add: missing_def)
    next
      case True
      with A A'(4) B'(4) show ?thesis by simp
    qed
  qed
  with round_advances [of H A A' B B'] A'(1,3) B'(1,3) A'(2) [unfolded sides_ok_sym [of _ _ _ _ _ B']]
  show ?thesis by (intro exI [of _ A'] exI [of _ B'] conjI) (auto simp: missing_def)
qed

text \<open>
  A loop that, given the messages \<open>ms\<close> of the other side, sends the messages \<open>ms'\<close>, empties the stream
  and leaves the side \<open>S'\<close>.
\<close>

definition client_talks where
  "client_talks D H finished S ms ms' S' \<longleftrightarrow>
     (\<forall>out. client_loop D H finished S \<lparr>incoming = map (\<lambda>m. Inr (SyncData m)) ms, outgoing = out, is_open = True\<rparr> =
        Some (Ret (S', \<lparr>incoming = [], outgoing = out @ map SyncData ms', is_open = True\<rparr>)))"

definition server_talks where
  "server_talks D H finished S ms ms' S' \<longleftrightarrow>
     (\<forall>out. server_loop D H finished S \<lparr>incoming = map (\<lambda>m. Inr (SyncData m)) ms, outgoing = out, is_open = True\<rparr> =
        Some (Ret (S', \<lparr>incoming = [], outgoing = out @ map SyncData ms', is_open = True\<rparr>)))"

lemma talks_finished: "client_talks D H True S [] [] S" "server_talks D H True S [] [] S"
  by (simp_all add: client_talks_def server_talks_def client_loop.simps server_loop.simps)

lemma client_talks_turn:
  assumes "handle_received_ecg_sync D H A m = Some (Ret A')"
    and "client_talks D H (data_is_done (sync_message A) \<and> data_is_done m) A' ms ms' A''"
  shows "client_talks D H False A (m # ms) (sync_message A # ms') A''"
  using assms(2) unfolding client_talks_def
  by (subst client_loop.simps) (simp add: client_turn_def Let_def send_expect_open receive_expect_Inr assms(1))

lemma server_talks_turn:
  assumes "handle_received_ecg_sync D H B m = Some (Ret B')"
    and "server_talks D H (data_is_done m \<and> data_is_done (sync_message B')) B' ms ms' B''"
  shows "server_talks D H False B (m # ms) (sync_message B' # ms') B''"
  using assms(2) unfolding server_talks_def
  by (subst server_loop.simps) (simp add: server_turn_def Let_def send_expect_open receive_expect_Inr assms(1))

text \<open>Both loops return, and with them the messages of the one are the messages to the other.\<close>

definition ends_meet where
  "ends_meet D dag_ok H U Hs finished A B \<longleftrightarrow>
     (\<exists>as bs A' B'. client_talks D H finished A bs as A' \<and> server_talks D H finished B as bs B' \<and>
        sides_ok D dag_ok H U Hs A' B' \<and> graph_grows (graph A) Hs (graph A') \<and> graph_grows (graph B) Hs (graph B'))"

lemma ends_meet_finished: "sides_ok D dag_ok H U Hs A B \<Longrightarrow> ends_meet D dag_ok H U Hs True A B"
  using talks_finished graph_grows_refl unfolding ends_meet_def by blast

lemma ends_meet_turn:
  assumes "handle_received_ecg_sync D H B (sync_message A) = Some (Ret B1)"
    and "handle_received_ecg_sync D H A (sync_message B1) = Some (Ret A1)"
    and g: "graph_grows (graph A) Hs (graph A1)" "graph_grows (graph B) Hs (graph B1)"
    and "ends_meet D dag_ok H U Hs (data_is_done (sync_message A) \<and> data_is_done (sync_message B1)) A1 B1"
  shows "ends_meet D dag_ok H U Hs False A B"
proof -
  let ?fin = "data_is_done (sync_message A) \<and> data_is_done (sync_message B1)"
  from assms(5) obtain as bs A' B' where t: "client_talks D H ?fin A1 bs as A'" "server_talks D H ?fin B1 as bs B'"
    "sides_ok D dag_ok H U Hs A' B'" "graph_grows (graph A1) Hs (graph A')" "graph_grows (graph B1) Hs (graph B')"
    unfolding ends_meet_def by (elim exE conjE) (rule that)
  note client_talks_turn [OF assms(2) t(1)] server_talks_turn [OF assms(1) t(2)] t(3)
    graph_grows_trans [OF g(1) t(4) Un_least [OF order_refl order_refl]]
    graph_grows_trans [OF g(2) t(5) Un_least [OF order_refl order_refl]]
  then show ?thesis unfolding ends_meet_def by (intro exI conjI)
qed

lemma loops_end:
  assumes D: "stable_dag D dag_ok" and U: "finite U" "card U < u64_max" and "sides_ok D dag_ok H U Hs A B"
  shows "ends_meet D dag_ok H U Hs finished A B"
  using assms(4)
proof (induction "missing U A B" arbitrary: finished A B rule: less_induct)
  case outer: less
  let ?R = "pending_rel H (node_info_map (graph A)) (node_info_map (graph B))"
  have "wf ?R"
    by (rule wf_pending_rel [of D dag_ok _ "graph A"]) (use outer.prems in \<open>simp_all add: sides_ok_def side_ok_def\<close>)
  then have "ends_meet D dag_ok H U Hs fin A1 B1"
    if "graph A1 = graph A" "graph B1 = graph B" "sides_ok D dag_ok H U Hs A1 B1" for fin A1 B1
    using that
  proof (induction "pending A1 B1" arbitrary: fin A1 B1 rule: wf_induct_rule)
    case less
    show ?case
    proof (cases fin)
      case True
      with ends_meet_finished [OF less.prems(3)] show ?thesis by simp
    next
      case False
      from round_ok [OF D U less.prems(3)] obtain A2 B2 where
        r: "handle_received_ecg_sync D H B1 (sync_message A1) = Some (Ret B2)"
          "handle_received_ecg_sync D H A1 (sync_message B2) = Some (Ret A2)" "sides_ok D dag_ok H U Hs A2 B2"
          "graph_grows (graph A1) Hs (graph A2)" "graph_grows (graph B1) Hs (graph B2)"
        and dec: "missing U A2 B2 < missing U A1 B1 \<or>
           graph A2 = graph A1 \<and> graph B2 = graph B1 \<and> missing U A2 B2 = missing U A1 B1 \<and>
             (data_is_done (sync_message A1) \<and> data_is_done (sync_message B2) \<or>
              (pending A2 B2, pending A1 B1) \<in> pending_rel H (node_info_map (graph A1)) (node_info_map (graph B1)))"
        by (elim exE conjE) (rule that)
      let ?fin = "data_is_done (sync_message A1) \<and> data_is_done (sync_message B2)"
      have same: "missing U A1 B1 = missing U A B" by (simp add: missing_def less.prems(1,2))
      from dec have "ends_meet D dag_ok H U Hs ?fin A2 B2"
      proof (elim disjE conjE)
        assume "missing U A2 B2 < missing U A1 B1"
        then show ?thesis using outer.hyps [OF _ r(3)] same by simp
      next
        assume "data_is_done (sync_message A1)" "data_is_done (sync_message B2)"
        then show ?thesis using ends_meet_finished [OF r(3)] by simp
      next
        assume "graph A2 = graph A1" "graph B2 = graph B1"
          "(pending A2 B2, pending A1 B1) \<in> pending_rel H (node_info_map (graph A1)) (node_info_map (graph B1))"
        then show ?thesis using less.hyps [OF _ _ _ r(3)] less.prems(1,2) by simp
      qed
      from ends_meet_turn [OF r(1,2,4,5) this] False show ?thesis by simp
    qed
  qed
  from this [OF refl refl outer.prems] show ?case .
qed

section \<open>From the request to the end\<close>

lemma tip_queue_ok:
  assumes "ecg_ok D dag_ok H st"
  shows "\<exists>q. tip_queue st = Ret q \<and> have_id ` set q \<subseteq> dom (node_info_map st)"
proof -
  have fin: "finite (tips st)" and sub: "tips st \<subseteq> dom (node_info_map st)"
    using assms by (auto simp: ecg_ok_def map_ok_def)
  let ?e = "\<lambda>x. (True, depth (the (node_info_map st x)), x, 0 :: u64)"
  have "mapR (tip_entry st) (sorted_list_of_set (tips st)) = Ret (map ?e (sorted_list_of_set (tips st)))"
    by (rule mapR_Ret) (use fin sub in \<open>auto simp: tip_entry_def get_header_depth_def\<close>)
  then show ?thesis using fin sub by (auto simp: tip_queue_def heap_simps have_id_def)
qed

lemma tip_count_ok: "card (tips st) < 2 ^ 16 \<Longrightarrow> tip_count st = Inr (of_nat (card (tips st)))"
  by (simp add: tip_count_def)

lemma new_side_ok: "ecg_ok D dag_ok H st \<Longrightarrow> side_ok D dag_ok H (new_side st n)"
  by (simp add: side_ok_def new_side_def)

lemma first_proposals:
  assumes D: "stable_dag D dag_ok" and st: "ecg_ok D dag_ok H st"
  shows "\<exists>q0 q hs. tip_queue st = Ret q0 \<and> propose_loop D st {} q0 [] = Some (Ret (q, hs)) \<and> length hs \<le> max_have \<and>
    (\<forall>n. side_ok D dag_ok H (new_side st n\<lparr>to_propose := q, side_haves := hs\<rparr>))"
proof -
  from tip_queue_ok [OF st] obtain q0 where q0: "tip_queue st = Ret q0" "have_id ` set q0 \<subseteq> dom (node_info_map st)" by blast
  from known_ecg.propose_loop_ok [OF known_graph [OF D st] q0(2), of "[]" "{}"] obtain q hs where
    r: "propose_loop D st {} q0 [] = Some (Ret (q, hs))" "have_id ` set q \<subseteq> dom (node_info_map st)"
      "set hs \<subseteq> dom (node_info_map st)" "length hs \<le> max_have"
    by auto
  with q0(1) st show ?thesis by (intro exI conjI) (auto simp: side_ok_def new_side_def)
qed

text \<open>One end, from the start to its return, with the messages it gets and those it sends.\<close>

definition client_runs where
  "client_runs D H st bs as st' \<longleftrightarrow>
     ecg_sync_client D H st \<lparr>incoming = map Inr bs, outgoing = [], is_open = True\<rparr> =
       Some (Ret (Inr (), st', \<lparr>incoming = [], outgoing = as, is_open = True\<rparr>))"

definition server_runs where
  "server_runs D H st as bs st' \<longleftrightarrow>
     ecg_sync_server D H st \<lparr>incoming = map Inr as, outgoing = [], is_open = True\<rparr> =
       Some (Ret (Inr (), st', \<lparr>incoming = [], outgoing = bs, is_open = True\<rparr>))"

text \<open>The client up to the response.\<close>

lemma client_asks:
  assumes D: "stable_dag D dag_ok" and st: "ecg_ok D dag_ok H st" and tips: "card (tips st) < 2 ^ 16"
  shows "\<exists>A hs. side_ok D dag_ok H A \<and> graph A = st \<and> length hs \<le> max_have \<and>
    (\<forall>m A1 ms ms' A'. handle_received_ecg_sync D H A m = Some (Ret A1) \<longrightarrow>
       client_talks D H (hs = [] \<and> data_is_done m) A1 ms ms' A' \<longrightarrow>
       client_runs D H st (SyncResponse \<lparr>resp_tip_count = n, resp_sync = m\<rparr> # map SyncData ms)
         (SyncRequest \<lparr>req_tip_count = of_nat (card (tips st)), req_have = hs\<rparr> # map SyncData ms') (graph A'))"
proof -
  from first_proposals [OF D st] obtain q0 q hs where
    a: "tip_queue st = Ret q0" "propose_loop D st {} q0 [] = Some (Ret (q, hs))" "length hs \<le> max_have"
      "\<forall>n. side_ok D dag_ok H (new_side st n\<lparr>to_propose := q, side_haves := hs\<rparr>)"
    by (elim exE conjE) (rule that)
  define A where "A = new_side st n\<lparr>to_propose := q, side_haves := hs\<rparr>"
  have "side_ok D dag_ok H A" "graph A = st" using a(4) by (simp_all add: A_def new_side_def)
  with a(3) show ?thesis
    by (intro exI [of _ A] exI [of _ hs] conjI allI impI)
      (simp_all add: client_runs_def ecg_sync_client_def tip_count_ok [OF tips] a(1,2) Let_def send_expect_open
        receive_expect_Inr A_def [symmetric] request_is_done_def response_is_done_def client_talks_def comp_def)
qed

text \<open>The server up to its response.\<close>

lemma server_responds:
  assumes D: "stable_dag D dag_ok" and st: "ecg_ok D dag_ok H st" and hs: "length hs \<le> max_have"
    and tips: "card (tips st) < 2 ^ 16"
  shows "\<exists>B. side_ok D dag_ok H B \<and> graph B = st \<and>
    (\<forall>ms ms' B'. server_talks D H (hs = [] \<and> data_is_done (sync_message B)) B ms ms' B' \<longrightarrow>
       server_runs D H st (SyncRequest \<lparr>req_tip_count = n, req_have = hs\<rparr> # map SyncData ms)
         (SyncResponse \<lparr>resp_tip_count = of_nat (card (tips st)), resp_sync = sync_message B\<rparr> # map SyncData ms') (graph B'))"
proof -
  from handle_received_have_ok [OF D new_side_ok [OF st, of n] hs] obtain k ts kn bs where
    s1: "handle_received_have D (new_side st n) hs =
        Some (Ret (new_side st n\<lparr>tips_of_peer := ts, tips_remaining := k, known_by_peer := kn, known_bitmap := bs\<rparr>))"
      "side_ok D dag_ok H (new_side st n\<lparr>tips_of_peer := ts, tips_remaining := k, known_by_peer := kn, known_bitmap := bs\<rparr>)"
    by (elim exE conjE) (rule that)
  define S1 where "S1 = new_side st n\<lparr>tips_of_peer := ts, tips_remaining := k, known_by_peer := kn, known_bitmap := bs\<rparr>"
  note s1 = s1 [folded S1_def]
  from prepare_headers_ok [OF D s1(2)] obtain q kn2 hds where
    s2: "prepare_headers D S1 = Some (Ret (S1\<lparr>to_send := q, known_by_peer := kn2, side_headers := hds\<rparr>))"
      "side_ok D dag_ok H (S1\<lparr>to_send := q, known_by_peer := kn2, side_headers := hds\<rparr>)"
    by (elim exE conjE) (rule that)
  define S2 where "S2 = S1\<lparr>to_send := q, known_by_peer := kn2, side_headers := hds\<rparr>"
  note s2 = s2 [folded S2_def]
  have g: "graph S2 = st" by (simp add: S2_def S1_def new_side_def)
  from tip_queue_ok [OF st] obtain q0 where q0: "tip_queue st = Ret q0" "have_id ` set q0 \<subseteq> dom (node_info_map st)" by blast
  have "side_ok D dag_ok H (S2\<lparr>to_propose := q0\<rparr>)" using s2(2) q0(2) g by (simp add: side_ok_def)
  from prepare_haves_ok [OF D this] obtain q1 hs1 where
    s3: "prepare_haves D (S2\<lparr>to_propose := q0\<rparr>) = Some (Ret (S2\<lparr>to_propose := q0, to_propose := q1, side_haves := hs1\<rparr>))"
      "side_ok D dag_ok H (S2\<lparr>to_propose := q0, to_propose := q1, side_haves := hs1\<rparr>)"
    by (elim exE conjE) (rule that)
  define B where "B = S2\<lparr>to_propose := q0, to_propose := q1, side_haves := hs1\<rparr>"
  note s3 = s3 [folded B_def]
  have "graph B = st" by (simp add: B_def g)
  with s3(2) show ?thesis
    by (intro exI [of _ B] conjI allI impI)
      (simp_all add: server_runs_def ecg_sync_server_def receive_expect_Inr comp_def s1(1) s2(1) tip_count_ok [OF tips] q0(1) s3(1) Let_def
        send_expect_open request_is_done_def response_is_done_def server_talks_def)
qed



section \<open>What is missed\<close>

text \<open>
  A client with the root of a chain of five headers, a server with the chain. What the client says, what the
  server says, and which of the headers each has at the end.
\<close>

definition chain_headers :: "(test_header \<times> bytes) list" where
  "chain_headers = map (\<lambda>h. (h, [])) [th 1 [], th 2 [1], th 3 [2], th 4 [3], th 5 [4]]"

definition chain_requests :: "(u32, test_header) msg_ecg_sync list" where
  "chain_requests =
     [SyncRequest \<lparr>req_tip_count = 1, req_have = [1]\<rparr>,
      SyncData \<lparr>data_have = [], data_known = replicate 32 False, data_headers = []\<rparr>]"

definition chain_responses :: "(u32, test_header) msg_ecg_sync list" where
  "chain_responses =
     [SyncResponse \<lparr>resp_tip_count = 1,
        resp_sync = \<lparr>data_have = [5, 4, 3], data_known = True # replicate 31 False, data_headers = []\<rparr>\<rparr>,
      SyncData \<lparr>data_have = [], data_known = replicate 32 False, data_headers = []\<rparr>]"

definition chain_scenario ::
    "((u32, test_header) msg_ecg_sync list \<times> nat \<times> bool list \<times> (u32, test_header) msg_ecg_sync list \<times> nat \<times> bool list) res option" where
  "chain_scenario =
     bindL (Some (insert_received list_dag test_header_ops (ecg_new list_dag) (take 1 chain_headers))) (\<lambda>c.
     bindL (Some (insert_received list_dag test_header_ops (ecg_new list_dag) chain_headers)) (\<lambda>s.
     bindL (ecg_sync_client list_dag test_header_ops c
              \<lparr>incoming = map Inr chain_responses, outgoing = [], is_open = True\<rparr>) (\<lambda>(_, c', sc).
     bindL (ecg_sync_server list_dag test_header_ops s
              \<lparr>incoming = map Inr chain_requests, outgoing = [], is_open = True\<rparr>) (\<lambda>(_, s', ss).
     Some (Ret (outgoing sc, length (incoming sc), map (contains c') [1, 2, 3, 4, 5],
                outgoing ss, length (incoming ss), map (contains s') [1, 2, 3, 4, 5]))))))"

text \<open>
  The exchange ends with the client lacking four of the five: the server takes the root, which the client
  proposed, as known and stops there; at the distances 0, 1 and 2 from its tip it proposes 5, 4 and 3,
  which the client does not have, and their parents are not known either, so that nothing is sent. The
  lines that would queue the children of a header the client has are commented out.
\<close>

lemma header_exchange_loses_chain:
  "chain_scenario = Some (Ret (chain_requests, 0, [True, False, False, False, False],
     chain_responses, 0, [True, True, True, True, True]))"
  by code_simp

end
