(* ===== verification/EcgCompare.thy ===== *)
theory EcgCompare
  imports EcgInvariant
begin

text \<open>
  \<open>equal_dags\<close> of \<open>ossa-core/src/store/ecg.rs\<close>, which the tests of the header exchange use to see that both
  sides ended with the same graph. It iterates over the nodes and edges of the dependency graph; the
  iterators of the graph library are the record \<open>dag_iters\<close>.
\<close>

record ('g, 'h) dag_iters =
  node_references :: "'g \<Rightarrow> (nat \<times> 'h) list"
  edge_references :: "'g \<Rightarrow> (nat \<times> nat) list"

definition dag_edge_ids :: "('g, 'h) dag_ops \<Rightarrow> ('g, 'h) dag_iters \<Rightarrow> 'g \<Rightarrow> ('h \<times> 'h) list res" where
  "dag_edge_ids D It g =
     mapR (\<lambda>e. bindR (expect (dag_node_weight D g (fst e))) (\<lambda>n1.
               bindR (expect (dag_node_weight D g (snd e))) (\<lambda>n2. Ret (n1, n2)))) (edge_references It g)"

definition dag_node_ids :: "('g, 'h) dag_iters \<Rightarrow> 'g \<Rightarrow> 'h list" where
  "dag_node_ids It g = map snd (node_references It g)"

definition equal_dags ::
    "('g, 'h) dag_ops \<Rightarrow> ('g, 'h) dag_iters \<Rightarrow> ('g, 'h, 'hd) ecg \<Rightarrow> ('g, 'h, 'hd) ecg \<Rightarrow> bool res" where
  "equal_dags D It l r =
     (let node_set_left = set (dag_node_ids It (dependency_graph l));
          node_set_right = set (dag_node_ids It (dependency_graph r))
      in bindR (dag_edge_ids D It (dependency_graph l)) (\<lambda>edges_left.
         bindR (dag_edge_ids D It (dependency_graph r)) (\<lambda>edges_right.
         Ret (root_nodes l = root_nodes r \<and> tips l = tips r \<and> set edges_left = set edges_right \<and>
              node_set_left = node_set_right))))"

section \<open>What the iterators promise\<close>

locale iterable_dag = stable_dag D dag_ok
  for D :: "('g, 'h) dag_ops" and dag_ok :: "'g \<Rightarrow> bool" +
  fixes It :: "('g, 'h) dag_iters"
  assumes all_nodes: "dag_ok g \<Longrightarrow> set (node_references It g) = {(i, x). dag_node_weight D g i = Some x}"
    and all_edges: "dag_ok g \<Longrightarrow> set (edge_references It g) = {(p, c). p \<in> set (dag_parents D g c)}"
begin

lemma node_ids:
  assumes "ecg_ok D dag_ok H st"
  shows "set (dag_node_ids It (dependency_graph st)) = dom (node_info_map st)"
proof -
  have g: "graph_ok D H (dependency_graph st) (node_info_map st)" and d: "dag_ok (dependency_graph st)"
    using assms by (simp_all add: ecg_ok_def)
  have "h \<in> dom (node_info_map st) \<longleftrightarrow> (\<exists>i. dag_node_weight D (dependency_graph st) i = Some h)" for h
    using g unfolding graph_ok_def by blast
  moreover have "h \<in> set (dag_node_ids It (dependency_graph st)) \<longleftrightarrow>
      (\<exists>i. dag_node_weight D (dependency_graph st) i = Some h)" for h
    by (simp add: dag_node_ids_def all_nodes [OF d] image_iff)
  ultimately show ?thesis by (intro set_eqI) (simp only:)
qed

lemma edge_ids:
  assumes "ecg_ok D dag_ok H st"
  shows "\<exists>es. dag_edge_ids D It (dependency_graph st) = Ret es \<and> set es = parent_rel H (node_info_map st)"
proof -
  let ?g = "dependency_graph st" and ?m = "node_info_map st"
  let ?w = "dag_node_weight D ?g" and ?f = "\<lambda>e. (the (dag_node_weight D ?g (fst e)), the (dag_node_weight D ?g (snd e)))"
  have g: "graph_ok D H ?g ?m" and d: "dag_ok ?g" using assms by (simp_all add: ecg_ok_def)
  have known: "?w (fst e) \<noteq> None \<and> ?w (snd e) \<noteq> None" if "e \<in> set (edge_references It ?g)" for e
  proof -
    from that have "fst e \<in> set (dag_parents D ?g (snd e))" by (simp add: all_edges [OF d] case_prod_beta)
    from parents_in [OF d this] show ?thesis .
  qed
  have run: "dag_edge_ids D It ?g = Ret (map ?f (edge_references It ?g))"
    unfolding dag_edge_ids_def by (rule mapR_Ret) (use known in force)
  have ids: "?w ` set (dag_parents D ?g (graph_index n)) = Some ` set (get_parent_ids H (header n))" "?w (graph_index n) = Some h"
    if "?m h = Some n" for h n
  proof -
    from that g have "mset (map ?w (dag_parents D ?g (graph_index n))) = mset (map Some (get_parent_ids H (header n)))"
      and w: "?w (graph_index n) = Some h" unfolding graph_ok_def by blast+
    from this(1) show "?w ` set (dag_parents D ?g (graph_index n)) = Some ` set (get_parent_ids H (header n))"
      by (metis set_map set_mset_mset)
    show "?w (graph_index n) = Some h" by (rule w)
  qed
  have "(a, h) \<in> ?f ` set (edge_references It ?g) \<longleftrightarrow> (a, h) \<in> parent_rel H ?m" for a h
  proof
    assume "(a, h) \<in> ?f ` set (edge_references It ?g)"
    then obtain p c where e: "(p, c) \<in> set (edge_references It ?g)" "?w p = Some a" "?w c = Some h"
      using known by force
    from e(3) g obtain n where n: "?m h = Some n" "graph_index n = c" unfolding graph_ok_def by blast
    have "p \<in> set (dag_parents D ?g (graph_index n))" using e(1) n(2) by (simp add: all_edges [OF d])
    with ids(1) [OF n(1)] e(2) have "Some a \<in> Some ` set (get_parent_ids H (header n))" by (metis imageI)
    with n(1) show "(a, h) \<in> parent_rel H ?m" by (auto simp: parent_rel_def)
  next
    assume "(a, h) \<in> parent_rel H ?m"
    then obtain n where n: "?m h = Some n" "a \<in> set (get_parent_ids H (header n))" by (auto simp: parent_rel_def)
    from n(2) have "Some a \<in> ?w ` set (dag_parents D ?g (graph_index n))" unfolding ids(1) [OF n(1)] by (rule imageI)
    then obtain p where p: "p \<in> set (dag_parents D ?g (graph_index n))" "?w p = Some a" by auto
    then have "(p, graph_index n) \<in> set (edge_references It ?g)" by (simp add: all_edges [OF d])
    then have "?f (p, graph_index n) \<in> ?f ` set (edge_references It ?g)" by (rule imageI)
    with p(2) ids(2) [OF n(1)] show "(a, h) \<in> ?f ` set (edge_references It ?g)" by simp
  qed
  then have "?f ` set (edge_references It ?g) = parent_rel H ?m" by auto
  with run show ?thesis by simp
qed

lemma equal_dags_ok:
  assumes l: "ecg_ok D dag_ok H l" and r: "ecg_ok D dag_ok H r"
  shows "equal_dags D It l r = Ret (dom (node_info_map l) = dom (node_info_map r) \<and>
    parent_rel H (node_info_map l) = parent_rel H (node_info_map r))"
proof -
  from edge_ids [OF l] edge_ids [OF r] obtain el er where
    e: "dag_edge_ids D It (dependency_graph l) = Ret el" "set el = parent_rel H (node_info_map l)"
      "dag_edge_ids D It (dependency_graph r) = Ret er" "set er = parent_rel H (node_info_map r)" by blast
  have tips: "tips s = {h \<in> dom (node_info_map s). \<forall>c. (h, c) \<notin> parent_rel H (node_info_map s)}"
    and roots: "root_nodes s = {h \<in> dom (node_info_map s). \<forall>p. (p, h) \<notin> parent_rel H (node_info_map s)}"
    if "ecg_ok D dag_ok H s" for s
    using that by (auto simp: ecg_ok_def parent_rel_def)
  have "tips l = tips r" "root_nodes l = root_nodes r"
    if "dom (node_info_map l) = dom (node_info_map r)" "parent_rel H (node_info_map l) = parent_rel H (node_info_map r)"
    using that by (simp_all only: tips [OF l] tips [OF r] roots [OF l] roots [OF r])
  then show ?thesis by (simp only: equal_dags_def Let_def e bindR.simps node_ids [OF l] node_ids [OF r]) blast
qed

end

definition list_iters :: "('h list_graph, 'h) dag_iters" where
  "list_iters = \<lparr>node_references = (\<lambda>g. zip [0 ..< length (fst g)] (fst g)), edge_references = snd\<rparr>"

interpretation list_iters: iterable_dag list_dag list_dag_ok list_iters
proof (unfold_locales, goal_cases)
  case (1 g)
  have "(i, x) \<in> set (zip [0 ..< length (fst g)] (fst g)) \<longleftrightarrow> i < length (fst g) \<and> x = fst g ! i" for i x
    unfolding in_set_conv_nth by (auto intro!: exI [of _ i])
  then show ?case by (auto simp: list_iters_def list_dag_def split: if_splits)
next
  case (2 g)
  show ?case by (force simp: list_iters_def list_dag_def)
qed

text \<open>C35. \<open>equal_dags\<close> decides what its comment says: on well-formed states it does not panic, and it
  holds exactly when both have the same headers with the same parents, whatever the order of insertion and
  the indices in the two dependency graphs.\<close>

theorem equal_dags_decides:
  assumes "iterable_dag D dag_ok It" and "ecg_ok D dag_ok H l" and "ecg_ok D dag_ok H r"
  shows "equal_dags D It l r = Ret (dom (node_info_map l) = dom (node_info_map r) \<and>
    parent_rel H (node_info_map l) = parent_rel H (node_info_map r))"
  by (rule iterable_dag.equal_dags_ok [OF assms])

lemma equal_dags_decides_witness:
  "equal_dags list_dag list_iters (two_roots [1, 2] 0 1) (two_roots [2, 1] 1 0) = Ret True \<and>
   equal_dags list_dag list_iters (two_roots [1, 2] 0 1) demo_ecg = Ret False"
proof -
  note ok = two_roots_ok [of "[1, 2]" 0 1, simplified] two_roots_ok [of "[2, 1]" 1 0, simplified]
  note decide = equal_dags_decides [OF list_iters.iterable_dag_axioms ok(1)]
  have rel: "parent_rel test_header_ops (node_info_map (two_roots ns i j)) = {}" for ns i j
    by (auto simp: parent_rel_def two_roots_def test_header_ops_def th_def split: if_splits)
  have "(1, 2) \<in> parent_rel test_header_ops (node_info_map demo_ecg)"
    by (simp add: parent_rel_def demo_ecg_def test_header_ops_def th_def)
  then have "parent_rel test_header_ops (node_info_map demo_ecg) \<noteq> {}" by blast
  moreover have "dom (node_info_map (two_roots ns i j)) = {1, 2}" for ns i j by (auto simp: two_roots_def)
  ultimately show ?thesis by (simp add: decide [OF ok(2)] decide [OF demo_ecg_ok] rel del: dom_eq_empty_conv)
qed

end
