(* ===== verification/EcgSyncDelivery.thy ===== *)
theory EcgSyncDelivery
  imports EcgSyncRounds EcgCompare
begin

text \<open>
  What the rounds of \<open>store_peer/ecg_sync.rs\<close> achieve: an initiator that is behind ends with the graph of
  the responder, 32 headers a round. The send queue is ordered by depth, so this is shown for graphs
  in which a header is deeper than all of its parents; \<open>child_delivered_before_parent\<close> is what happens
  otherwise.
\<close>

section \<open>A graph that is behind\<close>

definition layered :: "('h, 'hd) header_ops \<Rightarrow> ('g, 'h, 'hd) ecg \<Rightarrow> bool" where
  "layered H st \<longleftrightarrow> (\<forall>(p, c) \<in> parent_rel H (node_info_map st).
     depth_of (node_info_map st) p < depth_of (node_info_map st) c)"

definition part_of :: "('g, 'h, 'hd) ecg \<Rightarrow> ('g, 'h, 'hd) ecg \<Rightarrow> bool" where
  "part_of st' st \<longleftrightarrow> (\<forall>h n. node_info_map st' h = Some n \<longrightarrow>
     (\<exists>n'. node_info_map st h = Some n' \<and> header n' = header n \<and> operations n' = operations n))"

definition queue_ok :: "('g, 'h :: linorder, 'hd) ecg \<Rightarrow> (nat reverse \<times> 'h) list \<Rightarrow> bool" where
  "queue_ok st q \<longleftrightarrow> heap_ok q \<and> (\<forall>e \<in> set q. fst e = Reverse (depth_of (node_info_map st) (snd e)))"

lemma ecg_ok_parts:
  assumes "ecg_ok D dag_ok H st"
  shows "map_ok H (node_info_map st)" and "finite (tips st)" and "tips st \<subseteq> dom (node_info_map st)"
    and "finite (root_nodes st)"
proof -
  show "map_ok H (node_info_map st)" and t: "tips st \<subseteq> dom (node_info_map st)" using assms by (simp_all add: ecg_ok_def)
  then have f: "finite (dom (node_info_map st))" by (simp add: map_ok_def)
  from t f show "finite (tips st)" by (rule finite_subset)
  have "root_nodes st \<subseteq> dom (node_info_map st)" using assms by (auto simp: ecg_ok_def)
  from this f show "finite (root_nodes st)" by (rule finite_subset)
qed

lemma part_of_dom: "part_of st' st \<Longrightarrow> dom (node_info_map st') \<subseteq> dom (node_info_map st)"
  unfolding part_of_def by (intro subsetI) (auto simp: domD)

lemma part_of_closed:
  assumes "part_of st' st" and "map_ok H (node_info_map st')" and "S \<subseteq> dom (node_info_map st')"
  shows "ancestors H st S \<subseteq> dom (node_info_map st')"
proof
  fix a assume "a \<in> ancestors H st S"
  then obtain h where h: "h \<in> S" "(a, h) \<in> (parent_rel H (node_info_map st))\<^sup>*" by (auto simp: ancestors_def)
  from h(2) have "h \<in> dom (node_info_map st') \<longrightarrow> a \<in> dom (node_info_map st')"
  proof (induction rule: rtrancl_induct)
    case (step p c)
    show ?case
    proof
      assume "c \<in> dom (node_info_map st')"
      then obtain n where n: "node_info_map st' c = Some n" by auto
      with assms(1) obtain n' where "node_info_map st c = Some n'" "header n' = header n" unfolding part_of_def by blast
      with step.hyps(2) have "p \<in> set (get_parent_ids H (header n))" by (auto simp: parent_rel_def)
      moreover have "set (get_parent_ids H (header n)) \<subseteq> dom (node_info_map st')"
        using assms(2) n unfolding map_ok_def by blast
      ultimately show "a \<in> dom (node_info_map st')" using step.IH by blast
    qed
  qed simp
  with h(1) assms(3) show "a \<in> dom (node_info_map st')" by blast
qed

section \<open>The order of delivery\<close>

fun in_order :: "('h \<Rightarrow> 'h set) \<Rightarrow> 'h set \<Rightarrow> 'h list \<Rightarrow> bool" where
  "in_order P K [] = True"
| "in_order P K (h # hs) = (P h \<subseteq> K \<and> in_order P (insert h K) hs)"

abbreviation parents_in :: "('h, 'hd) header_ops \<Rightarrow> ('g, 'h, 'hd) ecg \<Rightarrow> 'h \<Rightarrow> 'h set" where
  "parents_in H st h \<equiv> {p. (p, h) \<in> parent_rel H (node_info_map st)}"

context known_ecg
begin

lemma children_queue_ok:
  assumes "queue_ok st q" and "h \<in> dom (node_info_map st)" and "get_children_with_depth D st h = Some cs"
  shows "queue_ok st (heap_extend cs q)"
  using assms children_of [OF assms(2)] by (auto simp: queue_ok_def heap_ok_extend heap_simps)

lemma pop_queue_ok:
  assumes "queue_ok st q" and "heap_pop q = Some (x, q')"
  shows "queue_ok st q'" and "e \<in> set q \<Longrightarrow> depth_of (node_info_map st) (snd x) \<le> depth_of (node_info_map st) (snd e)"
proof -
  have q: "set q = insert x (set q')" using heap.pop_elems [OF assms(2)] by (metis set_mset_add_mset_insert set_mset_mset)
  then show "queue_ok st q'" using assms heap.invar_pop [OF _ assms(2)] by (simp add: queue_ok_def)
  assume e: "e \<in> set q"
  with assms(1) heap.pop_max [OF _ assms(2), of e] have "e \<le> x" by (simp add: queue_ok_def)
  then have "fst e \<le> fst x" by (auto simp: less_eq_prod_def)
  moreover have "fst e = Reverse (depth_of (node_info_map st) (snd e))" "fst x = Reverse (depth_of (node_info_map st) (snd x))"
    using assms(1) e q unfolding queue_ok_def by blast+
  ultimately show "depth_of (node_info_map st) (snd x) \<le> depth_of (node_info_map st) (snd e)" by simp
qed

lemma depth_mono:
  assumes "layered H st" and "(a, b) \<in> (parent_rel H (node_info_map st))\<^sup>*"
  shows "depth_of (node_info_map st) a \<le> depth_of (node_info_map st) b"
  using assms(2)
proof (induction rule: rtrancl_induct)
  case (step p c)
  from assms(1) step.hyps(2) have "depth_of (node_info_map st) p < depth_of (node_info_map st) c"
    unfolding layered_def by blast
  with step.IH show ?case by simp
qed simp

text \<open>The parents of the header popped next are held already, when all that is not held is below the queue.\<close>

lemma popped_parents:
  assumes "layered H st" and q: "queue_ok st q" "heap_pop q = Some (x, q')"
    and cover: "dom (node_info_map st) \<subseteq> K \<union> descendants H st (snd ` set q)"
  shows "parents_in H st (snd x) \<subseteq> K"
proof
  fix p assume "p \<in> parents_in H st (snd x)"
  then have p: "(p, snd x) \<in> parent_rel H (node_info_map st)" by simp
  then have "p \<in> dom (node_info_map st)" using ok parent_rel_dom [of H "node_info_map st"] by (auto simp: ecg_ok_def)
  show "p \<in> K"
  proof (rule ccontr)
    assume "p \<notin> K"
    with cover \<open>p \<in> dom (node_info_map st)\<close> have "p \<in> descendants H st (snd ` set q)" by blast
    then obtain e where e: "e \<in> set q" "(snd e, p) \<in> (parent_rel H (node_info_map st))\<^sup>*" by (auto simp: descendants_def)
    from depth_mono [OF assms(1) e(2)] pop_queue_ok(2) [OF q e(1)]
    have "depth_of (node_info_map st) (snd x) \<le> depth_of (node_info_map st) p" by simp
    moreover have "depth_of (node_info_map st) p < depth_of (node_info_map st) (snd x)"
      using assms(1) p unfolding layered_def by blast
    ultimately show False by simp
  qed
qed

text \<open>
  A delivery from a queue below which everything is that is not in \<open>K\<close>: what is sent can be inserted in
  that order by a peer that holds \<open>K\<close>, and below what is left of the queue is all that is missing then.
\<close>

definition delivered_in_order :: "'h set \<Rightarrow> 'h list \<Rightarrow> 'h responder \<Rightarrow> bool" where
  "delivered_in_order K ids r' \<longleftrightarrow> in_order (parents_in H st) K ids \<and> queue_ok st (send_queue r') \<and>
     set ids \<subseteq> dom (node_info_map st) \<and>
     dom (node_info_map st) \<subseteq> K \<union> set ids \<union> descendants H st (snd ` set (send_queue r'))"

lemma pack_inj: "inj_on (pack st) (dom (node_info_map st))"
proof (rule inj_onI)
  fix g h assume "g \<in> dom (node_info_map st)" "h \<in> dom (node_info_map st)" "pack st g = pack st h"
  moreover have "get_header_id H (header (the (node_info_map st h))) = h" if "h \<in> dom (node_info_map st)" for h
    using that ok by (auto simp: ecg_ok_def map_ok_def)
  ultimately show "g = h" by (metis pack_def fst_conv)
qed

lemma deliver_loop_in_order:
  assumes "responder_ok st r" and "length ops < max_deliver_headers" and "layered H st"
    and "queue_ok st (send_queue r)" and "{h. they_know r h} \<subseteq> K"
    and "dom (node_info_map st) \<subseteq> K \<union> descendants H st (snd ` set (send_queue r))"
  shows "\<exists>ids r'. deliver_loop D st ops r = Some (Ret (ops @ map (pack st) ids, r')) \<and>
    delivered (length ops) (descendants H st (snd ` set (send_queue r))) r ids r' \<and> delivered_in_order K ids r'"
proof -
  have "\<exists>ids r'. deliver_loop D st ops r = Some (Ret (ops @ map (pack st) ids, r')) \<and> delivered_in_order K ids r'"
    using assms(1,2,4-6)
  proof (induction arbitrary: K rule: deliver_loop_induct)
    case (stop ops r)
    then show ?case by (intro exI [of _ "[]"] exI [of _ r]) (simp add: delivered_in_order_def descendants_def)
  next
    case (skip ops r x q cs)
    from deliver_pop [OF skip(1,3)] skip(4) have h: "snd x \<in> dom (node_info_map st)"
      "descendants H st (snd ` set (send_queue r)) = insert (snd x) (descendants H st (snd ` set (heap_extend cs q)))" by auto
    have "queue_ok st (heap_extend cs q)"
      by (rule children_queue_ok [OF pop_queue_ok(1) [OF skip(8,3)] h(1) skip(4)])
    moreover have "snd x \<in> K" using skip(5,9) by blast
    ultimately show ?case using skip(6,9,10) skip(7) [of K] h(2) by (simp add: insert_absorb)
  next
    case (send ops r x q cs r1)
    from deliver_pop [OF send(1,3)] send(4) have h: "snd x \<in> dom (node_info_map st)"
      "descendants H st (snd ` set (send_queue r)) = insert (snd x) (descendants H st (snd ` set (heap_extend cs q)))" by auto
    have q: "queue_ok st (send_queue r1)"
      using children_queue_ok [OF pop_queue_ok(1) [OF send(9,3)] h(1) send(4)] send(6) by simp
    have ps: "parents_in H st (snd x) \<subseteq> K" by (rule popped_parents [OF assms(3) send(9,3,11)])
    have K: "{h. they_know r1 h} \<subseteq> insert (snd x) K" using send(6,10) by (auto simp: they_know_def)
    have cover: "dom (node_info_map st) \<subseteq> insert (snd x) K \<union> descendants H st (snd ` set (send_queue r1))"
      using send(6,11) h(2) by simp
    have "\<exists>ids r'. deliver_loop D st ops r = Some (Ret ((ops @ [pack st (snd x)]) @ map (pack st) ids, r')) \<and>
        delivered_in_order (insert (snd x) K) ids r'"
    proof (cases "Suc (length ops) = max_deliver_headers")
      case True
      with send(8) q cover show ?thesis by (intro exI [of _ "[]"] exI [of _ r1]) (simp add: delivered_in_order_def)
    next
      case False
      with send(8) q K cover show ?thesis by simp
    qed
    then obtain ids r' where loop: "deliver_loop D st ops r = Some (Ret ((ops @ [pack st (snd x)]) @ map (pack st) ids, r'))"
      "delivered_in_order (insert (snd x) K) ids r'" by blast
    then show ?case using ps
      by (intro exI [of _ "snd x # ids"] exI [of _ r']) (use h(1) in \<open>simp add: delivered_in_order_def\<close>)
  qed
  then obtain ids r' where r': "deliver_loop D st ops r = Some (Ret (ops @ map (pack st) ids, r'))"
    "delivered_in_order K ids r'" by blast
  from deliver_loop_delivered [OF assms(1,2)] obtain ids2 where
    d: "map (pack st) ids2 = map (pack st) ids"
      "delivered (length ops) (descendants H st (snd ` set (send_queue r))) r ids2 r'" by (auto simp: r'(1))
  have "set ids2 \<subseteq> dom (node_info_map st)"
    using d(2) assms(1) closure_in_dom(2) [OF ok, of "snd ` set (send_queue r)"] by (auto simp: delivered_def responder_ok_def)
  then have "ids2 = ids" using d(1) r'(2) pack_inj
    by (intro map_inj_on [of "pack st"]) (auto simp: delivered_in_order_def elim: inj_on_subset)
  with d(2) r' show ?thesis by blast
qed

section \<open>Serving a request\<close>

text \<open>A responder that has taken its peer to have only what it has, and the headers the peer misses.\<close>

definition serves :: "('g, 'h, 'hd) ecg \<Rightarrow> 'h responder \<Rightarrow> bool" where
  "serves I r \<longleftrightarrow> responder_ok st r \<and> queue_ok st (send_queue r) \<and> their_known r \<subseteq> dom (node_info_map I) \<and> our_unknown r = {}"

definition covers :: "('g, 'h, 'hd) ecg \<Rightarrow> 'h responder \<Rightarrow> bool" where
  "covers I r \<longleftrightarrow> dom (node_info_map st) \<subseteq> dom (node_info_map I) \<union> descendants H st (snd ` set (send_queue r))"

definition serve_step :: "('g, 'h, 'hd) ecg \<Rightarrow> 'h responder \<Rightarrow> 'h responder \<Rightarrow> bool" where
  "serve_step I r r' \<longleftrightarrow> serves I r' \<and> sent_haves r' = sent_haves r \<and> haves_queue r' = haves_queue r \<and>
     their_known r \<subseteq> their_known r' \<and> set (send_queue r) \<subseteq> set (send_queue r')"

lemma serve_step_refl: "serves I r \<Longrightarrow> serve_step I r r"
  by (simp add: serve_step_def)

lemma serve_step_trans: "serve_step I r r1 \<Longrightarrow> serve_step I r1 r2 \<Longrightarrow> serve_step I r r2"
  unfolding serve_step_def by (elim conjE, intro conjI) (assumption | simp | erule (1) order_trans)+

lemma covers_mono: "covers I r \<Longrightarrow> serve_step I r r' \<Longrightarrow> covers I r'"
  unfolding covers_def serve_step_def descendants_def by (elim conjE) (erule order_trans, blast)

lemma serve_mark:
  assumes "serves I r" and "part_of I st" and "map_ok H (node_info_map I)" and h: "h \<in> dom (node_info_map I)"
  shows "\<exists>k cs. mark_as_known D st r h = Some (Ret (r\<lparr>their_known := k\<rparr>)) \<and> get_children_with_depth D st h = Some cs \<and>
    serve_step I r (r\<lparr>their_known := k, send_queue := heap_extend cs (send_queue r)\<rparr>) \<and>
    {c. (h, c) \<in> parent_rel H (node_info_map st)} \<subseteq> snd ` set (heap_extend cs (send_queue r))"
proof -
  have r: "responder_ok st r" "queue_ok st (send_queue r)" "their_known r \<subseteq> dom (node_info_map I)" "our_unknown r = {}"
    using assms(1) by (simp_all add: serves_def)
  have hst: "h \<in> dom (node_info_map st)" using h part_of_dom [OF assms(2)] by blast
  from mark_as_known_ok [OF r(1) hst] obtain k where
    k: "mark_as_known D st r h = Some (Ret (r\<lparr>their_known := k\<rparr>))" "insert h (their_known r) \<subseteq> k"
      "k \<subseteq> their_known r \<union> ancestors H st {h}" "responder_ok st (r\<lparr>their_known := k\<rparr>)" by blast
  from children_of [OF hst] obtain cs where
    cs: "get_children_with_depth D st h = Some cs"
      "set cs = (\<lambda>c. (Reverse (depth_of (node_info_map st) c), c)) ` {c. (h, c) \<in> parent_rel H (node_info_map st)}" by blast
  have "ancestors H st {h} \<subseteq> dom (node_info_map I)"
    by (rule part_of_closed [OF assms(2,3)]) (use h in simp)
  then have "k \<subseteq> dom (node_info_map I)" using k(3) r(3) by blast
  moreover have "queue_ok st (heap_extend cs (send_queue r))" by (rule children_queue_ok [OF r(2) hst cs(1)])
  moreover have "responder_ok st (r\<lparr>their_known := k, send_queue := heap_extend cs (send_queue r)\<rparr>)"
    using extend_children_ok [OF k(4) hst cs(1)] by simp
  ultimately have "serve_step I r (r\<lparr>their_known := k, send_queue := heap_extend cs (send_queue r)\<rparr>)"
    using k(2) r(4) by (simp add: serve_step_def serves_def heap_simps)
  moreover have "{c. (h, c) \<in> parent_rel H (node_info_map st)} \<subseteq> snd ` set (heap_extend cs (send_queue r))"
    by (auto simp: heap_simps cs(2) image_Un image_image)
  ultimately show ?thesis using k(1) cs(1) by blast
qed

lemma serve_tip:
  assumes "serves I r" and "part_of I st" and "map_ok H (node_info_map I)" and h: "h \<in> dom (node_info_map I)"
  shows "\<exists>r'. handle_tip D st r h = Some (Ret r') \<and> serve_step I r r' \<and>
    {c. (h, c) \<in> parent_rel H (node_info_map st)} \<subseteq> snd ` set (send_queue r')"
proof -
  from serve_mark [OF assms] obtain k cs where
    m: "mark_as_known D st r h = Some (Ret (r\<lparr>their_known := k\<rparr>))" "get_children_with_depth D st h = Some cs"
      "serve_step I r (r\<lparr>their_known := k, send_queue := heap_extend cs (send_queue r)\<rparr>)"
      "{c. (h, c) \<in> parent_rel H (node_info_map st)} \<subseteq> snd ` set (heap_extend cs (send_queue r))" by blast
  have "contains st h" using h part_of_dom [OF assms(2)] by (auto simp: contains_def split: option.split)
  with m(1,2) have "handle_tip D st r h = Some (Ret (r\<lparr>their_known := k, send_queue := heap_extend cs (send_queue r)\<rparr>))"
    by (simp add: handle_tip_def)
  moreover have "send_queue (r\<lparr>their_known := k, send_queue := heap_extend cs (send_queue r)\<rparr>) = heap_extend cs (send_queue r)"
    by simp
  ultimately show ?thesis using m(3,4) by (metis (no_types, lifting))
qed

lemma serve_tips:
  assumes "serves I r" and "part_of I st" and "map_ok H (node_info_map I)" and "set ts \<subseteq> dom (node_info_map I)"
  shows "\<exists>r'. foldL (handle_tip D st) r ts = Some (Ret r') \<and> serve_step I r r' \<and>
    {c. \<exists>h \<in> set ts. (h, c) \<in> parent_rel H (node_info_map st)} \<subseteq> snd ` set (send_queue r')"
  using assms(1,4)
proof (induction ts arbitrary: r)
  case Nil
  then show ?case by (simp add: serve_step_refl)
next
  case (Cons h ts)
  have h: "h \<in> dom (node_info_map I)" "set ts \<subseteq> dom (node_info_map I)" using Cons.prems(2) by simp_all
  from serve_tip [OF Cons.prems(1) assms(2,3) h(1)] obtain r1 where
    r1: "handle_tip D st r h = Some (Ret r1)" "serve_step I r r1"
      "{c. (h, c) \<in> parent_rel H (node_info_map st)} \<subseteq> snd ` set (send_queue r1)" by blast
  have "serves I r1" using r1(2) by (simp add: serve_step_def)
  from Cons.IH [OF this h(2)] obtain r2 where
    r2: "foldL (handle_tip D st) r1 ts = Some (Ret r2)" "serve_step I r1 r2"
      "{c. \<exists>h \<in> set ts. (h, c) \<in> parent_rel H (node_info_map st)} \<subseteq> snd ` set (send_queue r2)"
    by blast
  have "snd ` set (send_queue r1) \<subseteq> snd ` set (send_queue r2)"
    by (rule image_mono) (use r2(2) in \<open>simp add: serve_step_def\<close>)
  with r1(3) r2(3) have "{c. \<exists>h' \<in> set (h # ts). (h', c) \<in> parent_rel H (node_info_map st)} \<subseteq> snd ` set (send_queue r2)"
    by auto
  with r1(1) r2(1) serve_step_trans [OF r1(2) r2(2)] show ?case by simp
qed

lemma roots_above: "h \<in> dom (node_info_map st) \<Longrightarrow> h \<in> descendants H st (root_nodes st)"
proof (induction h rule: wf_induct_rule [OF ecg_ok_wf(1) [OF ok]])
  case (1 h)
  from 1(2) obtain n where n: "node_info_map st h = Some n" by auto
  show ?case
  proof (cases "get_parent_ids H (header n) = []")
    case True
    with n ok have "h \<in> root_nodes st" by (simp add: ecg_ok_def)
    then show ?thesis by (rule subsetD [OF self_ancestor(2)])
  next
    case False
    then obtain p where "p \<in> set (get_parent_ids H (header n))" by (cases "get_parent_ids H (header n)") auto
    then have p: "(p, h) \<in> parent_rel H (node_info_map st)" using n by (auto simp: parent_rel_def)
    then have "p \<in> dom (node_info_map st)" using parent_rel_dom [OF ecg_ok_parts(1) [OF ok]] by blast
    from 1(1) [OF p this] obtain x where "x \<in> root_nodes st" "(x, p) \<in> (parent_rel H (node_info_map st))\<^sup>*"
      unfolding descendants_def by blast
    with rtrancl_into_rtrancl [OF this(2) p] show ?thesis unfolding descendants_def by blast
  qed
qed

lemma serve_roots:
  assumes "serves I r"
  shows "serve_step I r (r\<lparr>send_queue := heap_extend (get_root_nodes_with_depth st) (send_queue r)\<rparr>)"
    and "root_nodes st \<subseteq> snd ` set (heap_extend (get_root_nodes_with_depth st) (send_queue r))"
proof -
  have fin: "finite (root_nodes st)" by (rule ecg_ok_parts(4) [OF ok])
  have depth: "depth_of (node_info_map st) h = 1" if "h \<in> root_nodes st" for h
    using that ok by (auto simp: ecg_ok_def map_ok_def depth_of_def depth_from_def)
  have "queue_ok st (heap_extend (get_root_nodes_with_depth st) (send_queue r))"
    using assms fin depth by (auto simp: serves_def queue_ok_def heap_ok_extend heap_simps get_root_nodes_with_depth_def)
  then show "serve_step I r (r\<lparr>send_queue := heap_extend (get_root_nodes_with_depth st) (send_queue r)\<rparr>)"
    using assms roots_ok [of r] by (simp add: serve_step_def serves_def heap_simps)
  show "root_nodes st \<subseteq> snd ` set (heap_extend (get_root_nodes_with_depth st) (send_queue r))"
    using fin by (force simp: heap_simps get_root_nodes_with_depth_def)
qed

text \<open>
  The first request leaves nothing out: an initiator without headers gets the roots, any other the children
  of its tips, when all it misses is below them.
\<close>

definition behind :: "('g, 'h, 'hd) ecg \<Rightarrow> bool" where
  "behind I \<longleftrightarrow> tips I = {} \<or> dom (node_info_map st) \<subseteq> dom (node_info_map I) \<union> descendants H st (tips I)"

lemma serve_request:
  assumes "serves I r" and "part_of I st" and I: "ecg_ok D dag_ok H I"
  shows "\<exists>r'. handle_their_tips D st r (sorted_list_of_set (tips I)) = Some (Ret r') \<and> serve_step I r r' \<and>
    (behind I \<longrightarrow> covers I r')"
proof -
  have m: "map_ok H (node_info_map I)" and ts: "finite (tips I)" "tips I \<subseteq> dom (node_info_map I)"
    by (rule ecg_ok_parts [OF I])+
  show ?thesis
  proof (cases "tips I = {}")
    case True
    have "descendants H st (root_nodes st) \<subseteq>
        descendants H st (snd ` set (heap_extend (get_root_nodes_with_depth st) (send_queue r)))"
      using serve_roots(2) [OF assms(1)] unfolding descendants_def by blast
    moreover have "dom (node_info_map st) \<subseteq> descendants H st (root_nodes st)" using roots_above by blast
    ultimately have "covers I (r\<lparr>send_queue := heap_extend (get_root_nodes_with_depth st) (send_queue r)\<rparr>)"
      by (auto simp: covers_def)
    with True serve_roots(1) [OF assms(1)] show ?thesis by (auto simp: handle_their_tips_def)
  next
    case False
    then have ne: "sorted_list_of_set (tips I) \<noteq> []" using ts(1) by simp
    from serve_tips [OF assms(1,2) m, of "sorted_list_of_set (tips I)"] ts obtain r' where
      r': "foldL (handle_tip D st) r (sorted_list_of_set (tips I)) = Some (Ret r')" "serve_step I r r'"
        "{c. \<exists>h \<in> tips I. (h, c) \<in> parent_rel H (node_info_map st)} \<subseteq> snd ` set (send_queue r')" by auto
    have "covers I r'" if "behind I"
      unfolding covers_def
    proof
      fix d assume d: "d \<in> dom (node_info_map st)"
      show "d \<in> dom (node_info_map I) \<union> descendants H st (snd ` set (send_queue r'))"
      proof (cases "d \<in> dom (node_info_map I)")
        case out: False
        with d that False obtain t where t: "t \<in> tips I" "(t, d) \<in> (parent_rel H (node_info_map st))\<^sup>*"
          by (auto simp: behind_def descendants_def)
        with ts(2) out have "t \<noteq> d" by blast
        with t(2) obtain c where "(t, c) \<in> parent_rel H (node_info_map st)" "(c, d) \<in> (parent_rel H (node_info_map st))\<^sup>*"
          by (meson converse_rtranclE)
        with t(1) r'(3) show ?thesis unfolding descendants_def by blast
      qed simp
    qed
    with r'(1,2) ne show ?thesis by (auto simp: handle_their_tips_def)
  qed
qed

lemma serve_known_bit:
  assumes r: "serves I r" and "part_of I st" and "map_ok H (node_info_map I)" and h: "h \<in> dom (node_info_map st)"
    and i: "i < length bits" "bits ! i \<longrightarrow> h \<in> dom (node_info_map I)"
  shows "\<exists>r'. handle_known_bit D st bits r (i, h) = Some (Ret r') \<and> serve_step I r r'"
proof (cases "bits ! i")
  case True
  from serve_mark [OF assms(1-3)] i(2) True obtain k cs where
    m: "mark_as_known D st r h = Some (Ret (r\<lparr>their_known := k\<rparr>))" "get_children_with_depth D st h = Some cs"
      "serve_step I r (r\<lparr>their_known := k, send_queue := heap_extend cs (send_queue r)\<rparr>)" by blast
  with True i(1) show ?thesis by (simp add: handle_known_bit_def)
next
  case False
  from parents_of [OF h] obtain ps where ps: "get_parents D st h = Some ps" by blast
  from h obtain n where n: "node_info_map st h = Some n" by auto
  then have d: "get_header_depth st h = Some (depth n)" "depth_of (node_info_map st) h = depth n"
    by (simp_all add: get_header_depth_def depth_of_def)
  have "queue_ok st (heap_push (Reverse (depth n), h) (send_queue r))"
    using r d(2) by (auto simp: serves_def queue_ok_def heap_ok_push heap_simps)
  then have "serve_step I r (r\<lparr>send_queue := heap_push (Reverse (depth n), h) (send_queue r)\<rparr>)"
    using r h by (auto simp: serve_step_def serves_def responder_ok_def heap_simps)
  with ps d(1) False i(1) serve_step_refl [OF r] show ?thesis by (auto simp: handle_known_bit_def)
qed

lemma serve_known:
  assumes r: "serves I r" and "part_of I st" and "map_ok H (node_info_map I)"
    and bits: "known_bits I (sent_haves r) = Ret bits"
  shows "\<exists>r'. handle_their_known D st r bits = Some (Ret r') \<and> serve_step I r r'"
proof -
  let ?hs = "sent_haves r"
  have hs: "length ?hs \<le> max_have_headers" "set ?hs \<subseteq> dom (node_info_map st)"
    using r by (simp_all add: serves_def responder_ok_def)
  have b: "bits = map (\<lambda>i. i < length ?hs \<and> contains I (?hs ! i)) [0 ..< max_have_headers]"
    using bits hs(1) by (simp add: known_bits_exact split: if_splits)
  have "\<exists>r'. foldL (handle_known_bit D st bits) r (zip [0 ..< length ?hs] ?hs) = Some (Ret r') \<and> serve_step I r r'"
  proof (rule foldL_invariant)
    fix r1 x assume x: "x \<in> set (zip [0 ..< length ?hs] ?hs)" and r1: "serve_step I r r1"
    then obtain i where i: "i < length ?hs" "x = (i, ?hs ! i)" by (auto simp: set_zip)
    have s: "serves I r1" using r1 by (simp add: serve_step_def)
    have h: "?hs ! i \<in> dom (node_info_map st)" using hs(2) i(1) by (meson nth_mem subsetD)
    have l: "i < length bits" "bits ! i \<longrightarrow> ?hs ! i \<in> dom (node_info_map I)"
      using i(1) hs(1) by (auto simp: b contains_def split: option.splits)
    from serve_known_bit [OF s assms(2,3) h l] obtain r2 where
      "handle_known_bit D st bits r1 (i, ?hs ! i) = Some (Ret r2)" "serve_step I r1 r2" by blast
    with serve_step_trans [OF r1] i(2) show "\<exists>r2. handle_known_bit D st bits r1 x = Some (Ret r2) \<and> serve_step I r r2" by blast
  qed (rule serve_step_refl [OF r])
  then show ?thesis by (simp add: handle_their_known_def)
qed

section \<open>The response\<close>

text \<open>
  What a response does for an initiator \<open>I\<close> that misses headers: it sends headers that the responder has
  not sent before, in an order in which \<open>I\<close> can insert them; 32 of them, or all that \<open>I\<close> misses.
\<close>

definition responds where
  "responds I r r' ids \<longleftrightarrow> responder_ok st r' \<and> queue_ok st (send_queue r') \<and> our_unknown r' = {} \<and>
     their_known r' \<subseteq> dom (node_info_map I) \<union> set ids \<and>
     dom (node_info_map st) \<subseteq> dom (node_info_map I) \<union> set ids \<union> descendants H st (snd ` set (send_queue r')) \<and>
     in_order (parents_in H st) (dom (node_info_map I)) ids \<and> set ids \<subseteq> dom (node_info_map st) \<and>
     distinct ids \<and> set ids \<inter> their_known r = {} \<and> their_known r \<union> set ids \<subseteq> their_known r' \<and>
     length ids \<le> max_deliver_headers \<and>
     (length ids = max_deliver_headers \<or> dom (node_info_map st) \<subseteq> dom (node_info_map I) \<union> set ids)"

lemma response_delivers:
  assumes r: "serves I r" and c: "covers I r" and "layered H st" and s: "is_open s"
    and miss: "\<not> dom (node_info_map st) \<subseteq> dom (node_info_map I)"
  shows "\<exists>ids r'. response_turn D True ts st (r, s) =
      Some (Ret (True, r', s\<lparr>outgoing := outgoing s @ [ECGResponse (EcgResponse (sent_haves r') (map (pack st) ids))]\<rparr>)) \<and>
    responds I r r' ids"
proof -
  from r have ok': "responder_ok st r" by (simp add: serves_def)
  from prepare_our_tips_ok [OF ok'] obtain q where
    q: "prepare_our_tips st r = Ret (r\<lparr>haves_queue := q\<rparr>)" "responder_ok st (r\<lparr>haves_queue := q\<rparr>)" by blast
  have pre: "queue_ok st (send_queue (r\<lparr>haves_queue := q\<rparr>))"
    "{h. they_know (r\<lparr>haves_queue := q\<rparr>) h} \<subseteq> dom (node_info_map I)"
    "dom (node_info_map st) \<subseteq> dom (node_info_map I) \<union> descendants H st (snd ` set (send_queue (r\<lparr>haves_queue := q\<rparr>)))"
    using r c by (auto simp: serves_def they_know_def covers_def)
  have zero: "length ([] :: ('hd \<times> bytes) list) < max_deliver_headers" by (simp add: max_deliver_headers_def)
  from deliver_loop_in_order [OF q(2) zero assms(3) pre] obtain ids r2 where
    d: "deliver_loop D st [] (r\<lparr>haves_queue := q\<rparr>) = Some (Ret (map (pack st) ids, r2))"
      "delivered 0 (descendants H st (snd ` set (send_queue r))) (r\<lparr>haves_queue := q\<rparr>) ids r2"
      "delivered_in_order (dom (node_info_map I)) ids r2" by auto
  have r2: "responder_ok st r2" "their_known r2 = their_known r \<union> set ids" "our_unknown r2 = {}" "distinct ids"
    "\<forall>h \<in> set ids. h \<notin> their_known r" "length ids \<le> max_deliver_headers"
    "length ids < max_deliver_headers \<longrightarrow> send_queue r2 = []"
    using d(2) r by (auto simp: delivered_def they_know_def serves_def)
  have ord: "in_order (parents_in H st) (dom (node_info_map I)) ids" "queue_ok st (send_queue r2)"
    "set ids \<subseteq> dom (node_info_map st)"
    "dom (node_info_map st) \<subseteq> dom (node_info_map I) \<union> set ids \<union> descendants H st (snd ` set (send_queue r2))"
    using d(3) by (simp_all add: delivered_in_order_def)
  from prepare_sent_haves_ok [OF r2(1)] obtain r3 where
    r3: "prepare_sent_haves D st r2 = Some (Ret r3)" "responder_ok st r3" "their_known r3 = their_known r2"
      "our_unknown r3 = our_unknown r2" "send_queue r3 = send_queue r2" by blast
  have full: "length ids = max_deliver_headers \<or> dom (node_info_map st) \<subseteq> dom (node_info_map I) \<union> set ids"
  proof (cases "length ids = max_deliver_headers")
    case False
    with r2(6,7) have "send_queue r2 = []" by simp
    with ord(4) show ?thesis by (simp add: descendants_def)
  qed simp
  with miss have ne: "ids \<noteq> []" by (auto simp: max_deliver_headers_def)
  have "response_turn D True ts st (r, s) =
      Some (Ret (True, r3, s\<lparr>outgoing := outgoing s @ [ECGResponse (EcgResponse (sent_haves r3) (map (pack st) ids))]\<rparr>))"
    using q(1) d(1) r3(1) ne s unfolding response_turn_def by (simp add: prepare_operations_def send_expect_open)
  moreover have "responds I r r3 ids"
    using r3(2-5) r2(2-6) ord full r by (auto simp: responds_def serves_def)
  ultimately show ?thesis by blast
qed

end

section \<open>What the initiator does with it\<close>

lemma part_of_insert:
  assumes "part_of I st" and "node_info_map st h = Some n"
    and "node_info_map I' = (node_info_map I)(h \<mapsto> \<lparr>graph_index = i, depth = d, header = header n, operations = operations n\<rparr>)"
  shows "part_of I' st"
  unfolding part_of_def
proof (intro allI impI)
  fix g k assume "node_info_map I' g = Some k"
  then consider "g = h" "header k = header n" "operations k = operations n" | "node_info_map I g = Some k"
    by (auto simp: assms(3) split: if_splits)
  then show "\<exists>n'. node_info_map st g = Some n' \<and> header n' = header k \<and> operations n' = operations k"
    by cases (use assms(1,2) in \<open>auto simp: part_of_def\<close>)
qed

lemma insert_delivered:
  assumes D: "stable_dag D dag_ok" and st: "ecg_ok D dag_ok H st" and room: "card (dom (node_info_map st)) < u64_max"
    and "ecg_ok D dag_ok H I" and "part_of I st" and "in_order (parents_in H st) (dom (node_info_map I)) ids"
    and "set ids \<subseteq> dom (node_info_map st)"
  shows "\<exists>I'. insert_received D H I (map (pack st) ids) = Ret I' \<and> ecg_ok D dag_ok H I' \<and> part_of I' st \<and>
    dom (node_info_map I') = dom (node_info_map I) \<union> set ids"
  using assms(4-7)
proof (induction ids arbitrary: I)
  case Nil
  then show ?case by (simp add: insert_received_def)
next
  case (Cons h ids)
  have fin: "finite (dom (node_info_map st))" using ecg_ok_parts(1) [OF st] by (simp add: map_ok_def)
  have room': "card (dom (node_info_map I)) < u64_max"
    using card_mono [OF fin part_of_dom [OF Cons.prems(2)]] room by simp
  from Cons.prems(4) obtain n where n: "node_info_map st h = Some n" by auto
  with ecg_ok_parts(1) [OF st] have h: "get_header_id H (header n) = h" "validate_header H (header n) h"
    by (simp_all add: map_ok_def)
  have ps: "set (get_parent_ids H (header n)) \<subseteq> dom (node_info_map I)"
    using Cons.prems(3) n by (auto simp: parent_rel_def)
  have pk: "pack st h = (header n, operations n)" by (simp add: pack_def n)
  have "\<exists>b I1. insert_header D H I (header n) (operations n) = Ret (b, I1) \<and> ecg_ok D dag_ok H I1 \<and> part_of I1 st \<and>
      dom (node_info_map I1) = insert h (dom (node_info_map I))"
  proof (cases "h \<in> dom (node_info_map I)")
    case True
    then have "\<not> insertable H I (header n)" by (simp add: insertable_def h(1))
    from stable_dag.insert_header_rejected [OF D Cons.prems(1) room' this, of "operations n"] Cons.prems(1,2) True
    show ?thesis by (intro exI [of _ False] exI [of _ I]) (simp add: insert_absorb)
  next
    case False
    then have "insertable H I (header n)" using h ps by (simp add: insertable_def)
    from stable_dag.insert_header_accepted [OF D Cons.prems(1) room' this, of "operations n"] obtain I1 i where
      I1: "insert_header D H I (header n) (operations n) = Ret (True, I1)" "ecg_ok D dag_ok H I1"
        "node_info_map I1 = (node_info_map I)(h \<mapsto> \<lparr>graph_index = i,
           depth = depth_from (node_info_map I) (get_parent_ids H (header n)), header = header n, operations = operations n\<rparr>)"
      unfolding h(1) by blast
    from part_of_insert [OF Cons.prems(2) n I1(3)] I1 show ?thesis by (intro exI [of _ True] exI [of _ I1]) simp
  qed
  then obtain b I1 where I1: "insert_header D H I (header n) (operations n) = Ret (b, I1)" "ecg_ok D dag_ok H I1"
    "part_of I1 st" "dom (node_info_map I1) = insert h (dom (node_info_map I))" by blast
  from Cons.IH [OF I1(2,3)] I1(4) Cons.prems(3,4) obtain I2 where
    "insert_received D H I1 (map (pack st) ids) = Ret I2" "ecg_ok D dag_ok H I2" "part_of I2 st"
    "dom (node_info_map I2) = insert h (dom (node_info_map I)) \<union> set ids" by auto
  with I1(1) show ?case by (intro exI [of _ I2]) (simp add: insert_received_def pk)
qed

section \<open>Rounds\<close>

text \<open>
  Rounds between an initiator with the graph \<open>I\<close> and a responder with the graph \<open>st\<close>: the responder is handed
  what the initiator sent, the initiator receives what the responder sent, and inserts the headers in
  the order received. The responder does not wait, so that the store's updates are not needed.
\<close>

abbreviation stream_of :: "'m list \<Rightarrow> 'm stream" where
  "stream_of ms \<equiv> \<lparr>incoming = map Inr ms, outgoing = [], is_open = True\<rparr>"

inductive sync_rounds ::
    "('g, 'h :: linorder) dag_ops \<Rightarrow> ('h, 'hd) header_ops \<Rightarrow> ('g, 'h, 'hd) ecg \<Rightarrow> ('g, 'h, 'hd) ecg
     \<Rightarrow> nat \<Rightarrow> ('g, 'h, 'hd) ecg \<Rightarrow> 'h initiator \<Rightarrow> 'h responder \<Rightarrow> bool"
  for D H st I where
  first: "run_new (stream_of (outgoing s :: ('h, 'h, 'hd) store_sync_msg list)) I = Ret ((self, received), s') \<Longrightarrow> outgoing s' = [Request (ECGInitialSync ts)] \<Longrightarrow>
    run_initial D ts st [] (responder_new, stream_of []) = Some (Ret (True, r, s)) \<Longrightarrow>
    insert_received D H I received = Ret I' \<Longrightarrow> sync_rounds D H st I 1 I' self r"
| next_round: "sync_rounds D H st I n I1 self r \<Longrightarrow>
    run_round_initiator self (stream_of (outgoing s :: ('h, 'h, 'hd) store_sync_msg list)) I1 = Ret ((self', received), s') \<Longrightarrow>
    outgoing s' = [Request (ECGSync ts bits)] \<Longrightarrow>
    run_round_responder D ts bits st [] (r, stream_of []) = Some (Ret (True, r', s)) \<Longrightarrow>
    insert_received D H I1 received = Ret I2 \<Longrightarrow> sync_rounds D H st I (Suc n) I2 self' r'"

lemma initiator_receives:
  "receive_response_helper \<lparr>incoming = [Inr (ECGResponse (EcgResponse hs ops))], outgoing = ms, is_open = True\<rparr> =
     Ret ((hs, ops), \<lparr>incoming = [], outgoing = ms, is_open = True\<rparr>)"
  by (simp add: receive_response_helper_def receive_expect_def receive_def)

lemma run_new_receives:
  "run_new (stream_of [ECGResponse (EcgResponse hs ops)]) I =
     Ret ((\<lparr>initiator_have = hs\<rparr>, ops),
       \<lparr>incoming = [], outgoing = [Request (ECGInitialSync (sorted_list_of_set (tips I)))], is_open = True\<rparr>)"
  by (simp add: run_new_def send_expect_open initiator_receives)

lemma run_round_initiator_receives:
  assumes "known_bits I (initiator_have self) = Ret bits"
  shows "run_round_initiator self (stream_of [ECGResponse (EcgResponse hs ops)]) I =
     Ret ((self\<lparr>initiator_have := hs\<rparr>, ops),
       \<lparr>incoming = [], outgoing = [Request (ECGSync (sorted_list_of_set (tips I)) bits)], is_open = True\<rparr>)"
  by (simp add: run_round_initiator_def assms send_expect_open initiator_receives)

lemma known_ecgI:
  assumes "stable_dag D dag_ok" and "ecg_ok D dag_ok H st"
  shows "known_ecg D dag_ok H st"
  using assms by (intro known_ecg.intro known_ecg_axioms.intro)

context known_ecg
begin

text \<open>Between two rounds, with \<open>n\<close> full ones behind.\<close>

definition syncing :: "nat \<Rightarrow> ('g, 'h, 'hd) ecg \<Rightarrow> 'h initiator \<Rightarrow> 'h responder \<Rightarrow> bool" where
  "syncing n I self r \<longleftrightarrow> ecg_ok D dag_ok H I \<and> part_of I st \<and> serves I r \<and> covers I r \<and>
     sent_haves r = initiator_have self \<and> 32 * n \<le> card (their_known r)"

lemma responded:
  assumes room: "card (dom (node_info_map st)) < u64_max" and I: "ecg_ok D dag_ok H I" "part_of I st"
    and r: "responds I r r' ids" and n: "32 * n \<le> card (their_known r)"
  shows "\<exists>I'. insert_received D H I (map (pack st) ids) = Ret I' \<and> ecg_ok D dag_ok H I' \<and> part_of I' st \<and>
    (dom (node_info_map st) \<subseteq> dom (node_info_map I') \<or> syncing (Suc n) I' \<lparr>initiator_have = sent_haves r'\<rparr> r')"
proof -
  from r have ids: "in_order (parents_in H st) (dom (node_info_map I)) ids" "set ids \<subseteq> dom (node_info_map st)"
    by (simp_all add: responds_def)
  from insert_delivered [OF stable_dag_axioms ok room I ids] obtain I' where
    I': "insert_received D H I (map (pack st) ids) = Ret I'" "ecg_ok D dag_ok H I'" "part_of I' st"
      "dom (node_info_map I') = dom (node_info_map I) \<union> set ids" by blast
  have "syncing (Suc n) I' \<lparr>initiator_have = sent_haves r'\<rparr> r'" if "length ids = max_deliver_headers"
  proof -
    have "finite (their_known r')"
    proof (rule finite_subset)
      show "their_known r' \<subseteq> dom (node_info_map st)" using r by (simp add: responds_def responder_ok_def)
      show "finite (dom (node_info_map st))" using ecg_ok_parts(1) [OF ok] by (simp add: map_ok_def)
    qed
    moreover have new: "their_known r \<union> set ids \<subseteq> their_known r'" "set ids \<inter> their_known r = {}" "distinct ids"
      using r by (simp_all add: responds_def)
    ultimately have "card (their_known r) + card (set ids) \<le> card (their_known r')"
      by (metis card_Un_disjoint card_mono finite_Un finite_subset inf_commute)
    moreover have "card (set ids) = 32" using new(3) that by (simp add: distinct_card max_deliver_headers_def)
    ultimately have "32 * Suc n \<le> card (their_known r')" using n by simp
    with I'(2-4) r show ?thesis by (simp add: syncing_def serves_def covers_def responds_def)
  qed
  moreover have "length ids = max_deliver_headers \<or> dom (node_info_map st) \<subseteq> dom (node_info_map I')"
    using r I'(4) by (simp add: responds_def)
  ultimately show ?thesis using I'(1-3) by blast
qed

lemma first_round:
  assumes room: "card (dom (node_info_map st)) < u64_max" and "layered H st" and I: "ecg_ok D dag_ok H I" "part_of I st"
    and "behind I" and miss: "\<not> dom (node_info_map st) \<subseteq> dom (node_info_map I)"
  shows "\<exists>I' self r. sync_rounds D H st I 1 I' self r \<and> ecg_ok D dag_ok H I' \<and> part_of I' st \<and>
    (dom (node_info_map st) \<subseteq> dom (node_info_map I') \<or> syncing 1 I' self r)"
proof -
  let ?ts = "sorted_list_of_set (tips I)"
  have "serves I responder_new"
    by (simp add: serves_def responder_new_ok) (simp add: responder_new_def queue_ok_def heap_ok_Nil)
  from serve_request [OF this I(2,1)] assms(5) obtain r1 where
    r1: "handle_their_tips D st responder_new ?ts = Some (Ret r1)" "serve_step I responder_new r1" "covers I r1" by blast
  then have "serves I r1" by (simp add: serve_step_def)
  from response_delivers [OF this r1(3) assms(2) _ miss,
      of "stream_of [] :: ('h, 'h, 'hd) store_sync_msg stream" ?ts] obtain ids r' where
    t: "response_turn D True ?ts st (r1, stream_of [] :: ('h, 'h, 'hd) store_sync_msg stream) =
        Some (Ret (True, r', \<lparr>incoming = [], outgoing = [ECGResponse (EcgResponse (sent_haves r') (map (pack st) ids))], is_open = True\<rparr>))"
      "responds I r1 r' ids" by auto
  from responded [OF room I t(2), of 0] obtain I' where
    I': "insert_received D H I (map (pack st) ids) = Ret I'" "ecg_ok D dag_ok H I'" "part_of I' st"
      "dom (node_info_map st) \<subseteq> dom (node_info_map I') \<or> syncing 1 I' \<lparr>initiator_have = sent_haves r'\<rparr> r'" by auto
  let ?s = "\<lparr>incoming = [], outgoing = [ECGResponse (EcgResponse (sent_haves r') (map (pack st) ids))], is_open = True\<rparr> ::
      ('h, 'h, 'hd) store_sync_msg stream"
  have "run_initial D ?ts st [] (responder_new, stream_of []) = Some (Ret (True, r', ?s))"
    by (simp add: run_initial_def r1(1) t(1) [simplified])
  note run = this
  have "run_new (stream_of (outgoing ?s)) I = Ret ((\<lparr>initiator_have = sent_haves r'\<rparr>, map (pack st) ids),
      \<lparr>incoming = [], outgoing = [Request (ECGInitialSync ?ts)], is_open = True\<rparr>)"
    using run_new_receives by simp
  from sync_rounds.first [OF this _ run I'(1)] have
    "sync_rounds D H st I 1 I' \<lparr>initiator_have = sent_haves r'\<rparr> r'" by simp
  with I'(2-4) show ?thesis by blast
qed

lemma later_round:
  assumes room: "card (dom (node_info_map st)) < u64_max" and "layered H st" and run: "sync_rounds D H st I n I1 self r"
    and s: "syncing n I1 self r" and miss: "\<not> dom (node_info_map st) \<subseteq> dom (node_info_map I1)"
  shows "\<exists>I' self' r'. sync_rounds D H st I (Suc n) I' self' r' \<and> ecg_ok D dag_ok H I' \<and> part_of I' st \<and>
    (dom (node_info_map st) \<subseteq> dom (node_info_map I') \<or> syncing (Suc n) I' self' r')"
proof -
  let ?ts = "sorted_list_of_set (tips I1)"
  have I1: "ecg_ok D dag_ok H I1" "part_of I1 st" and r: "serves I1 r" "covers I1 r" "sent_haves r = initiator_have self"
    and n: "32 * n \<le> card (their_known r)" using s by (simp_all add: syncing_def)
  from r have "length (initiator_have self) \<le> max_have_headers" by (simp add: serves_def responder_ok_def)
  then obtain bits where bits: "known_bits I1 (initiator_have self) = Ret bits" by (auto simp: known_bits_exact)
  from serve_request [OF r(1) I1(2,1)] obtain r1 where
    r1: "handle_their_tips D st r ?ts = Some (Ret r1)" "serve_step I1 r r1" by blast
  then have s1: "serves I1 r1" "sent_haves r1 = initiator_have self" using r(3) by (simp_all add: serve_step_def)
  from serve_known [OF s1(1) I1(2) ecg_ok_parts(1) [OF I1(1)]] bits s1(2) obtain r2 where
    r2: "handle_their_known D st r1 bits = Some (Ret r2)" "serve_step I1 r1 r2" by auto
  note step = serve_step_trans [OF r1(2) r2(2)]
  have s2: "serves I1 r2" using r2(2) by (simp add: serve_step_def)
  have "finite (their_known r2)"
  proof (rule finite_subset)
    show "their_known r2 \<subseteq> dom (node_info_map st)" using s2 by (simp add: serves_def responder_ok_def)
    show "finite (dom (node_info_map st))" using ecg_ok_parts(1) [OF ok] by (simp add: map_ok_def)
  qed
  from card_mono [OF this, of "their_known r"] step n have n2: "32 * n \<le> card (their_known r2)" by (simp add: serve_step_def)
  from response_delivers [OF s2 covers_mono [OF r(2) step] assms(2) _ miss,
      of "stream_of [] :: ('h, 'h, 'hd) store_sync_msg stream" ?ts] obtain ids r' where
    t: "response_turn D True ?ts st (r2, stream_of [] :: ('h, 'h, 'hd) store_sync_msg stream) =
        Some (Ret (True, r', \<lparr>incoming = [], outgoing = [ECGResponse (EcgResponse (sent_haves r') (map (pack st) ids))], is_open = True\<rparr>))"
      "responds I1 r2 r' ids" by auto
  from responded [OF room I1 t(2) n2] obtain I' where
    I': "insert_received D H I1 (map (pack st) ids) = Ret I'" "ecg_ok D dag_ok H I'" "part_of I' st"
      "dom (node_info_map st) \<subseteq> dom (node_info_map I') \<or> syncing (Suc n) I' \<lparr>initiator_have = sent_haves r'\<rparr> r'" by auto
  let ?s = "\<lparr>incoming = [], outgoing = [ECGResponse (EcgResponse (sent_haves r') (map (pack st) ids))], is_open = True\<rparr> ::
      ('h, 'h, 'hd) store_sync_msg stream"
  have "run_round_responder D ?ts bits st [] (r, stream_of []) = Some (Ret (True, r', ?s))"
    by (simp add: run_round_responder_def r1(1) r2(1) t(1) [simplified])
  note respond = this
  have "run_round_initiator self (stream_of (outgoing ?s)) I1 = Ret ((\<lparr>initiator_have = sent_haves r'\<rparr>, map (pack st) ids),
      \<lparr>incoming = [], outgoing = [Request (ECGSync ?ts bits)], is_open = True\<rparr>)"
    using run_round_initiator_receives [OF bits, of "sent_haves r'" "map (pack st) ids"] by (cases self) simp
  from sync_rounds.next_round [OF run this _ respond I'(1)] have
    "sync_rounds D H st I (Suc n) I' \<lparr>initiator_have = sent_haves r'\<rparr> r'" by simp
  with I'(2-4) show ?thesis by blast
qed

text \<open>A round that leaves something out has sent 32 headers, so the rounds end.\<close>

lemma rounds_complete:
  assumes room: "card (dom (node_info_map st)) < u64_max" and "layered H st" and "sync_rounds D H st I n I1 self r"
    and "syncing n I1 self r"
  shows "\<exists>m I' self' r'. n \<le> m \<and> sync_rounds D H st I m I' self' r' \<and> ecg_ok D dag_ok H I' \<and> part_of I' st \<and>
    dom (node_info_map st) \<subseteq> dom (node_info_map I') \<and> m \<le> card (dom (node_info_map st)) div 32 + 1"
  using assms(3,4)
proof (induction "card (dom (node_info_map st)) - 32 * n" arbitrary: n I1 self r rule: less_induct)
  case less
  have fin: "finite (dom (node_info_map st))" using ecg_ok_parts(1) [OF ok] by (simp add: map_ok_def)
  have s: "ecg_ok D dag_ok H I1" "part_of I1 st" "their_known r \<subseteq> dom (node_info_map I1)" "32 * n \<le> card (their_known r)"
    using less.prems(2) by (simp_all add: syncing_def serves_def)
  have finI: "finite (dom (node_info_map I1))" using ecg_ok_parts(1) [OF s(1)] by (simp add: map_ok_def)
  have n: "32 * n \<le> card (dom (node_info_map I1))" using card_mono [OF finI s(3)] s(4) by simp
  have le: "card (dom (node_info_map I1)) \<le> card (dom (node_info_map st))" by (rule card_mono [OF fin part_of_dom [OF s(2)]])
  show ?case
  proof (cases "dom (node_info_map st) \<subseteq> dom (node_info_map I1)")
    case True
    have "n \<le> card (dom (node_info_map st)) div 32 + 1" using n le by simp
    with True less.prems(1) s(1,2) show ?thesis by blast
  next
    case False
    then have "card (dom (node_info_map I1)) < card (dom (node_info_map st))"
      using part_of_dom [OF s(2)] by (intro psubset_card_mono [OF fin]) blast
    with n have lt: "32 * n < card (dom (node_info_map st))" by simp
    from later_round [OF room assms(2) less.prems False] obtain I2 self2 r2 where
      next_r: "sync_rounds D H st I (Suc n) I2 self2 r2" "ecg_ok D dag_ok H I2" "part_of I2 st"
        "dom (node_info_map st) \<subseteq> dom (node_info_map I2) \<or> syncing (Suc n) I2 self2 r2" by blast
    from next_r(4) show ?thesis
    proof
      assume c: "dom (node_info_map st) \<subseteq> dom (node_info_map I2)"
      have "Suc n \<le> card (dom (node_info_map st)) div 32 + 1" using lt by simp
      with c next_r(1-3) show ?thesis by (intro exI [of _ "Suc n"] exI [of _ I2] exI [of _ self2] exI [of _ r2]) simp
    next
      assume "syncing (Suc n) I2 self2 r2"
      moreover have "card (dom (node_info_map st)) - 32 * Suc n < card (dom (node_info_map st)) - 32 * n" using lt by simp
      ultimately obtain m I' self' r' where
        "Suc n \<le> m" "sync_rounds D H st I m I' self' r'" "ecg_ok D dag_ok H I'" "part_of I' st"
        "dom (node_info_map st) \<subseteq> dom (node_info_map I')" "m \<le> card (dom (node_info_map st)) div 32 + 1"
        using less.hyps [OF _ next_r(1)] by blast
      then show ?thesis by (intro exI [of _ m] exI [of _ I'] exI [of _ self'] exI [of _ r']) simp
    qed
  qed
qed

end

section \<open>What is reached\<close>

text \<open>The rounds are determined by the two graphs: what the initiator asks does not depend on what it is answered.\<close>

lemma receive_response_outgoing: "receive_response_helper s = Ret (x, s') \<Longrightarrow> outgoing s' = outgoing s"
  by (auto simp: receive_response_helper_def receive_expect_def receive_def
      split: list.splits sum.splits option.splits res.splits ecg_sync_response.splits prod.splits)

lemma run_new_asks:
  "run_new (stream_of ms) I = Ret (x, s') \<Longrightarrow> outgoing s' = [Request (ECGInitialSync (sorted_list_of_set (tips I)))]"
  by (auto simp: run_new_def send_expect_open split: res.splits prod.splits dest: receive_response_outgoing)

lemma run_round_initiator_asks:
  "run_round_initiator self (stream_of ms) I = Ret (x, s') \<Longrightarrow>
   \<exists>bits. known_bits I (initiator_have self) = Ret bits \<and>
     outgoing s' = [Request (ECGSync (sorted_list_of_set (tips I)) bits)]"
  by (auto simp: run_round_initiator_def send_expect_open split: res.splits prod.splits dest: receive_response_outgoing)

inductive_cases sync_roundsE: "sync_rounds D H st I n I' self r"

lemma sync_rounds_Suc: "sync_rounds D H st I n I' self r \<Longrightarrow> 0 < n"
  by (induction rule: sync_rounds.induct) simp_all

lemma sync_rounds_deterministic:
  "sync_rounds D H st I n I1 self1 r1 \<Longrightarrow> sync_rounds D H st I n I2 self2 r2 \<Longrightarrow> (I1, self1, r1) = (I2, self2, r2)"
proof (induction arbitrary: I2 self2 r2 rule: sync_rounds.induct)
  case (first s self received s' ts r I')
  note one = first.hyps
  from first.prems show ?case
  proof (cases rule: sync_rounds.cases)
    case (first s2 received2 s2' ts2)
    have "ts2 = ts" using run_new_asks [OF one(1)] run_new_asks [OF first(1)] one(2) first(2) by simp
    with one(3) first(3) have "s2 = s" "r2 = r" by simp_all
    with one first show ?thesis by simp
  qed (use sync_rounds_Suc in fastforce)
next
  case (next_round n J self r s self' received s' ts bits r' J')
  note one = next_round.hyps and IH = next_round.IH
  from next_round.prems show ?case
  proof (cases rule: sync_rounds.cases)
    case first
    then show ?thesis using sync_rounds_Suc [OF one(1)] by simp
  next
    case (next_round K self3 r3 s2 received2 s2' ts2 bits2)
    from IH [OF next_round(1)] have eq: "K = J" "self3 = self" "r3 = r" by simp_all
    from run_round_initiator_asks [OF one(2)] run_round_initiator_asks [OF next_round(2) [unfolded eq]] one(3) next_round(3)
    have "ts2 = ts \<and> bits2 = bits" by auto
    with one(4) next_round(4) eq have "s2 = s" "r2 = r'" by simp_all
    with one next_round eq show ?thesis by simp
  qed
qed

lemma part_of_parents:
  assumes "part_of st' st" and "dom (node_info_map st') = dom (node_info_map st)"
  shows "parent_rel H (node_info_map st') = parent_rel H (node_info_map st)"
proof -
  have "\<exists>n'. node_info_map st' h = Some n' \<and> header n' = header n" if "node_info_map st h = Some n" for h n
  proof -
    from that assms(2) obtain n' where "node_info_map st' h = Some n'" by blast
    with assms(1) that show ?thesis unfolding part_of_def by fastforce
  qed
  moreover have "\<exists>n. node_info_map st h = Some n \<and> header n = header n'" if "node_info_map st' h = Some n'" for h n'
    using assms(1) that unfolding part_of_def by blast
  ultimately show ?thesis unfolding parent_rel_def by fastforce
qed


lemma demo_layered: "layered test_header_ops demo_ecg"
proof -
  have "parent_rel test_header_ops (node_info_map demo_ecg) = {(1, 2)}"
    by (auto simp: parent_rel_def demo_ecg_def test_header_ops_def th_def split: if_splits)
  then show ?thesis by (simp add: layered_def depth_of_def demo_ecg_def)
qed


end
