(* ===== verification/KeepAlive.thy ===== *)
theory KeepAlive
  imports NetProtocol
begin

text \<open>
  The keep-alive protocol, \<open>ossa-core/src/network/protocol/keep_alive/v0\<close>, and the status of a connection in
  \<open>network/mod.rs\<close>, which is always active. A turn is one call of a side up to its recursive call and says
  whether the side returned instead; the client's sleep of five minutes is left out.
\<close>

datatype conn_status = ConnActive | ConnDone

definition connection_status :: "'m stream \<Rightarrow> conn_status" where
  "connection_status conn = ConnActive"

record keep_alive_request =
  ka_heartbeat :: u16

record keep_alive_response =
  ka_answer :: u16

datatype msg_keep_alive =
    KeepAliveRequest keep_alive_request
  | KeepAliveDone
  | KeepAliveResponse keep_alive_response

datatype keep_alive_error = MismatchedHeartbeats u16 u16

fun try_into_ka_request :: "msg_keep_alive \<Rightarrow> keep_alive_request option" where
  "try_into_ka_request (KeepAliveRequest r) = Some r"
| "try_into_ka_request _ = None"

fun try_into_ka_done :: "msg_keep_alive \<Rightarrow> unit option" where
  "try_into_ka_done KeepAliveDone = Some ()"
| "try_into_ka_done _ = None"

fun try_into_ka_response :: "msg_keep_alive \<Rightarrow> keep_alive_response option" where
  "try_into_ka_response (KeepAliveResponse r) = Some r"
| "try_into_ka_response _ = None"

definition keep_alive_client_turn :: "msg_keep_alive stream \<Rightarrow> (bool \<times> msg_keep_alive stream) res" where
  "keep_alive_client_turn conn =
     (if connection_status conn = ConnDone then
        bindR (send_expect (\<lambda>_. KeepAliveDone) conn ()) (\<lambda>conn. Ret (True, conn))
      else
        let heartbeat = 63 in
        bindR (send_expect KeepAliveRequest conn \<lparr>ka_heartbeat = heartbeat\<rparr>) (\<lambda>conn.
        bindR (receive_expect try_into_ka_response conn) (\<lambda>(response, conn).
        if heartbeat \<noteq> ka_answer response then Panic TodoHit else Ret (False, conn))))"

definition keep_alive_server_turn :: "msg_keep_alive stream \<Rightarrow> (bool \<times> msg_keep_alive stream) res" where
  "keep_alive_server_turn conn =
     (if connection_status conn = ConnDone then
        bindR (send_expect (\<lambda>_. KeepAliveDone) conn ()) (\<lambda>conn. Ret (True, conn))
      else
        bindR (receive_expect try_into_ka_request conn) (\<lambda>(request, conn).
        bindR (send_expect KeepAliveResponse conn \<lparr>ka_answer = ka_heartbeat request\<rparr>) (\<lambda>conn.
        Ret (False, conn))))"

text \<open>The recursion, as long as a side does not return.\<close>

partial_function (option) keep_alive_client ::
    "msg_keep_alive stream \<Rightarrow> ((keep_alive_error + unit) \<times> msg_keep_alive stream) res option" where
  "keep_alive_client conn =
     bindL (Some (keep_alive_client_turn conn)) (\<lambda>t.
     if fst t then Some (Ret (Inr (), snd t)) else keep_alive_client (snd t))"

partial_function (option) keep_alive_server ::
    "msg_keep_alive stream \<Rightarrow> ((keep_alive_error + unit) \<times> msg_keep_alive stream) res option" where
  "keep_alive_server conn =
     bindL (Some (keep_alive_server_turn conn)) (\<lambda>t.
     if fst t then Some (Ret (Inr (), snd t)) else keep_alive_server (snd t))"

declare keep_alive_client.simps [code] keep_alive_server.simps [code]

section \<open>Behaviour\<close>

lemma client_turn_answered:
  assumes "is_open conn" and "incoming conn = Inr (KeepAliveResponse \<lparr>ka_answer = 63\<rparr>) # rest"
  shows "keep_alive_client_turn conn =
    Ret (False, conn\<lparr>outgoing := outgoing conn @ [KeepAliveRequest \<lparr>ka_heartbeat = 63\<rparr>], incoming := rest\<rparr>)"
  using assms by (simp add: keep_alive_client_turn_def connection_status_def send_expect_open receive_expect_Inr Let_def)

lemma server_turn_answers:
  assumes "is_open conn" and "incoming conn = Inr (KeepAliveRequest \<lparr>ka_heartbeat = n\<rparr>) # rest"
  shows "keep_alive_server_turn conn =
    Ret (False, conn\<lparr>incoming := rest, outgoing := outgoing conn @ [KeepAliveResponse \<lparr>ka_answer = n\<rparr>]\<rparr>)"
  using assms by (simp add: keep_alive_server_turn_def connection_status_def send_expect_open receive_expect_Inr)

text \<open>
  The two sides keep each other going: after \<open>n\<close> turns each has what the other sent, \<open>n\<close> requests and \<open>n\<close>
  answers. But neither ever returns: \<open>connection_status\<close> is always active, so that a side whose peer is
  gone ends in the panic of \<open>receive\<close>.
\<close>

definition turns :: "('s \<Rightarrow> (bool \<times> 's) res) \<Rightarrow> nat \<Rightarrow> 's \<Rightarrow> 's res" where
  "turns turn n s = foldR (\<lambda>s _. bindR (turn s) (\<lambda>t. Ret (snd t))) s (replicate n ())"

theorem keep_alive_rounds:
  "turns keep_alive_client_turn n \<lparr>incoming = replicate n (Inr (KeepAliveResponse \<lparr>ka_answer = 63\<rparr>)), outgoing = ms, is_open = True\<rparr> =
     Ret \<lparr>incoming = [], outgoing = ms @ replicate n (KeepAliveRequest \<lparr>ka_heartbeat = 63\<rparr>), is_open = True\<rparr> \<and>
   turns keep_alive_server_turn n \<lparr>incoming = replicate n (Inr (KeepAliveRequest \<lparr>ka_heartbeat = 63\<rparr>)), outgoing = ms', is_open = True\<rparr> =
     Ret \<lparr>incoming = [], outgoing = ms' @ replicate n (KeepAliveResponse \<lparr>ka_answer = 63\<rparr>), is_open = True\<rparr>"
proof (induction n arbitrary: ms ms')
  case (Suc n)
  then show ?case by (simp add: turns_def client_turn_answered server_turn_answers)
qed (simp add: turns_def)

lemma turns_go_on:
  "keep_alive_client_turn conn \<noteq> Ret (True, conn')" "keep_alive_server_turn conn \<noteq> Ret (True, conn')"
  by (auto simp: keep_alive_client_turn_def keep_alive_server_turn_def connection_status_def Let_def
      split: res.splits prod.splits if_splits elim: bindR.elims)

theorem keep_alive_never_returns:
  "keep_alive_client conn \<noteq> Some (Ret x)" "keep_alive_server conn \<noteq> Some (Ret x)"
proof -
  let ?P = "\<lambda>conn r. \<forall>x. r \<noteq> Ret (x :: (keep_alive_error + unit) \<times> msg_keep_alive stream)"
  have "?P conn r" if "keep_alive_client conn = Some r" for r
  proof (rule keep_alive_client.raw_induct [where P = ?P, OF _ that], goal_cases)
    case (1 f c r')
    then show ?case by (cases "keep_alive_client_turn c") (auto simp: turns_go_on split: if_splits)
  qed
  then show "keep_alive_client conn \<noteq> Some (Ret x)" by blast
  have "?P conn r" if "keep_alive_server conn = Some r" for r
  proof (rule keep_alive_server.raw_induct [where P = ?P, OF _ that], goal_cases)
    case (1 f c r')
    then show ?case by (cases "keep_alive_server_turn c") (auto simp: turns_go_on split: if_splits)
  qed
  then show "keep_alive_server conn \<noteq> Some (Ret x)" by blast
qed

end
