(* ===== verification/Channels.thy ===== *)
theory Channels
  imports Streams Metadata
begin

text \<open>
  Channels inside a process, of \<open>ossa-core/src/util.rs\<close>: \<open>UnboundChannel\<close>, over which the tests of the first
  header exchange join client and server, and \<open>Channel\<close>, whose polls are still to be written. A channel has
  two ends, each with the sending side of one queue and the receiving side of the other. The queues are
  shared, so they live in a list of \<open>wire\<close>s and an end holds their numbers.

  Then the messages for metadata headers of \<open>protocol/v0.rs\<close>, with the client and the server of
  \<open>network/protocol/mod.rs\<close> for them.
\<close>

section \<open>Queues of the runtime\<close>

text \<open>What was sent and not yet received, and whether a sender and the receiver are still there.\<close>

record 'm wire =
  w_queue :: "'m list"
  w_capacity :: "nat option"
  w_sender :: bool
  w_receiver :: bool

type_synonym 'm wires = "'m wire list"

definition wire_new :: "nat option \<Rightarrow> 'm wires \<Rightarrow> (nat \<times> nat) \<times> 'm wires" where
  "wire_new capacity ws =
     ((length ws, length ws), ws @ [\<lparr>w_queue = [], w_capacity = capacity, w_sender = True, w_receiver = True\<rparr>])"

definition wire_send :: "'m wires \<Rightarrow> nat \<Rightarrow> 'm \<Rightarrow> (unit + unit) \<times> 'm wires" where
  "wire_send ws i x =
     (if w_receiver (ws ! i) then (Inr (), ws[i := (ws ! i)\<lparr>w_queue := w_queue (ws ! i) @ [x]\<rparr>])
      else (Inl (), ws))"

definition wire_poll_next :: "'m wires \<Rightarrow> nat \<Rightarrow> 'm option poll \<times> 'm wires" where
  "wire_poll_next ws i =
     (case w_queue (ws ! i) of
        x # xs \<Rightarrow> (Ready (Some x), ws[i := (ws ! i)\<lparr>w_queue := xs\<rparr>])
      | [] \<Rightarrow> (if w_sender (ws ! i) then Pending else Ready None, ws))"

section \<open>Unbounded channels\<close>

record channel_end =
  c_send :: nat
  c_recv :: nat

definition unbound_new_pair :: "'m wires \<Rightarrow> (channel_end \<times> channel_end) \<times> 'm wires" where
  "unbound_new_pair ws =
     (let ((send1, recv1), ws) = wire_new None ws;
          ((send2, recv2), ws) = wire_new None ws;
          c1 = \<lparr>c_send = send1, c_recv = recv2\<rparr>;
          c2 = \<lparr>c_send = send2, c_recv = recv1\<rparr>
      in ((c1, c2), ws))"

definition unbound_poll_next :: "'m wires \<Rightarrow> channel_end \<Rightarrow> (protocol_error + 'm) option poll \<times> 'm wires" where
  "unbound_poll_next ws c = (case wire_poll_next ws (c_recv c) of (p, ws) \<Rightarrow> (map_ready (map_option Inr) p, ws))"

definition unbound_poll_ready :: "channel_end \<Rightarrow> (protocol_error + unit) poll" where
  "unbound_poll_ready c = Ready (Inr ())"

definition unbound_start_send :: "'m wires \<Rightarrow> channel_end \<Rightarrow> 'm \<Rightarrow> (protocol_error + unit) \<times> 'm wires" where
  "unbound_start_send ws c x =
     (case wire_send ws (c_send c) x of
        (Inl _, ws) \<Rightarrow> (Inl StreamSendError, ws)
      | (Inr _, ws) \<Rightarrow> (Inr (), ws))"

definition unbound_poll_flush :: "channel_end \<Rightarrow> (protocol_error + unit) poll" where
  "unbound_poll_flush c = Ready (Inr ())"

definition unbound_poll_close :: "channel_end \<Rightarrow> (protocol_error + unit) poll" where
  "unbound_poll_close c = Ready (Inr ())"

text \<open>Dropping an end drops its sender and its receiver.\<close>

definition drop_end :: "'m wires \<Rightarrow> channel_end \<Rightarrow> 'm wires" where
  "drop_end ws c =
     (let ws = ws[c_send c := (ws ! c_send c)\<lparr>w_sender := False\<rparr>]
      in ws[c_recv c := (ws ! c_recv c)\<lparr>w_queue := [], w_receiver := False\<rparr>])"

section \<open>Bounded channels\<close>

definition channel_new_pair :: "nat \<Rightarrow> 'm wires \<Rightarrow> ((channel_end \<times> channel_end) \<times> 'm wires) res" where
  "channel_new_pair capacity ws =
     (if capacity = 0 then Panic AssertFailed
      else
        let ((send1, recv1), ws) = wire_new (Some capacity) ws;
            ((send2, recv2), ws) = wire_new (Some capacity) ws;
            c1 = \<lparr>c_send = send1, c_recv = recv2\<rparr>;
            c2 = \<lparr>c_send = send2, c_recv = recv1\<rparr>
        in Ret ((c1, c2), ws))"

definition channel_poll_next :: "'m wires \<Rightarrow> channel_end \<Rightarrow> ((protocol_error + 'm) option poll \<times> 'm wires) res" where
  "channel_poll_next ws c = Panic TodoHit"

definition channel_poll_ready :: "'m wires \<Rightarrow> channel_end \<Rightarrow> ((protocol_error + unit) poll \<times> 'm wires) res" where
  "channel_poll_ready ws c = Panic TodoHit"

definition channel_start_send :: "'m wires \<Rightarrow> channel_end \<Rightarrow> 'm \<Rightarrow> ((protocol_error + unit) \<times> 'm wires) res" where
  "channel_start_send ws c x = Panic TodoHit"

definition channel_poll_flush :: "'m wires \<Rightarrow> channel_end \<Rightarrow> ((protocol_error + unit) poll \<times> 'm wires) res" where
  "channel_poll_flush ws c = Panic TodoHit"

definition channel_poll_close :: "'m wires \<Rightarrow> channel_end \<Rightarrow> ((protocol_error + unit) poll \<times> 'm wires) res" where
  "channel_poll_close ws c = Panic TodoHit"

section \<open>What one end sends the other reads\<close>

text \<open>The two ends of a channel as they send and poll, in any order.\<close>

datatype which_end = FirstEnd | SecondEnd

fun other_end :: "which_end \<Rightarrow> which_end" where
  "other_end FirstEnd = SecondEnd"
| "other_end SecondEnd = FirstEnd"

datatype 'm channel_use = Sends which_end 'm | Polls which_end

record 'm talk =
  t_wires :: "'m wires"
  t_sent :: "which_end \<Rightarrow> 'm list"
  t_read :: "which_end \<Rightarrow> 'm list"

fun end_of :: "channel_end \<times> channel_end \<Rightarrow> which_end \<Rightarrow> channel_end" where
  "end_of (c1, c2) FirstEnd = c1"
| "end_of (c1, c2) SecondEnd = c2"

fun use_channel :: "channel_end \<times> channel_end \<Rightarrow> 'm talk \<Rightarrow> 'm channel_use \<Rightarrow> 'm talk" where
  "use_channel cs t (Sends a x) =
     (case unbound_start_send (t_wires t) (end_of cs a) x of
        (Inr _, ws) \<Rightarrow> t\<lparr>t_wires := ws, t_sent := (t_sent t)(a := t_sent t a @ [x])\<rparr>
      | (Inl _, ws) \<Rightarrow> t\<lparr>t_wires := ws\<rparr>)"
| "use_channel cs t (Polls a) =
     (case unbound_poll_next (t_wires t) (end_of cs a) of
        (Ready (Some (Inr x)), ws) \<Rightarrow> t\<lparr>t_wires := ws, t_read := (t_read t)(a := t_read t a @ [x])\<rparr>
      | (_, ws) \<Rightarrow> t\<lparr>t_wires := ws\<rparr>)"

definition in_transit :: "channel_end \<times> channel_end \<Rightarrow> 'm talk \<Rightarrow> which_end \<Rightarrow> 'm list" where
  "in_transit cs t a = w_queue (t_wires t ! c_recv (end_of cs a))"

definition joined :: "nat \<Rightarrow> channel_end \<times> channel_end \<Rightarrow> bool" where
  "joined n cs \<longleftrightarrow> cs = (\<lparr>c_send = n, c_recv = Suc n\<rparr>, \<lparr>c_send = Suc n, c_recv = n\<rparr>)"

definition talk_ok :: "nat \<Rightarrow> channel_end \<times> channel_end \<Rightarrow> 'm wires \<Rightarrow> 'm talk \<Rightarrow> bool" where
  "talk_ok n cs ws t \<longleftrightarrow> joined n cs \<and> length (t_wires t) = Suc (Suc n) \<and> take n (t_wires t) = ws \<and>
     w_receiver (t_wires t ! n) \<and> w_receiver (t_wires t ! Suc n) \<and>
     (\<forall>a. t_sent t (other_end a) = t_read t a @ in_transit cs t a)"

lemma all_ends: "(\<forall>a. P a) \<longleftrightarrow> P FirstEnd \<and> P SecondEnd"
  by (metis which_end.exhaust)

lemma use_channel_ok:
  assumes "talk_ok n cs ws t"
  shows "talk_ok n cs ws (use_channel cs t u)"
proof (cases u)
  case (Sends a x)
  with assms show ?thesis
    by (cases a) (auto simp: talk_ok_def joined_def all_ends in_transit_def unbound_start_send_def wire_send_def)
next
  case (Polls a)
  with assms show ?thesis
    by (cases a) (auto simp: talk_ok_def joined_def all_ends in_transit_def unbound_poll_next_def wire_poll_next_def
        split: list.splits)
qed

text \<open>
  However the two ends of a new channel send and poll, no send fails, what an end has read and what is still
  on its way to it is what the other end has sent, in order, and the other channels are left alone.
\<close>

theorem unbound_channel_fifo:
  fixes us :: "'m channel_use list"
  assumes "unbound_new_pair ws = (cs, ws')"
  defines "t \<equiv> foldl (use_channel cs) \<lparr>t_wires = ws', t_sent = (\<lambda>_. []), t_read = (\<lambda>_. [])\<rparr> us"
  shows "take (length ws) (t_wires t) = ws"
    and "t_sent t (other_end a) = t_read t a @ in_transit cs t a"
    and "fst (unbound_start_send (t_wires t) (end_of cs a) x) = Inr ()"
proof -
  have "talk_ok (length ws) cs ws \<lparr>t_wires = ws', t_sent = (\<lambda>_. []), t_read = (\<lambda>_. [])\<rparr>"
    using assms(1)
    by (auto simp: talk_ok_def joined_def unbound_new_pair_def wire_new_def Let_def in_transit_def all_ends nth_append)
  then have ok: "talk_ok (length ws) cs ws t"
    unfolding t_def by (induction us rule: rev_induct) (simp_all add: use_channel_ok)
  then show "take (length ws) (t_wires t) = ws" "t_sent t (other_end a) = t_read t a @ in_transit cs t a"
    by (simp_all add: talk_ok_def)
  from ok show "fst (unbound_start_send (t_wires t) (end_of cs a) x) = Inr ()"
    by (cases a) (simp_all add: talk_ok_def joined_def unbound_start_send_def wire_send_def)
qed

text \<open>Once the other end is dropped, what it sent can still be read, then the stream ends, and sends fail.\<close>

lemma dropped_end:
  assumes "joined n cs" and "length ws = Suc (Suc n)"
  shows "w_queue (drop_end ws (end_of cs (other_end a)) ! c_recv (end_of cs a)) = w_queue (ws ! c_recv (end_of cs a))"
    and "fst (unbound_start_send (drop_end ws (end_of cs (other_end a))) (end_of cs a) x) = Inl StreamSendError"
    and "w_queue (ws ! c_recv (end_of cs a)) = [] \<Longrightarrow>
      fst (unbound_poll_next (drop_end ws (end_of cs (other_end a))) (end_of cs a)) = Ready None"
  using assms
  by (cases a; simp add: joined_def drop_end_def Let_def unbound_start_send_def wire_send_def
      unbound_poll_next_def wire_poll_next_def)+

section \<open>Requests for metadata headers\<close>

record 'h store_metadata_request =
  mr_store_id :: 'h
  mr_body_request :: "unit option"

record 'h store_metadata_response =
  mr_header :: "'h metadata_header"

datatype 'h msg_store_metadata_header =
    MetadataHeaderRequest "'h store_metadata_request"
  | MetadataHeaderResponse "'h store_metadata_response"

fun try_into_metadata_request :: "'h msg_store_metadata_header \<Rightarrow> 'h store_metadata_request option" where
  "try_into_metadata_request (MetadataHeaderRequest r) = Some r"
| "try_into_metadata_request (MetadataHeaderResponse _) = None"

fun try_into_metadata_response :: "'h msg_store_metadata_header \<Rightarrow> 'h store_metadata_response option" where
  "try_into_metadata_response (MetadataHeaderResponse r) = Some r"
| "try_into_metadata_response (MetadataHeaderRequest _) = None"

definition run_store_metadata_server ::
    "'h msg_store_metadata_header stream \<Rightarrow> ((protocol_error + unit) \<times> 'h msg_store_metadata_header stream) res" where
  "run_store_metadata_server s =
     (case receive try_into_metadata_request s of
        (Inl e, s) \<Rightarrow> Ret (Inl e, s)
      | (Inr req, s) \<Rightarrow> Panic TodoHit)"

definition run_store_metadata_client ::
    "'h msg_store_metadata_header stream \<Rightarrow> 'h store_metadata_request
     \<Rightarrow> (protocol_error + 'h store_metadata_response) \<times> 'h msg_store_metadata_header stream" where
  "run_store_metadata_client s request =
     (case send MetadataHeaderRequest s request of
        (Inl e, s) \<Rightarrow> (Inl e, s)
      | (Inr _, s) \<Rightarrow> receive try_into_metadata_response s)"

text \<open>The server has no answer yet: what the client sends first is what makes it panic.\<close>

lemma metadata_request_panics:
  assumes "is_open s" and "outgoing s = []" and "run_store_metadata_client s request = (r, s')"
    and "incoming s'' = map Inr (outgoing s')"
  shows "run_store_metadata_server s'' = Panic TodoHit"
proof -
  have "outgoing s' = [MetadataHeaderRequest request]"
    using assms(1-3) by (auto simp: run_store_metadata_client_def send_def receive_def split: list.splits sum.splits option.splits)
  with assms(4) show ?thesis by (simp add: run_store_metadata_server_def receive_def)
qed

end
