(* ===== verification/Identity.thy ===== *)
theory Identity
  imports HashText CausalTime "HOL-Library.List_Lexorder"
begin

text \<open>
  The ids of devices (\<open>ossa-core/src/auth.rs\<close>) and of types (\<open>ossa-typeable/src/lib.rs\<close>). A device id is the 32 bytes of
  a public key. The signature library is an argument: how a key pair is generated and its public
  half taken.
\<close>

section \<open>Devices\<close>

datatype device_id = DeviceId (auth_key: bytes)

definition device_id_display :: "(bytes \<Rightarrow> bytes) \<Rightarrow> device_id \<Rightarrow> bytes" where
  "device_id_display enc d = enc (auth_key d)"

text \<open>Device ids are compared as their bytes.\<close>

definition device_id_cmp :: "device_id \<Rightarrow> device_id \<Rightarrow> ordering" where
  "device_id_cmp d e = cmp (auth_key d) (auth_key e)"

definition device_id_partial_cmp :: "device_id \<Rightarrow> device_id \<Rightarrow> ordering option" where
  "device_id_partial_cmp d e = Some (device_id_cmp d e)"

lemma device_id_cmp_iff:
  "device_id_cmp d e = Less \<longleftrightarrow> auth_key d < auth_key e"
  "device_id_cmp d e \<noteq> Greater \<longleftrightarrow> auth_key d \<le> auth_key e"
  by (auto simp: device_id_cmp_def cmp_def)

instantiation device_id :: linorder
begin

definition less_device_id :: "device_id \<Rightarrow> device_id \<Rightarrow> bool" where
  "d < e \<longleftrightarrow> device_id_cmp d e = Less"

definition less_eq_device_id :: "device_id \<Rightarrow> device_id \<Rightarrow> bool" where
  "d \<le> e \<longleftrightarrow> device_id_cmp d e \<noteq> Greater"

instance
  by (standard, unfold less_device_id_def less_eq_device_id_def device_id_cmp_iff) (auto intro: device_id.expand)

end

record 'sk identity =
  signing_key :: 'sk

definition generate_identity :: "('rng \<Rightarrow> 'sk \<times> 'rng) \<Rightarrow> 'rng \<Rightarrow> 'sk identity \<times> 'rng" where
  "generate_identity generate rng = (case generate rng of (sk, rng) \<Rightarrow> (\<lparr>signing_key = sk\<rparr>, rng))"

definition ossa_device_id :: "('sk \<Rightarrow> bytes) \<Rightarrow> 'sk identity \<Rightarrow> device_id" where
  "ossa_device_id verifying_key identity_keys = DeviceId (verifying_key (signing_key identity_keys))"

section \<open>Types\<close>

datatype type_id = TypeId (type_id_bytes: bytes)

definition type_id_display :: "type_id \<Rightarrow> bytes" where
  "type_id_display t = [48, 120] @ concat (map hex_byte (type_id_bytes t))"

text \<open>Ids that are shown alike are the same.\<close>

theorem shown_type_ids_differ: "type_id_display t = type_id_display u \<longleftrightarrow> t = u"
proof
  assume "type_id_display t = type_id_display u"
  then have "demo_unhex (concat (map hex_byte (type_id_bytes t))) = demo_unhex (concat (map hex_byte (type_id_bytes u)))"
    by (simp add: type_id_display_def)
  then show "t = u" by (simp add: demo_unhex_hex type_id.expand)
qed simp

end
